theory Spec2Isabelle
  imports Complex_Main "HOL-Library.Monad_Syntax"
begin

unbundle bit_operations_syntax

section \<open>The sweep-and-prune broad phase of b2BroadPhase.js\<close>

text \<open>
  The model follows \<^verbatim>\<open>src/collision/b2BroadPhase.js\<close>.  JavaScript numbers that hold
  coordinates are doubles, modelled as the reals they denote with every arithmetic
  operation rounded to the nearest double (the non-finite values are outside the model);
  quantized values, indices, counters and proxy ids are integers.  A JavaScript
  array is a partial map from index to element: reading an index that holds nothing
  yields \<^verbatim>\<open>undefined\<close>, and a property access on \<^verbatim>\<open>undefined\<close> raises a TypeError.
  That is the only way this code can raise, so a computation is an \<open>option\<close>:
  \<open>None\<close> stands for the raised TypeError.
\<close>

subsection \<open>Collaborators that are not part of the file\<close>

text \<open>
  \<^verbatim>\<open>box2d.Settings\<close> and \<^verbatim>\<open>box2d.Pair\<close> are not in the source tree.  The capacity and the two
  sentinels are parameters of the model.
\<close>

record Settings =
  b2_maxProxies :: int
  invalid :: int
  b2_nullProxy :: int

text \<open>Modelled from the spec: \<^verbatim>\<open>box2d.Settings.USHRT_MAX\<close>, the maximum 16-bit value.\<close>

definition USHRT_MAX :: int where
  "USHRT_MAX = 65535"

record Vec2 =
  vx :: real
  vy :: real

record AABB =
  minVertex :: Vec2
  maxVertex :: Vec2

text \<open>
  Modelled from the spec: \<^verbatim>\<open>box2d.AABB.prototype.IsValid\<close> is not in the source tree; the
  spec calls an AABB valid when it is non-degenerate, max > min on every axis.
\<close>

definition AABB_IsValid :: "AABB \<Rightarrow> bool" where
  "AABB_IsValid aabb \<longleftrightarrow>
     vx (minVertex aabb) < vx (maxVertex aabb) \<and> vy (minVertex aabb) < vy (maxVertex aabb)"

record Bound =
  b_value :: int
  proxyId :: int
  stabbingCount :: int

text \<open>
  Modelled from the spec: the class \<^verbatim>\<open>box2d.Bound\<close> is not in the source tree.  A bound is
  a lower bound when its value is even and an upper bound when it is odd; a new bound
  holds zeros; \<^verbatim>\<open>Swap\<close> exchanges the fields of two bounds.
\<close>

definition new_Bound :: Bound where
  "new_Bound = \<lparr>b_value = 0, proxyId = 0, stabbingCount = 0\<rparr>"

definition IsLower :: "Bound \<Rightarrow> bool" where
  "IsLower b \<longleftrightarrow> b_value b AND 1 = 0"

definition IsUpper :: "Bound \<Rightarrow> bool" where
  "IsUpper b \<longleftrightarrow> b_value b AND 1 = 1"

record Proxy =
  lowerBounds :: "int \<Rightarrow> int"
  upperBounds :: "int \<Rightarrow> int"
  overlapCount :: int
  timeStamp :: int
  userData :: "nat option"
  "next" :: int

text \<open>
  Modelled from the spec: the class \<^verbatim>\<open>box2d.Proxy\<close> is not in the source tree.  Its free-list
  link is the field \<open>next\<close>, and a proxy that has never been used has all its bound
  indices at the sentinel \<^verbatim>\<open>invalid\<close>.
\<close>

definition new_Proxy :: "Settings \<Rightarrow> Proxy" where
  "new_Proxy cfg = \<lparr>lowerBounds = (\<lambda>axis. invalid cfg), upperBounds = (\<lambda>axis. invalid cfg),
     overlapCount = invalid cfg, timeStamp = 0, userData = None, next = 0\<rparr>"

definition GetNext :: "Proxy \<Rightarrow> int" where
  "GetNext p = next p"

definition SetNext :: "int \<Rightarrow> Proxy \<Rightarrow> Proxy" where
  "SetNext n p = p\<lparr>next := n\<rparr>"

text \<open>
  Modelled from the spec: the pair manager is an external collaborator.  It buffers the
  add and remove requests in the order they arrive; a commit flushes the buffer into the
  log of committed requests.  The second proxy id of a request is read from the query
  results and is \<open>None\<close> where that array holds nothing.
\<close>

datatype pair_event = AddPair int "int option" | RemovePair int "int option"

record PairManager =
  buffered :: "pair_event list"
  committed :: "pair_event list"

definition new_PairManager :: PairManager where
  "new_PairManager = \<lparr>buffered = [], committed = []\<rparr>"

definition AddBufferedPair :: "int \<Rightarrow> int option \<Rightarrow> PairManager \<Rightarrow> PairManager" where
  "AddBufferedPair a b pm = pm\<lparr>buffered := buffered pm @ [AddPair a b]\<rparr>"

definition RemoveBufferedPair :: "int \<Rightarrow> int option \<Rightarrow> PairManager \<Rightarrow> PairManager" where
  "RemoveBufferedPair a b pm = pm\<lparr>buffered := buffered pm @ [RemovePair a b]\<rparr>"

definition pm_Commit :: "PairManager \<Rightarrow> PairManager" where
  "pm_Commit pm = pm\<lparr>buffered := [], committed := committed pm @ buffered pm\<rparr>"

subsection \<open>The state of a broad phase\<close>

record BoundValues =
  lowerValues :: "int \<Rightarrow> int"
  upperValues :: "int \<Rightarrow> int"

record BroadPhase =
  m_pairManager :: PairManager
  proxyPool :: "int \<rightharpoonup> Proxy"
  m_bounds :: "int \<Rightarrow> int \<rightharpoonup> Bound"
  m_queryResults :: "int \<rightharpoonup> int"
  m_quantizationFactor :: Vec2
  m_worldAABB :: AABB
  m_proxyCount :: int
  m_freeProxy :: int
  m_timeStamp :: int
  m_queryResultCount :: int

subsection \<open>Double arithmetic\<close>

text \<open>
  The numbers of the source are IEEE 754 doubles.  A double is modelled as the real it
  denotes, and an arithmetic operation as the exact operation followed by the rounding to
  the nearest number with a significand of 53 bits, ties to the even significand.  The
  exponent range is not bounded: overflow to an infinity, the subnormal numbers and NaN
  are outside the model.
\<close>

text \<open>The binary exponent of a positive number: \<open>2 ^ e \<le> x < 2 ^ (e + 1)\<close>.\<close>

function exponent_up :: "real \<Rightarrow> int" where
  "exponent_up x = (if 2 \<le> x then exponent_up (x / 2) + 1 else 0)"
  by pat_completeness auto
termination
proof (relation "measure (\<lambda>x. nat \<lfloor>x\<rfloor>)")
  show "wf (measure (\<lambda>x. nat \<lfloor>x\<rfloor>))" by simp
next
  fix x :: real assume a: "2 \<le> x"
  have "x / 2 \<le> x - 1" using a by simp
  then have "\<lfloor>x / 2\<rfloor> \<le> \<lfloor>x - 1\<rfloor>" by (rule floor_mono)
  moreover have "2 \<le> \<lfloor>x\<rfloor>" using a by (simp add: le_floor_iff)
  ultimately show "(x / 2, x) \<in> measure (\<lambda>x. nat \<lfloor>x\<rfloor>)" by simp
qed

function exponent_down :: "real \<Rightarrow> int" where
  "exponent_down x = (if 0 < x \<and> x < 1 then exponent_down (x * 2) - 1 else 0)"
  by pat_completeness auto
termination
proof (relation "measure (\<lambda>x. nat \<lceil>1 / x\<rceil>)")
  show "wf (measure (\<lambda>x. nat \<lceil>1 / x\<rceil>))" by simp
next
  fix x :: real assume a: "0 < x \<and> x < 1"
  have y: "1 < 1 / x" using a by simp
  then have c: "2 \<le> \<lceil>1 / x\<rceil>" by (simp add: le_ceiling_iff)
  have "1 / x \<le> of_int \<lceil>1 / x\<rceil>" by (rule le_of_int_ceiling)
  then have "1 / (x * 2) \<le> of_int \<lceil>1 / x\<rceil> / 2" by simp
  also have "\<dots> \<le> of_int (\<lceil>1 / x\<rceil> - 1)" using c by simp
  finally have "\<lceil>1 / (x * 2)\<rceil> \<le> \<lceil>1 / x\<rceil> - 1" by (simp only: ceiling_le_iff)
  then show "(x * 2, x) \<in> measure (\<lambda>x. nat \<lceil>1 / x\<rceil>)" using c a by simp
qed

declare exponent_up.simps [simp del] exponent_down.simps [simp del]

definition d_exponent :: "real \<Rightarrow> int" where
  "d_exponent x = (if 1 \<le> x then exponent_up x else exponent_down x)"

definition pow2 :: "int \<Rightarrow> real" where
  "pow2 e = (if 0 \<le> e then 2 ^ nat e else 1 / 2 ^ nat (- e))"

text \<open>Rounding to the nearest integer, a tie to the even one.\<close>

definition round_even :: "real \<Rightarrow> int" where
  "round_even y =
     (if y - of_int \<lfloor>y\<rfloor> < 1 / 2 then \<lfloor>y\<rfloor>
      else if 1 / 2 < y - of_int \<lfloor>y\<rfloor> then \<lfloor>y\<rfloor> + 1
      else if even \<lfloor>y\<rfloor> then \<lfloor>y\<rfloor> else \<lfloor>y\<rfloor> + 1)"

text \<open>
  Rounding to the nearest double: the number is scaled so that its significand is an
  integer of 53 bits, rounded, and scaled back.
\<close>

definition d_round :: "real \<Rightarrow> real" where
  "d_round x =
     (if x = 0 then 0
      else sgn x * of_int (round_even (\<bar>x\<bar> / pow2 (d_exponent \<bar>x\<bar> - 52))) *
           pow2 (d_exponent \<bar>x\<bar> - 52))"

definition d_sub :: "real \<Rightarrow> real \<Rightarrow> real" where
  "d_sub a b = d_round (a - b)"

definition d_mul :: "real \<Rightarrow> real \<Rightarrow> real" where
  "d_mul a b = d_round (a * b)"

definition d_div :: "real \<Rightarrow> real \<Rightarrow> real" where
  "d_div a b = d_round (a / b)"

subsection \<open>The constructor\<close>

text \<open>
  The pool holds \<^verbatim>\<open>b2_maxProxies\<close> proxies chained through \<open>next\<close>, the last one linked to
  the null proxy; each axis holds \<^verbatim>\<open>2 * b2_maxProxies\<close> bounds.
\<close>

definition new_BroadPhase :: "Settings \<Rightarrow> AABB \<Rightarrow> BroadPhase" where
  "new_BroadPhase cfg worldAABB =
     (let dX = d_sub (vx (maxVertex worldAABB)) (vx (minVertex worldAABB));
          dY = d_sub (vy (maxVertex worldAABB)) (vy (minVertex worldAABB))
      in \<lparr>m_pairManager = new_PairManager,
          proxyPool = (\<lambda>i.
            if 0 \<le> i \<and> i < b2_maxProxies cfg - 1
            then Some (SetNext (i + 1) (new_Proxy cfg))
            else if i = b2_maxProxies cfg - 1
            then Some (SetNext (b2_nullProxy cfg) (new_Proxy cfg))
            else None),
          m_bounds = (\<lambda>axis j. if 0 \<le> j \<and> j < 2 * b2_maxProxies cfg then Some new_Bound else None),
          m_queryResults = (\<lambda>i. if 0 \<le> i \<and> i < b2_maxProxies cfg then Some 0 else None),
          m_quantizationFactor = \<lparr>vx = d_div (real_of_int USHRT_MAX) dX,
                                  vy = d_div (real_of_int USHRT_MAX) dY\<rparr>,
          m_worldAABB = worldAABB,
          m_proxyCount = 0,
          m_freeProxy = 0,
          m_timeStamp = 1,
          m_queryResultCount = 0\<rparr>)"

subsection \<open>InRange\<close>

definition InRange :: "BroadPhase \<Rightarrow> AABB \<Rightarrow> bool" where
  "InRange s aabb =
     (let dX = d_sub (vx (minVertex aabb)) (vx (maxVertex (m_worldAABB s)));
          dY = d_sub (vy (minVertex aabb)) (vy (maxVertex (m_worldAABB s)));
          d2X = d_sub (vx (minVertex (m_worldAABB s))) (vx (maxVertex aabb));
          d2Y = d_sub (vy (minVertex (m_worldAABB s))) (vy (maxVertex aabb));
          dX = max dX d2X;
          dY = max dY d2Y
      in max dX dY < 0)"

subsection \<open>ComputeBounds\<close>

text \<open>
  The operands of \<^verbatim>\<open>&\<close> and \<^verbatim>\<open>|\<close> are converted by ToInt32: the number is truncated
  towards zero and wrapped into the signed 32-bit range.
\<close>

definition ToInt32 :: "real \<Rightarrow> int" where
  "ToInt32 r = signed_take_bit 31 (if r < 0 then \<lceil>r\<rceil> else \<lfloor>r\<rfloor>)"

definition ComputeBounds :: "BroadPhase \<Rightarrow> AABB \<Rightarrow> BoundValues" where
  "ComputeBounds s aabb =
     (let w = m_worldAABB s;
          minVertexX = max (min (vx (minVertex aabb)) (vx (maxVertex w))) (vx (minVertex w));
          minVertexY = max (min (vy (minVertex aabb)) (vy (maxVertex w))) (vy (minVertex w));
          maxVertexX = max (min (vx (maxVertex aabb)) (vx (maxVertex w))) (vx (minVertex w));
          maxVertexY = max (min (vy (maxVertex aabb)) (vy (maxVertex w))) (vy (minVertex w));
          lower0 = ToInt32 (d_mul (vx (m_quantizationFactor s))
                                  (d_sub minVertexX (vx (minVertex w))))
                     AND (USHRT_MAX - 1);
          upper0 = (ToInt32 (d_mul (vx (m_quantizationFactor s))
                                   (d_sub maxVertexX (vx (minVertex w))))
                     AND 65535) OR 1;
          lower1 = ToInt32 (d_mul (vy (m_quantizationFactor s))
                                  (d_sub minVertexY (vy (minVertex w))))
                     AND (USHRT_MAX - 1);
          upper1 = (ToInt32 (d_mul (vy (m_quantizationFactor s))
                                   (d_sub maxVertexY (vy (minVertex w))))
                     AND 65535) OR 1
      in \<lparr>lowerValues = (\<lambda>axis. if axis = 0 then lower0 else lower1),
          upperValues = (\<lambda>axis. if axis = 0 then upper0 else upper1)\<rparr>)"

subsection \<open>BinarySearch\<close>

function BinarySearch_loop :: "(int \<rightharpoonup> Bound) \<Rightarrow> int \<Rightarrow> int \<Rightarrow> int \<Rightarrow> int option" where
  "BinarySearch_loop bounds v low high =
     (if low \<le> high then
        (case bounds ((low + high) div 2) of
           None \<Rightarrow> None
         | Some b \<Rightarrow>
             if b_value b > v then BinarySearch_loop bounds v low ((low + high) div 2 - 1)
             else if b_value b < v then BinarySearch_loop bounds v ((low + high) div 2 + 1) high
             else Some ((low + high) div 2))
      else Some low)"
  by pat_completeness auto
termination
  by (relation "measure (\<lambda>(bounds, v, low, high). nat (high - low + 1))") auto

declare BinarySearch_loop.simps [simp del]

definition BinarySearch :: "(int \<rightharpoonup> Bound) \<Rightarrow> int \<Rightarrow> int \<Rightarrow> int option" where
  "BinarySearch bounds count v = BinarySearch_loop bounds v 0 (count - 1)"

subsection \<open>The overlap counter and the generation counter\<close>

definition IncrementOverlapCount :: "BroadPhase \<Rightarrow> int \<Rightarrow> BroadPhase option" where
  "IncrementOverlapCount s pid =
     (case proxyPool s pid of
        None \<Rightarrow> None
      | Some proxy \<Rightarrow>
          if timeStamp proxy < m_timeStamp s
          then Some (s\<lparr>proxyPool := (proxyPool s)(pid \<mapsto>
                         proxy\<lparr>timeStamp := m_timeStamp s, overlapCount := 1\<rparr>)\<rparr>)
          else Some (s\<lparr>proxyPool := (proxyPool s)(pid \<mapsto> proxy\<lparr>overlapCount := 2\<rparr>),
                       m_queryResults := (m_queryResults s)(m_queryResultCount s \<mapsto> pid),
                       m_queryResultCount := m_queryResultCount s + 1\<rparr>))"

function reset_timeStamps :: "Settings \<Rightarrow> int \<Rightarrow> (int \<rightharpoonup> Proxy) \<Rightarrow> (int \<rightharpoonup> Proxy) option" where
  "reset_timeStamps cfg i pool =
     (if i < b2_maxProxies cfg then
        (case pool i of
           None \<Rightarrow> None
         | Some p \<Rightarrow> reset_timeStamps cfg (i + 1) (pool(i \<mapsto> p\<lparr>timeStamp := 0\<rparr>)))
      else Some pool)"
  by pat_completeness auto
termination
  by (relation "measure (\<lambda>(cfg, i, pool). nat (b2_maxProxies cfg - i))") auto

declare reset_timeStamps.simps [simp del]

definition IncrementTimeStamp :: "Settings \<Rightarrow> BroadPhase \<Rightarrow> BroadPhase option" where
  "IncrementTimeStamp cfg s =
     (if m_timeStamp s = USHRT_MAX then
        do {
          pool \<leftarrow> reset_timeStamps cfg 0 (proxyPool s);
          Some (s\<lparr>proxyPool := pool, m_timeStamp := 1\<rparr>)
        }
      else Some (s\<lparr>m_timeStamp := m_timeStamp s + 1\<rparr>))"


subsection \<open>Query\<close>

text \<open>The easy case: the lower bounds inside the query range.\<close>

function Query_easy :: "BroadPhase \<Rightarrow> (int \<rightharpoonup> Bound) \<Rightarrow> int \<Rightarrow> int \<Rightarrow> BroadPhase option" where
  "Query_easy s bounds j upperQuery =
     (if j < upperQuery then
        (case bounds j of
           None \<Rightarrow> None
         | Some b \<Rightarrow>
             if IsLower b then
               (case IncrementOverlapCount s (proxyId b) of
                  None \<Rightarrow> None
                | Some s' \<Rightarrow> Query_easy s' bounds (j + 1) upperQuery)
             else Query_easy s bounds (j + 1) upperQuery)
      else Some s)"
  by pat_completeness auto
termination
  by (relation "measure (\<lambda>(s, bounds, j, upperQuery). nat (upperQuery - j))") auto

declare Query_easy.simps [simp del]

text \<open>
  The hard case: the walk down the array that spends the stabbing count \<open>n\<close> (the
  variable \<^verbatim>\<open>s\<close> of the source).  The bound arrays hold elements at the indices from 0
  only, so the read at a negative index is \<^verbatim>\<open>undefined\<close> and the walk raises there.
\<close>

function Query_hard :: "BroadPhase \<Rightarrow> (int \<rightharpoonup> Bound) \<Rightarrow> int \<Rightarrow> int \<Rightarrow> int \<Rightarrow> int \<Rightarrow> BroadPhase option" where
  "Query_hard s bounds axis lowerQuery i n =
     (if n \<noteq> 0 then
        (if i < 0 then None
         else case bounds i of
           None \<Rightarrow> None
         | Some b \<Rightarrow>
             if IsLower b then
               (case proxyPool s (proxyId b) of
                  None \<Rightarrow> None
                | Some proxy \<Rightarrow>
                    if lowerQuery \<le> upperBounds proxy axis then
                      (case IncrementOverlapCount s (proxyId b) of
                         None \<Rightarrow> None
                       | Some s' \<Rightarrow> Query_hard s' bounds axis lowerQuery (i - 1) (n - 1))
                    else Query_hard s bounds axis lowerQuery (i - 1) n)
             else Query_hard s bounds axis lowerQuery (i - 1) n)
      else Some s)"
  by pat_completeness auto
termination
  by (relation "measure (\<lambda>(s, bounds, axis, lowerQuery, i, n). nat (i + 1))") auto

declare Query_hard.simps [simp del]

text \<open>Query returns the new state with \<^verbatim>\<open>lowerQueryOut[0]\<close> and \<^verbatim>\<open>upperQueryOut[0]\<close>.\<close>

definition Query ::
  "BroadPhase \<Rightarrow> int \<Rightarrow> int \<Rightarrow> (int \<rightharpoonup> Bound) \<Rightarrow> int \<Rightarrow> int \<Rightarrow> (BroadPhase \<times> int \<times> int) option" where
  "Query s lowerValue upperValue bounds boundCount axis =
     do {
       lowerQuery \<leftarrow> BinarySearch bounds boundCount lowerValue;
       upperQuery \<leftarrow> BinarySearch bounds boundCount upperValue;
       s1 \<leftarrow> Query_easy s bounds lowerQuery upperQuery;
       s2 \<leftarrow> (if lowerQuery > 0 then
                do {
                  b \<leftarrow> bounds (lowerQuery - 1);
                  Query_hard s1 bounds axis lowerQuery (lowerQuery - 1) (stabbingCount b)
                }
              else Some s1);
       Some (s2, lowerQuery, upperQuery)
     }"

subsection \<open>Loops shared by CreateProxy and DestroyProxy\<close>

text \<open>
  The replacement of \<^verbatim>\<open>memmove\<close>: the block of \<open>n\<close> bounds from \<open>src\<close> is copied into a
  temporary array, and the temporary array is written back from \<open>dst\<close>.
\<close>

fun make_temp :: "(int \<rightharpoonup> Bound) \<Rightarrow> int \<Rightarrow> nat \<Rightarrow> Bound list option" where
  "make_temp bounds src 0 = Some []"
| "make_temp bounds src (Suc n) =
     (case bounds src of
        None \<Rightarrow> None
      | Some b \<Rightarrow>
          (case make_temp bounds (src + 1) n of
             None \<Rightarrow> None
           | Some tArr \<Rightarrow>
               Some (\<lparr>b_value = b_value b, proxyId = proxyId b,
                       stabbingCount = stabbingCount b\<rparr> # tArr)))"

fun move_back :: "(int \<rightharpoonup> Bound) \<Rightarrow> int \<Rightarrow> Bound list \<Rightarrow> (int \<rightharpoonup> Bound) option" where
  "move_back bounds tIndex [] = Some bounds"
| "move_back bounds tIndex (tBound2 # tArr) =
     (case bounds tIndex of
        None \<Rightarrow> None
      | Some tBound1 \<Rightarrow>
          move_back
            (bounds(tIndex \<mapsto> tBound1\<lparr>b_value := b_value tBound2, proxyId := proxyId tBound2,
                                          stabbingCount := stabbingCount tBound2\<rparr>))
            (tIndex + 1) tArr)"

definition memmove :: "(int \<rightharpoonup> Bound) \<Rightarrow> int \<Rightarrow> int \<Rightarrow> int \<Rightarrow> (int \<rightharpoonup> Bound) option" where
  "memmove bounds dst src tEnd =
     do {
       tArr \<leftarrow> make_temp bounds src (nat tEnd);
       move_back bounds dst tArr
     }"

text \<open>The loop that adds \<open>d\<close> to the stabbing counts at the indices from \<open>index\<close> below \<open>tEnd\<close>.\<close>

function adjust_stabbing :: "(int \<rightharpoonup> Bound) \<Rightarrow> int \<Rightarrow> int \<Rightarrow> int \<Rightarrow> (int \<rightharpoonup> Bound) option" where
  "adjust_stabbing bounds d index tEnd =
     (if index < tEnd then
        (case bounds index of
           None \<Rightarrow> None
         | Some b \<Rightarrow>
             adjust_stabbing (bounds(index \<mapsto> b\<lparr>stabbingCount := stabbingCount b + d\<rparr>)) d
               (index + 1) tEnd)
      else Some bounds)"
  by pat_completeness auto
termination
  by (relation "measure (\<lambda>(bounds, d, index, tEnd). nat (tEnd - index))") auto

declare adjust_stabbing.simps [simp del]

text \<open>The loop that points the proxies of the bounds from \<open>index\<close> below \<open>tEnd\<close> at them.\<close>

function fix_indices ::
  "(int \<rightharpoonup> Proxy) \<Rightarrow> (int \<rightharpoonup> Bound) \<Rightarrow> int \<Rightarrow> int \<Rightarrow> int \<Rightarrow> (int \<rightharpoonup> Proxy) option" where
  "fix_indices pool bounds axis index tEnd =
     (if index < tEnd then
        (case bounds index of
           None \<Rightarrow> None
         | Some b \<Rightarrow>
             (case pool (proxyId b) of
                None \<Rightarrow> None
              | Some proxy2 \<Rightarrow>
                  if IsLower b then
                    fix_indices
                      (pool(proxyId b \<mapsto> proxy2\<lparr>lowerBounds := (lowerBounds proxy2)(axis := index)\<rparr>))
                      bounds axis (index + 1) tEnd
                  else
                    fix_indices
                      (pool(proxyId b \<mapsto> proxy2\<lparr>upperBounds := (upperBounds proxy2)(axis := index)\<rparr>))
                      bounds axis (index + 1) tEnd))
      else Some pool)"
  by pat_completeness auto
termination
  by (relation "measure (\<lambda>(pool, bounds, axis, index, tEnd). nat (tEnd - index))") auto

declare fix_indices.simps [simp del]

text \<open>The loops over the query results that hand the pairs to the pair manager.\<close>

function add_pairs :: "(int \<rightharpoonup> int) \<Rightarrow> int \<Rightarrow> int \<Rightarrow> int \<Rightarrow> PairManager \<Rightarrow> PairManager" where
  "add_pairs results count pid i pm =
     (if i < count then add_pairs results count pid (i + 1) (AddBufferedPair pid (results i) pm)
      else pm)"
  by pat_completeness auto
termination
  by (relation "measure (\<lambda>(results, count, pid, i, pm). nat (count - i))") auto

declare add_pairs.simps [simp del]

function remove_pairs :: "(int \<rightharpoonup> int) \<Rightarrow> int \<Rightarrow> int \<Rightarrow> int \<Rightarrow> PairManager \<Rightarrow> PairManager" where
  "remove_pairs results count pid i pm =
     (if i < count then
        remove_pairs results count pid (i + 1) (RemoveBufferedPair pid (results i) pm)
      else pm)"
  by pat_completeness auto
termination
  by (relation "measure (\<lambda>(results, count, pid, i, pm). nat (count - i))") auto

declare remove_pairs.simps [simp del]

subsection \<open>CreateProxy\<close>

text \<open>The body of the loop over the axes.\<close>

definition CreateProxy_axis ::
  "BroadPhase \<Rightarrow> int \<Rightarrow> int \<Rightarrow> BoundValues \<Rightarrow> int \<Rightarrow> BroadPhase option" where
  "CreateProxy_axis s pid boundCount vals axis =
     do {
       (s1, lowerIndex, upperIndex0) \<leftarrow>
         Query s (lowerValues vals axis) (upperValues vals axis) (m_bounds s axis) boundCount axis;
       bounds1 \<leftarrow> memmove (m_bounds s1 axis) (upperIndex0 + 2) upperIndex0 (boundCount - upperIndex0);
       bounds2 \<leftarrow> memmove bounds1 (lowerIndex + 1) lowerIndex (upperIndex0 - lowerIndex);
       let upperIndex = upperIndex0 + 1;
       bl \<leftarrow> bounds2 lowerIndex;
       let bounds3 = bounds2(lowerIndex \<mapsto> bl\<lparr>b_value := lowerValues vals axis, proxyId := pid\<rparr>);
       bu \<leftarrow> bounds3 upperIndex;
       let bounds4 = bounds3(upperIndex \<mapsto> bu\<lparr>b_value := upperValues vals axis, proxyId := pid\<rparr>);
       bl' \<leftarrow> bounds4 lowerIndex;
       c \<leftarrow> (if lowerIndex = 0 then Some 0 else map_option stabbingCount (bounds4 (lowerIndex - 1)));
       let bounds5 = bounds4(lowerIndex \<mapsto> bl'\<lparr>stabbingCount := c\<rparr>);
       bp \<leftarrow> bounds5 (upperIndex - 1);
       bu' \<leftarrow> bounds5 upperIndex;
       let bounds6 = bounds5(upperIndex \<mapsto> bu'\<lparr>stabbingCount := stabbingCount bp\<rparr>);
       bounds7 \<leftarrow> adjust_stabbing bounds6 1 lowerIndex upperIndex;
       pool \<leftarrow> fix_indices (proxyPool s1) bounds7 axis lowerIndex (boundCount + 2);
       Some (s1\<lparr>m_bounds := (m_bounds s1)(axis := bounds7), proxyPool := pool\<rparr>)
     }"

definition CreateProxy :: "Settings \<Rightarrow> BroadPhase \<Rightarrow> AABB \<Rightarrow> nat option \<Rightarrow> (BroadPhase \<times> int) option" where
  "CreateProxy cfg s aabb ud =
     do {
       let pid = m_freeProxy s;
       proxy \<leftarrow> proxyPool s pid;
       let s1 = s\<lparr>m_freeProxy := GetNext proxy,
                  proxyPool := (proxyPool s)(pid \<mapsto> proxy\<lparr>overlapCount := 0, userData := ud\<rparr>)\<rparr>;
       let boundCount = 2 * m_proxyCount s1;
       let vals = ComputeBounds s1 aabb;
       s2 \<leftarrow> CreateProxy_axis s1 pid boundCount vals 0;
       s3 \<leftarrow> CreateProxy_axis s2 pid boundCount vals 1;
       let s4 = s3\<lparr>m_proxyCount := m_proxyCount s3 + 1\<rparr>;
       let s5 = s4\<lparr>m_pairManager :=
                     pm_Commit (add_pairs (m_queryResults s4) (m_queryResultCount s4) pid 0
                                  (m_pairManager s4))\<rparr>;
       s6 \<leftarrow> IncrementTimeStamp cfg (s5\<lparr>m_queryResultCount := 0\<rparr>);
       Some (s6, pid)
     }"

subsection \<open>DestroyProxy\<close>

definition DestroyProxy_axis :: "BroadPhase \<Rightarrow> int \<Rightarrow> int \<Rightarrow> int \<Rightarrow> BroadPhase option" where
  "DestroyProxy_axis s pid boundCount axis =
     do {
       proxy \<leftarrow> proxyPool s pid;
       let lowerIndex = lowerBounds proxy axis;
       let upperIndex = upperBounds proxy axis;
       bl \<leftarrow> m_bounds s axis lowerIndex;
       bu \<leftarrow> m_bounds s axis upperIndex;
       let lowerValue = b_value bl;
       let upperValue = b_value bu;
       bounds1 \<leftarrow> memmove (m_bounds s axis) lowerIndex (lowerIndex + 1) (upperIndex - lowerIndex - 1);
       bounds2 \<leftarrow> memmove bounds1 (upperIndex - 1) (upperIndex + 1) (boundCount - upperIndex - 1);
       pool \<leftarrow> fix_indices (proxyPool s) bounds2 axis lowerIndex (boundCount - 2);
       bounds3 \<leftarrow> adjust_stabbing bounds2 (- 1) lowerIndex (upperIndex - 1);
       let s1 = s\<lparr>m_bounds := (m_bounds s)(axis := bounds3), proxyPool := pool\<rparr>;
       (s2, lq, uq) \<leftarrow> Query s1 lowerValue upperValue bounds3 (boundCount - 2) axis;
       Some s2
     }"

definition DestroyProxy :: "Settings \<Rightarrow> BroadPhase \<Rightarrow> int \<Rightarrow> BroadPhase option" where
  "DestroyProxy cfg s pid =
     do {
       let boundCount = 2 * m_proxyCount s;
       s1 \<leftarrow> DestroyProxy_axis s pid boundCount 0;
       s2 \<leftarrow> DestroyProxy_axis s1 pid boundCount 1;
       let s3 = s2\<lparr>m_pairManager :=
                     pm_Commit (remove_pairs (m_queryResults s2) (m_queryResultCount s2) pid 0
                                  (m_pairManager s2))\<rparr>;
       s4 \<leftarrow> IncrementTimeStamp cfg (s3\<lparr>m_queryResultCount := 0\<rparr>);
       proxy \<leftarrow> proxyPool s4 pid;
       let proxy' = SetNext (m_freeProxy s4)
                      (proxy\<lparr>userData := None, overlapCount := invalid cfg,
                             lowerBounds := (\<lambda>axis. if axis = 0 \<or> axis = 1 then invalid cfg
                                                     else lowerBounds proxy axis),
                             upperBounds := (\<lambda>axis. if axis = 0 \<or> axis = 1 then invalid cfg
                                                     else upperBounds proxy axis)\<rparr>);
       Some (s4\<lparr>proxyPool := (proxyPool s4)(pid \<mapsto> proxy'),
                 m_freeProxy := pid,
                 m_proxyCount := m_proxyCount s4 - 1\<rparr>)
     }"


subsection \<open>QueryAABB\<close>

text \<open>The loop that copies the user data of the reported proxies into the caller's array.\<close>

function collect_userData ::
  "BroadPhase \<Rightarrow> int \<Rightarrow> int \<Rightarrow> int \<Rightarrow> nat option list \<Rightarrow> (nat option list \<times> int) option" where
  "collect_userData s maxCount i count out =
     (if i < m_queryResultCount s \<and> count < maxCount then
        (case m_queryResults s i of
           None \<Rightarrow> None
         | Some r \<Rightarrow>
             (case proxyPool s r of
                None \<Rightarrow> None
              | Some proxy \<Rightarrow>
                  collect_userData s maxCount (i + 1) (count + 1) (out @ [userData proxy])))
      else Some (out, count))"
  by pat_completeness auto
termination
  by (relation "measure (\<lambda>(s, maxCount, i, count, out). nat (m_queryResultCount s - i))") auto

declare collect_userData.simps [simp del]

definition QueryAABB ::
  "Settings \<Rightarrow> BroadPhase \<Rightarrow> AABB \<Rightarrow> int \<Rightarrow> (BroadPhase \<times> nat option list \<times> int) option" where
  "QueryAABB cfg s aabb maxCount =
     do {
       let vals = ComputeBounds s aabb;
       (s1, l0, u0) \<leftarrow>
         Query s (lowerValues vals 0) (upperValues vals 0) (m_bounds s 0) (2 * m_proxyCount s) 0;
       (s2, l1, u1) \<leftarrow>
         Query s1 (lowerValues vals 1) (upperValues vals 1) (m_bounds s1 1) (2 * m_proxyCount s1) 1;
       (out, count) \<leftarrow> collect_userData s2 maxCount 0 0 [];
       s3 \<leftarrow> IncrementTimeStamp cfg (s2\<lparr>m_queryResultCount := 0\<rparr>);
       Some (s3, out, count)
     }"

subsection \<open>Validate\<close>

text \<open>
  The scan of Validate over one axis.  The result lists, index by index, the running
  count that the assertion of the source compares with the stored stabbing count.
\<close>

function Validate_scan :: "(int \<rightharpoonup> Bound) \<Rightarrow> int \<Rightarrow> int \<Rightarrow> int \<Rightarrow> int list option" where
  "Validate_scan bounds boundCount i count =
     (if i < boundCount then
        (case bounds i of
           None \<Rightarrow> None
         | Some bound \<Rightarrow>
             (case Validate_scan bounds boundCount (i + 1)
                     (if IsLower bound then count + 1 else count - 1) of
                None \<Rightarrow> None
              | Some cs \<Rightarrow> Some ((if IsLower bound then count + 1 else count - 1) # cs)))
      else Some [])"
  by pat_completeness auto
termination
  by (relation "measure (\<lambda>(bounds, boundCount, i, count). nat (boundCount - i))") auto

declare Validate_scan.simps [simp del]

subsection \<open>TestOverlap\<close>

definition TestOverlap_axis :: "BroadPhase \<Rightarrow> BoundValues \<Rightarrow> Proxy \<Rightarrow> int \<Rightarrow> bool option" where
  "TestOverlap_axis s b p axis =
     do {
       ub \<leftarrow> m_bounds s axis (upperBounds p axis);
       if lowerValues b axis > b_value ub then Some False
       else do {
         lb \<leftarrow> m_bounds s axis (lowerBounds p axis);
         if upperValues b axis < b_value lb then Some False else Some True
       }
     }"

definition TestOverlap :: "BroadPhase \<Rightarrow> BoundValues \<Rightarrow> Proxy \<Rightarrow> bool option" where
  "TestOverlap s b p =
     do {
       r0 \<leftarrow> TestOverlap_axis s b p 0;
       if r0 then TestOverlap_axis s b p 1 else Some False
     }"

subsection \<open>MoveProxy\<close>

definition set_bound :: "BroadPhase \<Rightarrow> int \<Rightarrow> int \<Rightarrow> Bound \<Rightarrow> BroadPhase" where
  "set_bound s axis i b = s\<lparr>m_bounds := (m_bounds s)(axis := (m_bounds s axis)(i \<mapsto> b))\<rparr>"

definition set_proxy :: "BroadPhase \<Rightarrow> int \<Rightarrow> Proxy \<Rightarrow> BroadPhase" where
  "set_proxy s pid p = s\<lparr>proxyPool := (proxyPool s)(pid \<mapsto> p)\<rparr>"

text \<open>
  \<^verbatim>\<open>bound.Swap(other)\<close> on the bounds at the indices \<open>i\<close> and \<open>j\<close>: the two objects
  exchange their three fields.
\<close>

definition Swap :: "BroadPhase \<Rightarrow> int \<Rightarrow> int \<Rightarrow> int \<Rightarrow> BroadPhase option" where
  "Swap s axis i j =
     do {
       bound \<leftarrow> m_bounds s axis i;
       other \<leftarrow> m_bounds s axis j;
       let s1 = set_bound s axis i
                  (bound\<lparr>b_value := b_value other, proxyId := proxyId other,
                         stabbingCount := stabbingCount other\<rparr>);
       other1 \<leftarrow> m_bounds s1 axis j;
       Some (set_bound s1 axis j
               (other1\<lparr>b_value := b_value bound, proxyId := proxyId bound,
                       stabbingCount := stabbingCount bound\<rparr>))
     }"

text \<open>
  The bodies of the four loops of MoveProxy.  Each moves the bound at \<open>index\<close> past a
  neighbour: it corrects the two stabbing counts, buffers a pair event when the
  neighbour has the opposite role and the proxies overlap, corrects the two bound
  indices and swaps the two bounds.
\<close>

text \<open>Expanding, the lower bound moves down past the previous bound.\<close>

definition lower_down_step :: "BroadPhase \<Rightarrow> int \<Rightarrow> BoundValues \<Rightarrow> int \<Rightarrow> int \<Rightarrow> BroadPhase option" where
  "lower_down_step s pid newValues axis index =
     do {
       bound \<leftarrow> m_bounds s axis index;
       prevBound \<leftarrow> m_bounds s axis (index - 1);
       let prevProxyId = proxyId prevBound;
       prevProxy \<leftarrow> proxyPool s prevProxyId;
       let s1 = set_bound s axis (index - 1)
                  (prevBound\<lparr>stabbingCount := stabbingCount prevBound + 1\<rparr>);
       s2 \<leftarrow>
         (if IsUpper prevBound then
            do {
              ov \<leftarrow> TestOverlap s1 newValues prevProxy;
              let s1a = (if ov then
                           s1\<lparr>m_pairManager :=
                                AddBufferedPair pid (Some prevProxyId) (m_pairManager s1)\<rparr>
                         else s1);
              let s1b = set_proxy s1a prevProxyId
                          (prevProxy\<lparr>upperBounds :=
                             (upperBounds prevProxy)(axis := upperBounds prevProxy axis + 1)\<rparr>);
              bound1 \<leftarrow> m_bounds s1b axis index;
              Some (set_bound s1b axis index
                      (bound1\<lparr>stabbingCount := stabbingCount bound1 + 1\<rparr>))
            }
          else
            do {
              let s1b = set_proxy s1 prevProxyId
                          (prevProxy\<lparr>lowerBounds :=
                             (lowerBounds prevProxy)(axis := lowerBounds prevProxy axis + 1)\<rparr>);
              bound1 \<leftarrow> m_bounds s1b axis index;
              Some (set_bound s1b axis index
                      (bound1\<lparr>stabbingCount := stabbingCount bound1 - 1\<rparr>))
            });
       proxy \<leftarrow> proxyPool s2 pid;
       let s3 = set_proxy s2 pid
                  (proxy\<lparr>lowerBounds := (lowerBounds proxy)(axis := lowerBounds proxy axis - 1)\<rparr>);
       Swap s3 axis index (index - 1)
     }"

function lower_down ::
  "BroadPhase \<Rightarrow> int \<Rightarrow> BoundValues \<Rightarrow> int \<Rightarrow> int \<Rightarrow> int \<Rightarrow> BroadPhase option" where
  "lower_down s pid newValues axis lowerValue index =
     (if index > 0 then
        (case m_bounds s axis (index - 1) of
           None \<Rightarrow> None
         | Some prevBound \<Rightarrow>
             if lowerValue < b_value prevBound then
               (case lower_down_step s pid newValues axis index of
                  None \<Rightarrow> None
                | Some s' \<Rightarrow> lower_down s' pid newValues axis lowerValue (index - 1))
             else Some s)
      else Some s)"
  by pat_completeness auto
termination
  by (relation "measure (\<lambda>(s, pid, newValues, axis, lowerValue, index). nat index)") auto

declare lower_down.simps [simp del]

text \<open>Expanding, the upper bound moves up past the next bound.\<close>

definition upper_up_step :: "BroadPhase \<Rightarrow> int \<Rightarrow> BoundValues \<Rightarrow> int \<Rightarrow> int \<Rightarrow> BroadPhase option" where
  "upper_up_step s pid newValues axis index =
     do {
       bound \<leftarrow> m_bounds s axis index;
       nextBound \<leftarrow> m_bounds s axis (index + 1);
       let nextProxyId = proxyId nextBound;
       nextProxy \<leftarrow> proxyPool s nextProxyId;
       let s1 = set_bound s axis (index + 1)
                  (nextBound\<lparr>stabbingCount := stabbingCount nextBound + 1\<rparr>);
       s2 \<leftarrow>
         (if IsLower nextBound then
            do {
              ov \<leftarrow> TestOverlap s1 newValues nextProxy;
              let s1a = (if ov then
                           s1\<lparr>m_pairManager :=
                                AddBufferedPair pid (Some nextProxyId) (m_pairManager s1)\<rparr>
                         else s1);
              let s1b = set_proxy s1a nextProxyId
                          (nextProxy\<lparr>lowerBounds :=
                             (lowerBounds nextProxy)(axis := lowerBounds nextProxy axis - 1)\<rparr>);
              bound1 \<leftarrow> m_bounds s1b axis index;
              Some (set_bound s1b axis index
                      (bound1\<lparr>stabbingCount := stabbingCount bound1 + 1\<rparr>))
            }
          else
            do {
              let s1b = set_proxy s1 nextProxyId
                          (nextProxy\<lparr>upperBounds :=
                             (upperBounds nextProxy)(axis := upperBounds nextProxy axis - 1)\<rparr>);
              bound1 \<leftarrow> m_bounds s1b axis index;
              Some (set_bound s1b axis index
                      (bound1\<lparr>stabbingCount := stabbingCount bound1 - 1\<rparr>))
            });
       proxy \<leftarrow> proxyPool s2 pid;
       let s3 = set_proxy s2 pid
                  (proxy\<lparr>upperBounds := (upperBounds proxy)(axis := upperBounds proxy axis + 1)\<rparr>);
       Swap s3 axis index (index + 1)
     }"

function upper_up ::
  "BroadPhase \<Rightarrow> int \<Rightarrow> BoundValues \<Rightarrow> int \<Rightarrow> int \<Rightarrow> int \<Rightarrow> int \<Rightarrow> BroadPhase option" where
  "upper_up s pid newValues axis boundCount upperValue index =
     (if index < boundCount - 1 then
        (case m_bounds s axis (index + 1) of
           None \<Rightarrow> None
         | Some nextBound \<Rightarrow>
             if b_value nextBound \<le> upperValue then
               (case upper_up_step s pid newValues axis index of
                  None \<Rightarrow> None
                | Some s' \<Rightarrow> upper_up s' pid newValues axis boundCount upperValue (index + 1))
             else Some s)
      else Some s)"
  by pat_completeness auto
termination
  by (relation "measure (\<lambda>(s, pid, newValues, axis, boundCount, upperValue, index). nat (boundCount - index))") auto

declare upper_up.simps [simp del]

text \<open>Shrinking, the lower bound moves up past the next bound.\<close>

definition lower_up_step :: "BroadPhase \<Rightarrow> int \<Rightarrow> BoundValues \<Rightarrow> int \<Rightarrow> int \<Rightarrow> BroadPhase option" where
  "lower_up_step s pid oldValues axis index =
     do {
       bound \<leftarrow> m_bounds s axis index;
       nextBound \<leftarrow> m_bounds s axis (index + 1);
       let nextProxyId = proxyId nextBound;
       nextProxy \<leftarrow> proxyPool s nextProxyId;
       let s1 = set_bound s axis (index + 1)
                  (nextBound\<lparr>stabbingCount := stabbingCount nextBound - 1\<rparr>);
       s2 \<leftarrow>
         (if IsUpper nextBound then
            do {
              ov \<leftarrow> TestOverlap s1 oldValues nextProxy;
              let s1a = (if ov then
                           s1\<lparr>m_pairManager :=
                                RemoveBufferedPair pid (Some nextProxyId) (m_pairManager s1)\<rparr>
                         else s1);
              let s1b = set_proxy s1a nextProxyId
                          (nextProxy\<lparr>upperBounds :=
                             (upperBounds nextProxy)(axis := upperBounds nextProxy axis - 1)\<rparr>);
              bound1 \<leftarrow> m_bounds s1b axis index;
              Some (set_bound s1b axis index
                      (bound1\<lparr>stabbingCount := stabbingCount bound1 - 1\<rparr>))
            }
          else
            do {
              let s1b = set_proxy s1 nextProxyId
                          (nextProxy\<lparr>lowerBounds :=
                             (lowerBounds nextProxy)(axis := lowerBounds nextProxy axis - 1)\<rparr>);
              bound1 \<leftarrow> m_bounds s1b axis index;
              Some (set_bound s1b axis index
                      (bound1\<lparr>stabbingCount := stabbingCount bound1 + 1\<rparr>))
            });
       proxy \<leftarrow> proxyPool s2 pid;
       let s3 = set_proxy s2 pid
                  (proxy\<lparr>lowerBounds := (lowerBounds proxy)(axis := lowerBounds proxy axis + 1)\<rparr>);
       Swap s3 axis index (index + 1)
     }"

function lower_up ::
  "BroadPhase \<Rightarrow> int \<Rightarrow> BoundValues \<Rightarrow> int \<Rightarrow> int \<Rightarrow> int \<Rightarrow> int \<Rightarrow> BroadPhase option" where
  "lower_up s pid oldValues axis boundCount lowerValue index =
     (if index < boundCount - 1 then
        (case m_bounds s axis (index + 1) of
           None \<Rightarrow> None
         | Some nextBound \<Rightarrow>
             if b_value nextBound \<le> lowerValue then
               (case lower_up_step s pid oldValues axis index of
                  None \<Rightarrow> None
                | Some s' \<Rightarrow> lower_up s' pid oldValues axis boundCount lowerValue (index + 1))
             else Some s)
      else Some s)"
  by pat_completeness auto
termination
  by (relation "measure (\<lambda>(s, pid, oldValues, axis, boundCount, lowerValue, index). nat (boundCount - index))") auto

declare lower_up.simps [simp del]

text \<open>Shrinking, the upper bound moves down past the previous bound.\<close>

definition upper_down_step :: "BroadPhase \<Rightarrow> int \<Rightarrow> BoundValues \<Rightarrow> int \<Rightarrow> int \<Rightarrow> BroadPhase option" where
  "upper_down_step s pid oldValues axis index =
     do {
       bound \<leftarrow> m_bounds s axis index;
       prevBound \<leftarrow> m_bounds s axis (index - 1);
       let prevProxyId = proxyId prevBound;
       prevProxy \<leftarrow> proxyPool s prevProxyId;
       let s1 = set_bound s axis (index - 1)
                  (prevBound\<lparr>stabbingCount := stabbingCount prevBound - 1\<rparr>);
       s2 \<leftarrow>
         (if IsLower prevBound then
            do {
              ov \<leftarrow> TestOverlap s1 oldValues prevProxy;
              let s1a = (if ov then
                           s1\<lparr>m_pairManager :=
                                RemoveBufferedPair pid (Some prevProxyId) (m_pairManager s1)\<rparr>
                         else s1);
              let s1b = set_proxy s1a prevProxyId
                          (prevProxy\<lparr>lowerBounds :=
                             (lowerBounds prevProxy)(axis := lowerBounds prevProxy axis + 1)\<rparr>);
              bound1 \<leftarrow> m_bounds s1b axis index;
              Some (set_bound s1b axis index
                      (bound1\<lparr>stabbingCount := stabbingCount bound1 - 1\<rparr>))
            }
          else
            do {
              let s1b = set_proxy s1 prevProxyId
                          (prevProxy\<lparr>upperBounds :=
                             (upperBounds prevProxy)(axis := upperBounds prevProxy axis + 1)\<rparr>);
              bound1 \<leftarrow> m_bounds s1b axis index;
              Some (set_bound s1b axis index
                      (bound1\<lparr>stabbingCount := stabbingCount bound1 + 1\<rparr>))
            });
       proxy \<leftarrow> proxyPool s2 pid;
       let s3 = set_proxy s2 pid
                  (proxy\<lparr>upperBounds := (upperBounds proxy)(axis := upperBounds proxy axis - 1)\<rparr>);
       Swap s3 axis index (index - 1)
     }"

function upper_down ::
  "BroadPhase \<Rightarrow> int \<Rightarrow> BoundValues \<Rightarrow> int \<Rightarrow> int \<Rightarrow> int \<Rightarrow> BroadPhase option" where
  "upper_down s pid oldValues axis upperValue index =
     (if index > 0 then
        (case m_bounds s axis (index - 1) of
           None \<Rightarrow> None
         | Some prevBound \<Rightarrow>
             if upperValue < b_value prevBound then
               (case upper_down_step s pid oldValues axis index of
                  None \<Rightarrow> None
                | Some s' \<Rightarrow> upper_down s' pid oldValues axis upperValue (index - 1))
             else Some s)
      else Some s)"
  by pat_completeness auto
termination
  by (relation "measure (\<lambda>(s, pid, oldValues, axis, upperValue, index). nat index)") auto

declare upper_down.simps [simp del]

text \<open>The body of the loop over the axes.\<close>

definition MoveProxy_axis ::
  "BroadPhase \<Rightarrow> int \<Rightarrow> int \<Rightarrow> BoundValues \<Rightarrow> BoundValues \<Rightarrow> int \<Rightarrow> BroadPhase option" where
  "MoveProxy_axis s pid boundCount newValues oldValues axis =
     do {
       proxy \<leftarrow> proxyPool s pid;
       let lowerIndex = lowerBounds proxy axis;
       let upperIndex = upperBounds proxy axis;
       let lowerValue = lowerValues newValues axis;
       let upperValue = upperValues newValues axis;
       bl \<leftarrow> m_bounds s axis lowerIndex;
       bu \<leftarrow> m_bounds s axis upperIndex;
       let deltaLower = lowerValue - b_value bl;
       let deltaUpper = upperValue - b_value bu;
       let s1 = set_bound s axis lowerIndex (bl\<lparr>b_value := lowerValue\<rparr>);
       bu1 \<leftarrow> m_bounds s1 axis upperIndex;
       let s2 = set_bound s1 axis upperIndex (bu1\<lparr>b_value := upperValue\<rparr>);
       s3 \<leftarrow> (if deltaLower < 0 then lower_down s2 pid newValues axis lowerValue lowerIndex
              else Some s2);
       s4 \<leftarrow> (if deltaUpper > 0 then upper_up s3 pid newValues axis boundCount upperValue upperIndex
              else Some s3);
       s5 \<leftarrow> (if deltaLower > 0 then lower_up s4 pid oldValues axis boundCount lowerValue lowerIndex
              else Some s4);
       (if deltaUpper < 0 then upper_down s5 pid oldValues axis upperValue upperIndex
        else Some s5)
     }"

definition MoveProxy :: "Settings \<Rightarrow> BroadPhase \<Rightarrow> int \<Rightarrow> AABB \<Rightarrow> BroadPhase option" where
  "MoveProxy cfg s pid aabb =
     (if pid = b2_nullProxy cfg \<or> b2_maxProxies cfg \<le> pid then Some s
      else if AABB_IsValid aabb = False then Some s
      else
        do {
          let boundCount = 2 * m_proxyCount s;
          proxy \<leftarrow> proxyPool s pid;
          let newValues = ComputeBounds s aabb;
          l0 \<leftarrow> m_bounds s 0 (lowerBounds proxy 0);
          u0 \<leftarrow> m_bounds s 0 (upperBounds proxy 0);
          l1 \<leftarrow> m_bounds s 1 (lowerBounds proxy 1);
          u1 \<leftarrow> m_bounds s 1 (upperBounds proxy 1);
          let oldValues =
            \<lparr>lowerValues = (\<lambda>axis. if axis = 0 then b_value l0 else b_value l1),
             upperValues = (\<lambda>axis. if axis = 0 then b_value u0 else b_value u1)\<rparr>;
          s1 \<leftarrow> MoveProxy_axis s pid boundCount newValues oldValues 0;
          MoveProxy_axis s1 pid boundCount newValues oldValues 1
        })"

subsection \<open>Commit\<close>

definition Commit :: "BroadPhase \<Rightarrow> BroadPhase" where
  "Commit s = s\<lparr>m_pairManager := pm_Commit (m_pairManager s)\<rparr>"

section \<open>Notions used by the statements\<close>

text \<open>The value of the bound at an index, and what it means that an array holds its
  first \<open>n\<close> elements and that their values are sorted.\<close>

definition b_val :: "(int \<rightharpoonup> Bound) \<Rightarrow> int \<Rightarrow> int" where
  "b_val bounds i = b_value (the (bounds i))"

definition holds_upto :: "(int \<rightharpoonup> 'a) \<Rightarrow> int \<Rightarrow> bool" where
  "holds_upto a n \<longleftrightarrow> (\<forall>i. 0 \<le> i \<and> i < n \<longrightarrow> a i \<noteq> None)"

definition sorted_upto :: "(int \<rightharpoonup> Bound) \<Rightarrow> int \<Rightarrow> bool" where
  "sorted_upto bounds n \<longleftrightarrow>
     (\<forall>i j. 0 \<le> i \<and> i \<le> j \<and> j < n \<longrightarrow> b_val bounds i \<le> b_val bounds j)"

text \<open>
  The quantization as the spec words it: the coordinate is clamped into the world
  extent \<open>[lo, hi]\<close> of its axis and mapped linearly with the factor
  \<open>65535 / (hi - lo)\<close>, in exact arithmetic.
\<close>

definition spec_quantize :: "real \<Rightarrow> real \<Rightarrow> real \<Rightarrow> real" where
  "spec_quantize lo hi c = 65535 / (hi - lo) * (max lo (min hi c) - lo)"

text \<open>
  The number that ComputeBounds converts to an integer: the clamped coordinate, the
  double subtraction of the world minimum and the double multiplication by the factor.
\<close>

definition code_quantize :: "real \<Rightarrow> real \<Rightarrow> real \<Rightarrow> real \<Rightarrow> real" where
  "code_quantize f lo hi c = d_mul f (d_sub (max (min c hi) lo) lo)"

text \<open>
  The quantization frame of a state is the one the constructor computes from a world box
  that has a positive extent on each axis.
\<close>

definition frame_ok :: "BroadPhase \<Rightarrow> bool" where
  "frame_ok s \<longleftrightarrow>
     vx (minVertex (m_worldAABB s)) < vx (maxVertex (m_worldAABB s)) \<and>
     vy (minVertex (m_worldAABB s)) < vy (maxVertex (m_worldAABB s)) \<and>
     vx (m_quantizationFactor s) =
       d_div 65535 (d_sub (vx (maxVertex (m_worldAABB s))) (vx (minVertex (m_worldAABB s)))) \<and>
     vy (m_quantizationFactor s) =
       d_div 65535 (d_sub (vy (maxVertex (m_worldAABB s))) (vy (minVertex (m_worldAABB s))))"

text \<open>A small configuration and a world box for the concrete instances.\<close>

definition example_cfg :: Settings where
  "example_cfg = \<lparr>b2_maxProxies = 2, invalid = 65535, b2_nullProxy = 65535\<rparr>"

definition box :: "real \<Rightarrow> real \<Rightarrow> real \<Rightarrow> real \<Rightarrow> AABB" where
  "box x0 y0 x1 y1 = \<lparr>minVertex = \<lparr>vx = x0, vy = y0\<rparr>, maxVertex = \<lparr>vx = x1, vy = y1\<rparr>\<rparr>"

definition example_world :: AABB where
  "example_world = box 0 0 100 100"


definition example_bounds :: "int \<rightharpoonup> Bound" where
  "example_bounds =
     (\<lambda>i. if i = 0 then Some \<lparr>b_value = 10, proxyId = 0, stabbingCount = 1\<rparr>
          else if i = 1 then Some \<lparr>b_value = 21, proxyId = 0, stabbingCount = 0\<rparr>
          else None)"

text \<open>The fields of the bound at an index.\<close>

definition b_pid :: "(int \<rightharpoonup> Bound) \<Rightarrow> int \<Rightarrow> int" where
  "b_pid bounds i = proxyId (the (bounds i))"

definition b_low :: "(int \<rightharpoonup> Bound) \<Rightarrow> int \<Rightarrow> bool" where
  "b_low bounds i = IsLower (the (bounds i))"

definition b_sc :: "(int \<rightharpoonup> Bound) \<Rightarrow> int \<Rightarrow> int" where
  "b_sc bounds i = stabbingCount (the (bounds i))"

definition holds_between :: "(int \<rightharpoonup> 'a) \<Rightarrow> int \<Rightarrow> int \<Rightarrow> bool" where
  "holds_between a lo hi \<longleftrightarrow> (\<forall>i. lo \<le> i \<and> i < hi \<longrightarrow> a i \<noteq> None)"

text \<open>The proxy with its two bound indices of one axis replaced.\<close>

definition set_axis :: "int \<Rightarrow> int \<Rightarrow> int \<Rightarrow> Proxy \<Rightarrow> Proxy" where
  "set_axis axis l u x =
     x\<lparr>lowerBounds := (lowerBounds x)(axis := l), upperBounds := (upperBounds x)(axis := u)\<rparr>"

fun mark_all :: "BroadPhase \<Rightarrow> int list \<Rightarrow> BroadPhase option" where
  "mark_all s [] = Some s"
| "mark_all s (p # ps) =
     (case IncrementOverlapCount s p of None \<Rightarrow> None | Some s' \<Rightarrow> mark_all s' ps)"

definition lb_of :: "BroadPhase \<Rightarrow> int \<Rightarrow> int \<Rightarrow> int" where
  "lb_of s axis p = lowerBounds (the (proxyPool s p)) axis"

definition ub_of :: "BroadPhase \<Rightarrow> int \<Rightarrow> int \<Rightarrow> int" where
  "ub_of s axis p = upperBounds (the (proxyPool s p)) axis"

definition easy_marks :: "(int \<rightharpoonup> Bound) \<Rightarrow> int \<Rightarrow> int \<Rightarrow> int list" where
  "easy_marks bounds j uq = map (b_pid bounds) (filter (b_low bounds) [j..uq - 1])"

definition hard_marks :: "(int \<rightharpoonup> Bound) \<Rightarrow> (int \<Rightarrow> int) \<Rightarrow> int \<Rightarrow> int \<Rightarrow> int list" where
  "hard_marks bounds up lq i =
     map (b_pid bounds) (filter (\<lambda>k. b_low bounds k \<and> lq \<le> up (b_pid bounds k)) (rev [0..i]))"

definition same_links :: "Proxy \<Rightarrow> Proxy \<Rightarrow> bool" where
  "same_links x x' \<longleftrightarrow>
     lowerBounds x' = lowerBounds x \<and> upperBounds x' = upperBounds x \<and>
     next x' = next x \<and> userData x' = userData x"

definition marks_rel :: "BroadPhase \<Rightarrow> BroadPhase \<Rightarrow> bool" where
  "marks_rel s s' \<longleftrightarrow>
     m_bounds s' = m_bounds s \<and> m_pairManager s' = m_pairManager s \<and>
     m_quantizationFactor s' = m_quantizationFactor s \<and> m_worldAABB s' = m_worldAABB s \<and>
     m_proxyCount s' = m_proxyCount s \<and> m_freeProxy s' = m_freeProxy s \<and>
     m_timeStamp s' = m_timeStamp s \<and>
     (\<forall>p. rel_option same_links (proxyPool s p) (proxyPool s' p))"

definition stab_ok :: "(int \<rightharpoonup> Bound) \<Rightarrow> int \<Rightarrow> bool" where
  "stab_ok bounds bc \<longleftrightarrow>
     (\<forall>i. 0 \<le> i \<and> i < bc \<longrightarrow>
        b_sc bounds i = (if i = 0 then 0 else b_sc bounds (i - 1)) + (if b_low bounds i then 1 else - 1))"

definition index_ok :: "(int \<rightharpoonup> Bound) \<Rightarrow> (int \<Rightarrow> int) \<Rightarrow> (int \<Rightarrow> int) \<Rightarrow> int set \<Rightarrow> int \<Rightarrow> bool" where
  "index_ok bounds lo up L bc \<longleftrightarrow>
     holds_upto bounds bc \<and>
     (\<forall>i. 0 \<le> i \<and> i < bc \<longrightarrow>
        b_pid bounds i \<in> L \<and>
        (if b_low bounds i then lo (b_pid bounds i) = i else up (b_pid bounds i) = i)) \<and>
     (\<forall>p\<in>L. 0 \<le> lo p \<and> lo p < up p \<and> up p < bc \<and>
        b_pid bounds (lo p) = p \<and> b_low bounds (lo p) \<and>
        b_pid bounds (up p) = p \<and> \<not> b_low bounds (up p))"

definition spanning :: "(int \<rightharpoonup> Bound) \<Rightarrow> (int \<Rightarrow> int) \<Rightarrow> int \<Rightarrow> int set" where
  "spanning bounds up i = {k. 0 \<le> k \<and> k \<le> i \<and> b_low bounds k \<and> i < up (b_pid bounds k)}"

definition query_marks :: "(int \<rightharpoonup> Bound) \<Rightarrow> (int \<Rightarrow> int) \<Rightarrow> int \<Rightarrow> int \<Rightarrow> int list" where
  "query_marks bounds up lq uq = easy_marks bounds lq uq @ hard_marks bounds up lq (lq - 1)"

definition ins_bounds ::
  "(int \<rightharpoonup> Bound) \<Rightarrow> int \<Rightarrow> int \<Rightarrow> int \<Rightarrow> int \<Rightarrow> int \<Rightarrow> int \<Rightarrow> (int \<rightharpoonup> Bound)" where
  "ins_bounds B bc li ui lv uv pid =
     (\<lambda>i. if i < li then B i
          else if i = li then
            Some \<lparr>b_value = lv, proxyId = pid,
                  stabbingCount = (if li = 0 then 0 else b_sc B (li - 1)) + 1\<rparr>
          else if i \<le> ui then
            map_option (\<lambda>b. b\<lparr>stabbingCount := stabbingCount b + 1\<rparr>) (B (i - 1))
          else if i = ui + 1 then
            Some \<lparr>b_value = uv, proxyId = pid,
                  stabbingCount = (if ui = 0 then 0 else b_sc B (ui - 1))\<rparr>
          else if i < bc + 2 then B (i - 2)
          else B i)"

definition ins_shift :: "int \<Rightarrow> int \<Rightarrow> int \<Rightarrow> int" where
  "ins_shift li ui i = (if i < li then i else if i < ui then i + 1 else i + 2)"

definition ins_lo :: "int set \<Rightarrow> int \<Rightarrow> int \<Rightarrow> int \<Rightarrow> int \<Rightarrow> (int \<Rightarrow> int) \<Rightarrow> int \<Rightarrow> int" where
  "ins_lo L pid k li ui lo p =
     (if p = pid then k else if p \<in> L then ins_shift li ui (lo p) else lo p)"

definition cfg_ok :: "Settings \<Rightarrow> bool" where
  "cfg_ok cfg \<longleftrightarrow>
     0 < b2_maxProxies cfg \<and>
     (b2_nullProxy cfg < 0 \<or> b2_maxProxies cfg \<le> b2_nullProxy cfg) \<and>
     (invalid cfg < 0 \<or> 2 * b2_maxProxies cfg \<le> invalid cfg)"

fun free_chain :: "(int \<rightharpoonup> Proxy) \<Rightarrow> int \<Rightarrow> int list \<Rightarrow> int \<Rightarrow> bool" where
  "free_chain pool h [] e \<longleftrightarrow> h = e"
| "free_chain pool h (p # ps) e \<longleftrightarrow>
     h = p \<and> (case pool p of None \<Rightarrow> False | Some x \<Rightarrow> free_chain pool (next x) ps e)"

definition live_set :: "Settings \<Rightarrow> int list \<Rightarrow> int set" where
  "live_set cfg F = {p. 0 \<le> p \<and> p < b2_maxProxies cfg} - set F"

definition axis_ok :: "BroadPhase \<Rightarrow> int set \<Rightarrow> int \<Rightarrow> int \<Rightarrow> bool" where
  "axis_ok s L bc axis \<longleftrightarrow>
     index_ok (m_bounds s axis) (lb_of s axis) (ub_of s axis) L bc \<and>
     stab_ok (m_bounds s axis) bc \<and> sorted_upto (m_bounds s axis) bc"

definition stamps_le :: "BroadPhase \<Rightarrow> bool" where
  "stamps_le s \<longleftrightarrow> (\<forall>p x. proxyPool s p = Some x \<longrightarrow> timeStamp x \<le> m_timeStamp s)"

definition pool_dom :: "Settings \<Rightarrow> BroadPhase \<Rightarrow> bool" where
  "pool_dom cfg s \<longleftrightarrow>
     (\<forall>p. proxyPool s p \<noteq> None \<longleftrightarrow> 0 \<le> p \<and> p < b2_maxProxies cfg) \<and>
     (\<forall>axis i. axis = 0 \<or> axis = 1 \<longrightarrow>
        (m_bounds s axis i \<noteq> None \<longleftrightarrow> 0 \<le> i \<and> i < 2 * b2_maxProxies cfg))"

definition free_ok :: "Settings \<Rightarrow> BroadPhase \<Rightarrow> int list \<Rightarrow> bool" where
  "free_ok cfg s F \<longleftrightarrow>
     free_chain (proxyPool s) (m_freeProxy s) F (b2_nullProxy cfg) \<and> distinct F \<and>
     (\<forall>p\<in>set F. 0 \<le> p \<and> p < b2_maxProxies cfg) \<and>
     int (length F) = b2_maxProxies cfg - m_proxyCount s \<and>
     (\<forall>p\<in>set F. \<forall>axis. axis = 0 \<or> axis = 1 \<longrightarrow>
        lb_of s axis p = invalid cfg \<and> ub_of s axis p = invalid cfg)"

definition broadphase_inv :: "Settings \<Rightarrow> BroadPhase \<Rightarrow> int list \<Rightarrow> bool" where
  "broadphase_inv cfg s F \<longleftrightarrow>
     pool_dom cfg s \<and> 0 \<le> m_proxyCount s \<and> free_ok cfg s F \<and>
     axis_ok s (live_set cfg F) (2 * m_proxyCount s) 0 \<and>
     axis_ok s (live_set cfg F) (2 * m_proxyCount s) 1 \<and>
     (\<forall>p x. proxyPool s p = Some x \<longrightarrow> timeStamp x < m_timeStamp s) \<and>
     m_queryResultCount s = 0 \<and> frame_ok s"

definition axis_frame :: "int \<Rightarrow> int set \<Rightarrow> BroadPhase \<Rightarrow> BroadPhase \<Rightarrow> bool" where
  "axis_frame axis T s s' \<longleftrightarrow>
     (\<forall>a. a \<noteq> axis \<longrightarrow>
        m_bounds s' a = m_bounds s a \<and> lb_of s' a = lb_of s a \<and> ub_of s' a = ub_of s a) \<and>
     (\<forall>i. (m_bounds s' axis i \<noteq> None) = (m_bounds s axis i \<noteq> None)) \<and>
     (\<forall>p. rel_option (\<lambda>x x'. next x' = next x) (proxyPool s p) (proxyPool s' p)) \<and>
     (\<forall>p. p \<notin> T \<longrightarrow> lb_of s' axis p = lb_of s axis p \<and> ub_of s' axis p = ub_of s axis p) \<and>
     (stamps_le s \<longrightarrow> stamps_le s') \<and>
     m_timeStamp s' = m_timeStamp s \<and> m_freeProxy s' = m_freeProxy s \<and>
     m_proxyCount s' = m_proxyCount s \<and> m_worldAABB s' = m_worldAABB s \<and>
     m_quantizationFactor s' = m_quantizationFactor s"

definition del_bounds :: "(int \<rightharpoonup> Bound) \<Rightarrow> int \<Rightarrow> int \<Rightarrow> int \<Rightarrow> int \<Rightarrow> (int \<rightharpoonup> Bound)" where
  "del_bounds B bc l u d =
     (\<lambda>j. if j < l then B j
          else if j < u - 1 then
            map_option (\<lambda>b. b\<lparr>stabbingCount := stabbingCount b + d\<rparr>) (B (j + 1))
          else if j < bc - 2 then B (j + 2)
          else B j)"

definition del_src :: "int \<Rightarrow> int \<Rightarrow> int \<Rightarrow> int" where
  "del_src l u j = (if j < l then j else if j < u - 1 then j + 1 else j + 2)"

definition del_shift :: "int \<Rightarrow> int \<Rightarrow> int \<Rightarrow> int" where
  "del_shift l u i = (if i < l then i else if i < u then i - 1 else i - 2)"

fun repeats :: "int set \<Rightarrow> int list \<Rightarrow> int list" where
  "repeats S [] = []"
| "repeats S (p # ps) = (if p \<in> S then [p] else []) @ repeats (insert p S) ps"

definition gen_seen :: "BroadPhase \<Rightarrow> int set \<Rightarrow> bool" where
  "gen_seen s S \<longleftrightarrow>
     (\<forall>q x. proxyPool s q = Some x \<longrightarrow>
        (if q \<in> S then timeStamp x = m_timeStamp s else timeStamp x < m_timeStamp s))"

definition res_ok :: "BroadPhase \<Rightarrow> int list \<Rightarrow> bool" where
  "res_ok s rs \<longleftrightarrow>
     m_queryResultCount s = int (length rs) \<and>
     (\<forall>i. i < length rs \<longrightarrow> m_queryResults s (int i) = Some (rs ! i))"

definition pass_marks :: "BroadPhase \<Rightarrow> BoundValues \<Rightarrow> int \<Rightarrow> int list" where
  "pass_marks s vals axis =
     query_marks (m_bounds s axis) (ub_of s axis)
       (the (BinarySearch (m_bounds s axis) (2 * m_proxyCount s) (lowerValues vals axis)))
       (the (BinarySearch (m_bounds s axis) (2 * m_proxyCount s) (upperValues vals axis)))"

definition example_state :: BroadPhase where
  "example_state =
     fst (the (CreateProxy example_cfg (new_BroadPhase example_cfg example_world)
                 (box 10 10 20 20) (Some 7)))"

definition example_query :: AABB where
  "example_query = box 15 15 30 30"

text \<open>
  CreateProxy with the quantized bound values given, and the bound values of a box as a
  record; they serve the evaluation of the concrete instances.
\<close>

definition CreateProxy_vals ::
  "Settings \<Rightarrow> BroadPhase \<Rightarrow> BoundValues \<Rightarrow> nat option \<Rightarrow> (BroadPhase \<times> int) option" where
  "CreateProxy_vals cfg s vals ud =
     do {
       let pid = m_freeProxy s;
       proxy \<leftarrow> proxyPool s pid;
       let s1 = s\<lparr>m_freeProxy := GetNext proxy,
                  proxyPool := (proxyPool s)(pid \<mapsto> proxy\<lparr>overlapCount := 0, userData := ud\<rparr>)\<rparr>;
       let boundCount = 2 * m_proxyCount s1;
       s2 \<leftarrow> CreateProxy_axis s1 pid boundCount vals 0;
       s3 \<leftarrow> CreateProxy_axis s2 pid boundCount vals 1;
       let s4 = s3\<lparr>m_proxyCount := m_proxyCount s3 + 1\<rparr>;
       let s5 = s4\<lparr>m_pairManager :=
                     pm_Commit (add_pairs (m_queryResults s4) (m_queryResultCount s4) pid 0
                                  (m_pairManager s4))\<rparr>;
       s6 \<leftarrow> IncrementTimeStamp cfg (s5\<lparr>m_queryResultCount := 0\<rparr>);
       Some (s6, pid)
     }"

definition bound_values :: "int \<Rightarrow> int \<Rightarrow> int \<Rightarrow> int \<Rightarrow> BoundValues" where
  "bound_values l0 u0 l1 u1 =
     \<lparr>lowerValues = (\<lambda>axis. if axis = 0 then l0 else l1),
      upperValues = (\<lambda>axis. if axis = 0 then u0 else u1)\<rparr>"

section \<open>Properties of the double rounding\<close>

lemma pow2_pos [simp]: "0 < pow2 e"
  by (simp add: pow2_def)

lemma pow2_Suc: "pow2 (e + 1) = 2 * pow2 e"
proof (cases "0 \<le> e")
  case True
  then show ?thesis by (simp add: pow2_def nat_add_distrib)
next
  case False
  then have "nat (- e) = Suc (nat (- (e + 1)))" by simp
  then show ?thesis using False by (simp add: pow2_def)
qed

lemma pow2_pred: "pow2 (e - 1) = pow2 e / 2"
  using pow2_Suc [of "e - 1"] by simp

lemma pow2_mono: "a \<le> b \<Longrightarrow> pow2 a \<le> pow2 b"
proof -
  assume "a \<le> b"
  then obtain n where b: "b = a + int n" by (metis nat_le_iff_add zle_iff_zadd)
  have "pow2 a \<le> pow2 (a + int n)"
  proof (induction n)
    case 0
    show ?case by simp
  next
    case (Suc n)
    have "pow2 (a + int (Suc n)) = 2 * pow2 (a + int n)"
      using pow2_Suc [of "a + int n"] by (simp add: algebra_simps)
    then show ?case using Suc pow2_pos [of "a + int n"] by linarith
  qed
  then show ?thesis by (simp add: b)
qed

lemma exponent_up_bounds: "1 \<le> x \<Longrightarrow> pow2 (exponent_up x) \<le> x \<and> x < 2 * pow2 (exponent_up x)"
proof (induction x rule: exponent_up.induct)
  case (1 x)
  show ?case
  proof (cases "2 \<le> x")
    case True
    have "pow2 (exponent_up (x / 2)) \<le> x / 2 \<and> x / 2 < 2 * pow2 (exponent_up (x / 2))"
      using 1 True by simp
    then show ?thesis using True by (subst (1 2) exponent_up.simps) (simp add: pow2_Suc)
  next
    case False
    then show ?thesis using 1 by (subst (1 2) exponent_up.simps) (simp add: pow2_def)
  qed
qed

lemma exponent_down_bounds:
  "0 < x \<Longrightarrow> x < 1 \<Longrightarrow> pow2 (exponent_down x) \<le> x \<and> x < 2 * pow2 (exponent_down x)"
proof (induction x rule: exponent_down.induct)
  case (1 x)
  show ?case
  proof (cases "x * 2 < 1")
    case True
    have "pow2 (exponent_down (x * 2)) \<le> x * 2 \<and> x * 2 < 2 * pow2 (exponent_down (x * 2))"
      using 1 True by simp
    then show ?thesis using 1(2,3) by (subst (1 2) exponent_down.simps) (simp add: pow2_pred)
  next
    case False
    have "exponent_down (x * 2) = 0" using False by (subst exponent_down.simps) simp
    then have "exponent_down x = - 1" using 1(2,3) by (subst exponent_down.simps) simp
    then show ?thesis using False 1(2,3) by (simp add: pow2_def)
  qed
qed

lemma d_exponent_bounds:
  "0 < x \<Longrightarrow> pow2 (d_exponent x) \<le> x \<and> x < 2 * pow2 (d_exponent x)"
  using exponent_up_bounds [of x] exponent_down_bounds [of x] by (simp add: d_exponent_def)

lemma pow2_powr: "pow2 e = 2 powr (of_int e)"
proof (cases "0 \<le> e")
  case True
  then have "(2::real) powr (of_int e) = 2 powr (real (nat e))" by simp
  also have "\<dots> = 2 ^ nat e" by (rule powr_realpow) simp
  finally show ?thesis using True by (simp add: pow2_def)
next
  case False
  then have "(2::real) powr (of_int e) = 2 powr (- real (nat (- e)))" by simp
  also have "\<dots> = 1 / 2 powr (real (nat (- e)))" by (rule powr_minus_divide)
  also have "2 powr (real (nat (- e))) = (2::real) ^ nat (- e)" by (rule powr_realpow) simp
  finally show ?thesis using False by (simp add: pow2_def)
qed

lemma pow2_52: "pow2 (e - 52) = pow2 e / 2 ^ 52"
proof -
  have "pow2 (e - 52) = 2 powr (of_int e - 52)" by (simp add: pow2_powr)
  also have "\<dots> = 2 powr (of_int e) / 2 powr 52" by (rule powr_diff)
  also have "(2::real) powr 52 = 2 ^ 52" using powr_realpow [of 2 52] by simp
  finally show ?thesis by (simp add: pow2_powr)
qed

lemma round_even_int [simp]: "round_even (of_int n) = n"
  by (simp add: round_even_def)

lemma round_even_bounds: "\<lfloor>y\<rfloor> \<le> round_even y \<and> round_even y \<le> \<lfloor>y\<rfloor> + 1"
  by (simp add: round_even_def)

lemma round_even_mono: "y \<le> z \<Longrightarrow> round_even y \<le> round_even z"
proof -
  assume a: "y \<le> z"
  have f: "\<lfloor>y\<rfloor> \<le> \<lfloor>z\<rfloor>" using a by (rule floor_mono)
  show ?thesis
  proof (cases "\<lfloor>y\<rfloor> = \<lfloor>z\<rfloor>")
    case True
    then show ?thesis using a by (auto simp: round_even_def)
  next
    case False
    then have "\<lfloor>y\<rfloor> + 1 \<le> \<lfloor>z\<rfloor>" using f by simp
    then show ?thesis using round_even_bounds [of y] round_even_bounds [of z] by linarith
  qed
qed

lemma round_even_error: "\<bar>of_int (round_even y) - y\<bar> \<le> 1 / 2"
proof -
  show ?thesis by (auto simp: round_even_def abs_if) linarith+
qed

lemma d_round_0 [simp]: "d_round 0 = 0"
  by (simp add: d_round_def)

lemma d_round_pos_eq:
  "0 < x \<Longrightarrow> d_round x =
     of_int (round_even (x / pow2 (d_exponent x - 52))) * pow2 (d_exponent x - 52)"
  by (simp add: d_round_def)

lemma d_scaled_range:
  assumes "0 < x"
  shows "2 ^ 52 \<le> x / pow2 (d_exponent x - 52)" and "x / pow2 (d_exponent x - 52) < 2 ^ 53"
proof -
  note b = d_exponent_bounds [OF assms]
  define r where "r = x / pow2 (d_exponent x)"
  have p: "0 < pow2 (d_exponent x)" by simp
  have e: "x / pow2 (d_exponent x - 52) = r * 2 ^ 52"
    by (simp add: pow2_52 r_def)
  have "1 \<le> r" unfolding r_def using b p by (simp add: le_divide_eq)
  then show "2 ^ 52 \<le> x / pow2 (d_exponent x - 52)" unfolding e by simp
  have "r < 2" unfolding r_def using b p by (simp add: divide_less_eq)
  then show "x / pow2 (d_exponent x - 52) < 2 ^ 53" unfolding e by simp
qed

lemma d_round_pos_bounds:
  assumes "0 < x"
  shows "pow2 (d_exponent x) \<le> d_round x" and "d_round x \<le> 2 * pow2 (d_exponent x)"
proof -
  define u where "u = pow2 (d_exponent x - 52)"
  define n where "n = round_even (x / u)"
  have u: "0 < u" by (simp add: u_def)
  have u52: "u * 2 ^ 52 = pow2 (d_exponent x)" by (simp add: u_def pow2_52)
  have "round_even (of_int (2 ^ 52)) \<le> n"
    unfolding n_def u_def using d_scaled_range(1) [OF assms] by (intro round_even_mono) simp
  then have lo: "2 ^ 52 \<le> n" by (simp only: round_even_int)
  have "n \<le> round_even (of_int (2 ^ 53))"
    unfolding n_def u_def using d_scaled_range(2) [OF assms] by (intro round_even_mono) simp
  then have hi: "n \<le> 2 ^ 53" by (simp only: round_even_int)
  have d: "d_round x = of_int n * u" using assms by (simp add: d_round_pos_eq n_def u_def)
  have "2 ^ 52 * u \<le> of_int n * u" using lo u by (intro mult_right_mono) (simp_all add: of_int_le_iff [symmetric] del: of_int_le_iff)
  then show "pow2 (d_exponent x) \<le> d_round x" using u52 d by (simp add: mult.commute)
  have "of_int n * u \<le> 2 ^ 53 * u" using hi u by (intro mult_right_mono) (simp_all add: of_int_le_iff [symmetric] del: of_int_le_iff)
  then show "d_round x \<le> 2 * pow2 (d_exponent x)" using u52 [symmetric] d by simp
qed

lemma d_round_pos: "0 < x \<Longrightarrow> 0 < d_round x"
  using d_round_pos_bounds(1) [of x] pow2_pos [of "d_exponent x"] by linarith

lemma d_round_nonneg: "0 \<le> x \<Longrightarrow> 0 \<le> d_round x"
  using d_round_pos [of x] by (cases "x = 0") (simp_all add: less_imp_le)

lemma d_round_error:
  assumes "0 \<le> x"
  shows "\<bar>d_round x - x\<bar> \<le> x / 2 ^ 53"
proof (cases "x = 0")
  case True
  then show ?thesis by simp
next
  case False
  then have x: "0 < x" using assms by simp
  define u where "u = pow2 (d_exponent x - 52)"
  define n where "n = round_even (x / u)"
  have u: "0 < u" by (simp add: u_def)
  have d: "d_round x = of_int n * u" using x by (simp add: d_round_pos_eq n_def u_def)
  have "\<bar>of_int n - x / u\<bar> \<le> 1 / 2" unfolding n_def by (rule round_even_error)
  then have "\<bar>of_int n - x / u\<bar> * u \<le> 1 / 2 * u" using u by (intro mult_right_mono) simp_all
  moreover have "\<bar>of_int n - x / u\<bar> * u = \<bar>of_int n * u - x\<bar>"
  proof -
    have "of_int n * u - x = (of_int n - x / u) * u" using u by (simp add: field_simps)
    then show ?thesis using u by (simp add: abs_mult)
  qed
  ultimately have e: "\<bar>d_round x - x\<bar> \<le> u / 2" by (simp add: d)
  have "u * 2 ^ 52 \<le> x" using d_exponent_bounds [OF x] by (simp add: u_def pow2_52)
  then have "u / 2 \<le> x / 2 ^ 53" by simp
  then show ?thesis using e by linarith
qed

lemma d_exponent_mono:
  assumes "0 < x" "x \<le> y"
  shows "d_exponent x \<le> d_exponent y"
proof (rule ccontr)
  assume "\<not> d_exponent x \<le> d_exponent y"
  then have "d_exponent y + 1 \<le> d_exponent x" by simp
  then have "pow2 (d_exponent y + 1) \<le> pow2 (d_exponent x)" by (rule pow2_mono)
  moreover have "y < pow2 (d_exponent y + 1)"
    using d_exponent_bounds [of y] assms by (simp add: pow2_Suc)
  moreover have "pow2 (d_exponent x) \<le> x" using d_exponent_bounds [OF assms(1)] by simp
  ultimately show False using assms(2) by linarith
qed

lemma d_round_mono:
  assumes "0 \<le> x" "x \<le> y"
  shows "d_round x \<le> d_round y"
proof (cases "x = 0")
  case True
  then show ?thesis using d_round_nonneg [of y] assms by simp
next
  case False
  then have x: "0 < x" and y: "0 < y" using assms by simp_all
  show ?thesis
  proof (cases "d_exponent x = d_exponent y")
    case True
    have "x / pow2 (d_exponent y - 52) \<le> y / pow2 (d_exponent y - 52)"
      by (rule divide_right_mono) (simp_all add: assms less_imp_le [OF pow2_pos])
    then have "round_even (x / pow2 (d_exponent y - 52)) \<le> round_even (y / pow2 (d_exponent y - 52))"
      by (rule round_even_mono)
    then have "of_int (round_even (x / pow2 (d_exponent y - 52))) * pow2 (d_exponent y - 52)
        \<le> of_int (round_even (y / pow2 (d_exponent y - 52))) * pow2 (d_exponent y - 52)"
      by (intro mult_right_mono) (simp_all add: less_imp_le [OF pow2_pos])
    then show ?thesis using x y True by (simp add: d_round_pos_eq)
  next
    case False
    then have "d_exponent x + 1 \<le> d_exponent y" using d_exponent_mono [OF x assms(2)] by simp
    then have "pow2 (d_exponent x + 1) \<le> pow2 (d_exponent y)" by (rule pow2_mono)
    then show ?thesis
      using d_round_pos_bounds(2) [OF x] d_round_pos_bounds(1) [OF y] by (simp add: pow2_Suc)
  qed
qed

section \<open>Quantization\<close>

lemma d_round_minus: "d_round (- x) = - d_round x"
  by (simp add: d_round_def sgn_if)

lemma d_round_neg_iff: "d_round x < 0 \<longleftrightarrow> x < 0"
proof
  assume "d_round x < 0"
  then show "x < 0" using d_round_nonneg [of x] by (cases "0 \<le> x") simp_all
next
  assume "x < 0"
  then have "0 < d_round (- x)" by (intro d_round_pos) simp
  then show "d_round x < 0" by (simp add: d_round_minus)
qed

lemma d_round_upper: "0 \<le> x \<Longrightarrow> d_round x \<le> x * (1 + 1 / 2 ^ 53)"
proof -
  assume "0 \<le> x"
  then have "\<bar>d_round x - x\<bar> \<le> x / 2 ^ 53" by (rule d_round_error)
  then have "d_round x \<le> x + x / 2 ^ 53" by linarith
  also have "\<dots> = x * (1 + 1 / 2 ^ 53)" by (simp only: distrib_left mult_1_right times_divide_eq_right)
  finally show ?thesis .
qed

lemma d_round_lower: "0 \<le> x \<Longrightarrow> x * (1 - 1 / 2 ^ 53) \<le> d_round x"
proof -
  assume "0 \<le> x"
  then have "\<bar>d_round x - x\<bar> \<le> x / 2 ^ 53" by (rule d_round_error)
  then have "x - x / 2 ^ 53 \<le> d_round x" by linarith
  moreover have "x - x / 2 ^ 53 = x * (1 - 1 / 2 ^ 53)"
    by (simp only: right_diff_distrib mult_1_right times_divide_eq_right)
  ultimately show ?thesis by simp
qed

lemma or_1_range:
  "0 \<le> a \<Longrightarrow> a \<le> 65535 \<Longrightarrow> odd ((a::int) OR 1) \<and> 1 \<le> a OR 1 \<and> a OR 1 \<le> 65535"
  unfolding or_one_eq by (cases "even a") (simp_all, presburger+)

lemma ToInt32_small: "0 \<le> r \<Longrightarrow> r < 65536 \<Longrightarrow> ToInt32 r = \<lfloor>r\<rfloor>"
proof -
  assume a: "0 \<le> r" "r < 65536"
  have "0 \<le> \<lfloor>r\<rfloor>" using a by simp
  moreover have "\<lfloor>r\<rfloor> < 65536" using a by (simp add: floor_less_iff)
  ultimately have "signed_take_bit 31 \<lfloor>r\<rfloor> = \<lfloor>r\<rfloor>"
    by (intro signed_take_bit_int_eq_self) simp_all
  then show ?thesis using a by (simp add: ToInt32_def)
qed

lemma code_quantize_bounds:
  fixes lo hi c :: real
  assumes w: "lo < hi" and f: "f = d_div 65535 (d_sub hi lo)"
  shows "spec_quantize lo hi c * (1 - 1 / 2 ^ 50) \<le> code_quantize f lo hi c"
    and "code_quantize f lo hi c \<le> spec_quantize lo hi c * (1 + 1 / 2 ^ 50)"
    and "0 \<le> spec_quantize lo hi c" and "spec_quantize lo hi c \<le> 65535"
proof -
  define eps :: real where "eps = 1 / 2 ^ 53"
  define E where "E = hi - lo"
  define D where "D = d_round E"
  define Q where "Q = 65535 / D"
  define a where "a = max (min c hi) lo - lo"
  define d where "d = d_round a"
  define X where "X = 65535 / E * a"
  have E: "0 < E" using w by (simp add: E_def)
  have a: "0 \<le> a" "a \<le> E" using w by (auto simp: a_def E_def)
  have D: "0 < D" unfolding D_def using E by (rule d_round_pos)
  have Q: "0 < Q" using D by (simp add: Q_def)
  have ff: "f = d_round Q" by (simp add: f d_div_def d_sub_def Q_def D_def E_def)
  have cq: "code_quantize f lo hi c = d_round (f * d)"
    by (simp add: code_quantize_def d_mul_def d_sub_def d_def a_def)
  have sq: "spec_quantize lo hi c = X"
    by (simp add: spec_quantize_def X_def E_def a_def max.commute min.commute)
  have f0: "0 < f" unfolding ff using Q by (rule d_round_pos)
  have d0: "0 \<le> d" unfolding d_def using a(1) by (rule d_round_nonneg)
  have e0: "0 < eps" "eps < 1" by (simp_all add: eps_def)
  have Du: "D \<le> E * (1 + eps)" unfolding D_def eps_def by (rule d_round_upper) (rule less_imp_le [OF E])
  have Dl: "E * (1 - eps) \<le> D" unfolding D_def eps_def by (rule d_round_lower) (rule less_imp_le [OF E])
  have fu: "f \<le> Q * (1 + eps)" unfolding ff eps_def by (rule d_round_upper) (rule less_imp_le [OF Q])
  have fl: "Q * (1 - eps) \<le> f" unfolding ff eps_def by (rule d_round_lower) (rule less_imp_le [OF Q])
  have du: "d \<le> a * (1 + eps)" unfolding d_def eps_def by (rule d_round_upper) (rule a(1))
  have dl: "a * (1 - eps) \<le> d" unfolding d_def eps_def by (rule d_round_lower) (rule a(1))
  have fd0: "0 \<le> f * d" using f0 d0 by simp
  have qu: "d_round (f * d) \<le> f * d * (1 + eps)" unfolding eps_def by (rule d_round_upper) (rule fd0)
  have ql: "f * d * (1 - eps) \<le> d_round (f * d)" unfolding eps_def by (rule d_round_lower) (rule fd0)
  have El: "0 < E * (1 - eps)" using E e0 by simp
  have Qu: "Q \<le> 65535 / (E * (1 - eps))"
    unfolding Q_def using Dl El by (intro divide_left_mono) (simp_all add: D)
  have Ql: "65535 / (E * (1 + eps)) \<le> Q"
    unfolding Q_def using Du D E e0 by (intro divide_left_mono) simp_all
  have X0: "0 \<le> X" using E a by (simp add: X_def)
  have X1: "X \<le> 65535"
  proof -
    have "65535 / E * a \<le> 65535 / E * E" using E a by (intro mult_left_mono) simp_all
    then show ?thesis using E by (simp add: X_def)
  qed
  show "0 \<le> spec_quantize lo hi c" "spec_quantize lo hi c \<le> 65535"
    using X0 X1 by (simp_all add: sq)
  have up1: "f * d \<le> (Q * (1 + eps)) * (a * (1 + eps))"
    using fu du f0 d0 a e0 Q by (intro mult_mono) simp_all
  have up2: "Q * (1 + eps) * (a * (1 + eps)) \<le> 65535 / (E * (1 - eps)) * (1 + eps) * (a * (1 + eps))"
    using Qu a e0 by (intro mult_right_mono) simp_all
  have "d_round (f * d) \<le> 65535 / (E * (1 - eps)) * (1 + eps) * (a * (1 + eps)) * (1 + eps)"
  proof -
    have "f * d * (1 + eps) \<le> 65535 / (E * (1 - eps)) * (1 + eps) * (a * (1 + eps)) * (1 + eps)"
      using up1 up2 e0 by (intro mult_right_mono) simp_all
    then show ?thesis using qu by linarith
  qed
  also have "65535 / (E * (1 - eps)) * (1 + eps) * (a * (1 + eps)) * (1 + eps) =
      X * ((1 + eps) ^ 3 / (1 - eps))"
    using E e0 by (simp add: X_def power3_eq_cube field_simps)
  also have "\<dots> \<le> X * (1 + 1 / 2 ^ 50)"
  proof -
    have "(1 + eps) ^ 3 / (1 - eps) \<le> 1 + 1 / 2 ^ 50"
      by (simp add: eps_def power_divide)
    then show ?thesis using X0 by (rule mult_left_mono)
  qed
  finally show "code_quantize f lo hi c \<le> spec_quantize lo hi c * (1 + 1 / 2 ^ 50)"
    unfolding cq sq .
  have lo1: "(Q * (1 - eps)) * (a * (1 - eps)) \<le> f * d"
    using fl dl a e0 Q f0 by (intro mult_mono) simp_all
  have lo2: "65535 / (E * (1 + eps)) * (1 - eps) * (a * (1 - eps)) \<le> Q * (1 - eps) * (a * (1 - eps))"
    using Ql a e0 by (intro mult_right_mono) simp_all
  have "X * ((1 - eps) ^ 3 / (1 + eps)) =
      65535 / (E * (1 + eps)) * (1 - eps) * (a * (1 - eps)) * (1 - eps)"
    using E e0 by (simp add: X_def power3_eq_cube field_simps)
  also have "\<dots> \<le> f * d * (1 - eps)"
    using lo1 lo2 e0 by (intro mult_right_mono) simp_all
  also have "\<dots> \<le> d_round (f * d)" by (rule ql)
  finally have A: "X * ((1 - eps) ^ 3 / (1 + eps)) \<le> d_round (f * d)" .
  have B: "X * (1 - 1 / 2 ^ 50) \<le> X * ((1 - eps) ^ 3 / (1 + eps))"
  proof -
    have "1 - 1 / 2 ^ 50 \<le> (1 - eps) ^ 3 / (1 + eps)"
      by (simp add: eps_def power_divide)
    then show ?thesis using X0 by (rule mult_left_mono)
  qed
  have "X * (1 - 1 / 2 ^ 50) \<le> d_round (f * d)" using B A by (rule order_trans)
  then show "spec_quantize lo hi c * (1 - 1 / 2 ^ 50) \<le> code_quantize f lo hi c"
    unfolding cq sq .
qed

lemma and_65535_self: "0 \<le> t \<Longrightarrow> t \<le> 65535 \<Longrightarrow> (t::int) AND 65535 = t"
proof -
  assume a: "0 \<le> t" "t \<le> 65535"
  have "take_bit 16 t = t" using a by (simp add: take_bit_int_eq_self)
  then show ?thesis by (simp add: take_bit_eq_mask mask_eq_exp_minus_1)
qed

lemma upper_mask_range:
  "odd (((t::int) AND 65535) OR 1) \<and> 1 \<le> (t AND 65535) OR 1 \<and> (t AND 65535) OR 1 \<le> 65535"
proof -
  have a: "0 \<le> t AND 65535" by simp
  have b: "t AND 65535 \<le> 65535" using AND_upper2' [of 65535 t] by simp
  show ?thesis using a b by (rule or_1_range)
qed

lemma lower_mask_range: "even ((t::int) AND 65534) \<and> 0 \<le> t AND 65534 \<and> t AND 65534 \<le> 65534"
  by (simp add: even_and_iff AND_upper2')

lemma upper_mask_eq:
  assumes "0 \<le> t" "t \<le> 65535"
  shows "((t::int) AND 65535) OR 1 = 2 * (t div 2) + 1"
proof -
  have "t AND 65535 = t" using assms by (rule and_65535_self)
  moreover have "t + of_bool (even t) = 2 * (t div 2) + 1"
    by (cases "even t") (auto elim!: evenE oddE)
  ultimately show ?thesis by (simp add: or_one_eq)
qed

lemma lower_mask_eq:
  assumes "0 \<le> t" "t \<le> 65535"
  shows "(t::int) AND 65534 = 2 * (t div 2)"
proof -
  have "take_bit 15 (t div 2) = t div 2" using assms by (simp add: take_bit_int_eq_self)
  then have b: "(t div 2) AND 32767 = t div 2" by (simp add: take_bit_eq_mask mask_eq_exp_minus_1)
  have "t AND 65534 = of_bool (odd t \<and> odd (65534::int)) + 2 * ((t div 2) AND (65534 div 2))"
    by (rule and_rec)
  then show ?thesis using b by simp
qed

lemma code_quantize_range:
  fixes lo hi c :: real
  assumes w: "lo < hi" and f: "f = d_div 65535 (d_sub hi lo)"
  shows "0 \<le> code_quantize f lo hi c" and "code_quantize f lo hi c < 65536"
    and "\<bar>code_quantize f lo hi c - spec_quantize lo hi c\<bar> \<le> 1 / 2 ^ 34"
proof -
  define X where "X = spec_quantize lo hi c"
  define q where "q = code_quantize f lo hi c"
  note b = code_quantize_bounds [OF w f, of c, folded X_def q_def]
  define dl where "dl = X / 2 ^ 50"
  have l: "X - dl \<le> q" using b(1) by (simp add: right_diff_distrib dl_def)
  have u: "q \<le> X + dl" using b(2) by (simp add: distrib_left dl_def)
  have x: "dl \<le> 65535 / 2 ^ 50" unfolding dl_def using b(4) by (rule divide_right_mono) simp
  have x0: "0 \<le> dl" using b(3) by (simp add: dl_def)
  have x1: "dl \<le> X" using b(3) by (simp add: dl_def field_simps)
  have n1: "(65535 :: real) / 2 ^ 50 \<le> 1 / 2 ^ 34" by simp
  have n2: "(65535 :: real) + 65535 / 2 ^ 50 < 65536" by simp
  show "0 \<le> q" using l x1 by linarith
  show "q < 65536" using u x b(4) n2 by linarith
  have "q - X \<le> 1 / 2 ^ 34" "- (q - X) \<le> 1 / 2 ^ 34" using l u x n1 by linarith+
  then show "\<bar>q - X\<bar> \<le> 1 / 2 ^ 34" by (rule abs_leI)
qed

lemma code_quantize_mono:
  assumes "0 \<le> f" "c \<le> c'"
  shows "code_quantize f lo hi c \<le> code_quantize f lo hi c'"
proof -
  have a: "0 \<le> max (min c hi) lo - lo" "max (min c hi) lo - lo \<le> max (min c' hi) lo - lo"
    using assms(2) by auto
  have d: "d_round (max (min c hi) lo - lo) \<le> d_round (max (min c' hi) lo - lo)"
    using a by (rule d_round_mono)
  have d0: "0 \<le> d_round (max (min c hi) lo - lo)" using a(1) by (rule d_round_nonneg)
  have "f * d_round (max (min c hi) lo - lo) \<le> f * d_round (max (min c' hi) lo - lo)"
    using d assms(1) by (rule mult_left_mono)
  moreover have "0 \<le> f * d_round (max (min c hi) lo - lo)" using assms(1) d0 by simp
  ultimately show ?thesis
    unfolding code_quantize_def d_mul_def d_sub_def by (intro d_round_mono)
qed

lemma quant_lower:
  assumes "0 \<le> q" "q < 65536"
  shows "ToInt32 q AND 65534 = 2 * (\<lfloor>q\<rfloor> div 2)"
proof -
  have "0 \<le> \<lfloor>q\<rfloor>" "\<lfloor>q\<rfloor> \<le> 65535" using assms by (simp_all add: floor_le_iff)
  then show ?thesis unfolding ToInt32_small [OF assms] by (rule lower_mask_eq)
qed

lemma quant_upper:
  assumes "0 \<le> q" "q < 65536"
  shows "(ToInt32 q AND 65535) OR 1 = 2 * (\<lfloor>q\<rfloor> div 2) + 1"
proof -
  have "0 \<le> \<lfloor>q\<rfloor>" "\<lfloor>q\<rfloor> \<le> 65535" using assms by (simp_all add: floor_le_iff)
  then show ?thesis unfolding ToInt32_small [OF assms] by (rule upper_mask_eq)
qed

lemma ComputeBounds_code_quantize:
  "lowerValues (ComputeBounds s aabb) 0 =
     ToInt32 (code_quantize (vx (m_quantizationFactor s)) (vx (minVertex (m_worldAABB s)))
                (vx (maxVertex (m_worldAABB s))) (vx (minVertex aabb))) AND 65534"
  "upperValues (ComputeBounds s aabb) 0 =
     (ToInt32 (code_quantize (vx (m_quantizationFactor s)) (vx (minVertex (m_worldAABB s)))
                (vx (maxVertex (m_worldAABB s))) (vx (maxVertex aabb))) AND 65535) OR 1"
  "lowerValues (ComputeBounds s aabb) 1 =
     ToInt32 (code_quantize (vy (m_quantizationFactor s)) (vy (minVertex (m_worldAABB s)))
                (vy (maxVertex (m_worldAABB s))) (vy (minVertex aabb))) AND 65534"
  "upperValues (ComputeBounds s aabb) 1 =
     (ToInt32 (code_quantize (vy (m_quantizationFactor s)) (vy (minVertex (m_worldAABB s)))
                (vy (maxVertex (m_worldAABB s))) (vy (maxVertex aabb))) AND 65535) OR 1"
  by (simp_all add: ComputeBounds_def Let_def USHRT_MAX_def code_quantize_def)

lemma ComputeBounds_frame:
  assumes "frame_ok s"
  shows "lowerValues (ComputeBounds s aabb) 0 =
           2 * (\<lfloor>code_quantize (vx (m_quantizationFactor s)) (vx (minVertex (m_worldAABB s)))
                   (vx (maxVertex (m_worldAABB s))) (vx (minVertex aabb))\<rfloor> div 2)"
    and "upperValues (ComputeBounds s aabb) 0 =
           2 * (\<lfloor>code_quantize (vx (m_quantizationFactor s)) (vx (minVertex (m_worldAABB s)))
                   (vx (maxVertex (m_worldAABB s))) (vx (maxVertex aabb))\<rfloor> div 2) + 1"
    and "lowerValues (ComputeBounds s aabb) 1 =
           2 * (\<lfloor>code_quantize (vy (m_quantizationFactor s)) (vy (minVertex (m_worldAABB s)))
                   (vy (maxVertex (m_worldAABB s))) (vy (minVertex aabb))\<rfloor> div 2)"
    and "upperValues (ComputeBounds s aabb) 1 =
           2 * (\<lfloor>code_quantize (vy (m_quantizationFactor s)) (vy (minVertex (m_worldAABB s)))
                   (vy (maxVertex (m_worldAABB s))) (vy (maxVertex aabb))\<rfloor> div 2) + 1"
proof -
  have wx: "vx (minVertex (m_worldAABB s)) < vx (maxVertex (m_worldAABB s))"
    and wy: "vy (minVertex (m_worldAABB s)) < vy (maxVertex (m_worldAABB s))"
    and fx: "vx (m_quantizationFactor s) =
       d_div 65535 (d_sub (vx (maxVertex (m_worldAABB s))) (vx (minVertex (m_worldAABB s))))"
    and fy: "vy (m_quantizationFactor s) =
       d_div 65535 (d_sub (vy (maxVertex (m_worldAABB s))) (vy (minVertex (m_worldAABB s))))"
    using assms by (auto simp: frame_ok_def)
  note rx = code_quantize_range(1,2) [OF wx fx] and ry = code_quantize_range(1,2) [OF wy fy]
  show "lowerValues (ComputeBounds s aabb) 0 =
           2 * (\<lfloor>code_quantize (vx (m_quantizationFactor s)) (vx (minVertex (m_worldAABB s)))
                   (vx (maxVertex (m_worldAABB s))) (vx (minVertex aabb))\<rfloor> div 2)"
    unfolding ComputeBounds_code_quantize by (rule quant_lower [OF rx])
  show "upperValues (ComputeBounds s aabb) 0 =
           2 * (\<lfloor>code_quantize (vx (m_quantizationFactor s)) (vx (minVertex (m_worldAABB s)))
                   (vx (maxVertex (m_worldAABB s))) (vx (maxVertex aabb))\<rfloor> div 2) + 1"
    unfolding ComputeBounds_code_quantize by (rule quant_upper [OF rx])
  show "lowerValues (ComputeBounds s aabb) 1 =
           2 * (\<lfloor>code_quantize (vy (m_quantizationFactor s)) (vy (minVertex (m_worldAABB s)))
                   (vy (maxVertex (m_worldAABB s))) (vy (minVertex aabb))\<rfloor> div 2)"
    unfolding ComputeBounds_code_quantize by (rule quant_lower [OF ry])
  show "upperValues (ComputeBounds s aabb) 1 =
           2 * (\<lfloor>code_quantize (vy (m_quantizationFactor s)) (vy (minVertex (m_worldAABB s)))
                   (vy (maxVertex (m_worldAABB s))) (vy (maxVertex aabb))\<rfloor> div 2) + 1"
    unfolding ComputeBounds_code_quantize by (rule quant_upper [OF ry])
qed

lemma ComputeBounds_parity:
  "even (lowerValues (ComputeBounds s aabb) axis) \<and> 0 \<le> lowerValues (ComputeBounds s aabb) axis \<and>
   lowerValues (ComputeBounds s aabb) axis \<le> 65534 \<and>
   odd (upperValues (ComputeBounds s aabb) axis) \<and> 1 \<le> upperValues (ComputeBounds s aabb) axis \<and>
   upperValues (ComputeBounds s aabb) axis \<le> 65535"
  using lower_mask_range upper_mask_range
  by (simp add: ComputeBounds_def Let_def USHRT_MAX_def)

lemma frame_ok_factor_pos:
  assumes "frame_ok s"
  shows "0 \<le> vx (m_quantizationFactor s)" "0 \<le> vy (m_quantizationFactor s)"
proof -
  have wx: "0 < vx (maxVertex (m_worldAABB s)) - vx (minVertex (m_worldAABB s))"
    and wy: "0 < vy (maxVertex (m_worldAABB s)) - vy (minVertex (m_worldAABB s))"
    and fx: "vx (m_quantizationFactor s) =
       d_div 65535 (d_sub (vx (maxVertex (m_worldAABB s))) (vx (minVertex (m_worldAABB s))))"
    and fy: "vy (m_quantizationFactor s) =
       d_div 65535 (d_sub (vy (maxVertex (m_worldAABB s))) (vy (minVertex (m_worldAABB s))))"
    using assms by (auto simp: frame_ok_def)
  have "0 \<le> d_round (65535 / d_round (vx (maxVertex (m_worldAABB s)) - vx (minVertex (m_worldAABB s))))"
    using d_round_pos [OF wx] by (intro d_round_nonneg) simp
  then show "0 \<le> vx (m_quantizationFactor s)" by (simp add: fx d_div_def d_sub_def)
  have "0 \<le> d_round (65535 / d_round (vy (maxVertex (m_worldAABB s)) - vy (minVertex (m_worldAABB s))))"
    using d_round_pos [OF wy] by (intro d_round_nonneg) simp
  then show "0 \<le> vy (m_quantizationFactor s)" by (simp add: fy d_div_def d_sub_def)
qed

lemma ComputeBounds_less:
  assumes "frame_ok s"
    and "vx (minVertex aabb) \<le> vx (maxVertex aabb)" "vy (minVertex aabb) \<le> vy (maxVertex aabb)"
    and "axis = 0 \<or> axis = 1"
  shows "lowerValues (ComputeBounds s aabb) axis < upperValues (ComputeBounds s aabb) axis"
proof -
  note p = frame_ok_factor_pos [OF assms(1)]
  have "\<lfloor>code_quantize (vx (m_quantizationFactor s)) (vx (minVertex (m_worldAABB s)))
                   (vx (maxVertex (m_worldAABB s))) (vx (minVertex aabb))\<rfloor>
      \<le> \<lfloor>code_quantize (vx (m_quantizationFactor s)) (vx (minVertex (m_worldAABB s)))
                   (vx (maxVertex (m_worldAABB s))) (vx (maxVertex aabb))\<rfloor>"
    by (intro floor_mono code_quantize_mono p assms(2))
  moreover have "\<lfloor>code_quantize (vy (m_quantizationFactor s)) (vy (minVertex (m_worldAABB s)))
                   (vy (maxVertex (m_worldAABB s))) (vy (minVertex aabb))\<rfloor>
      \<le> \<lfloor>code_quantize (vy (m_quantizationFactor s)) (vy (minVertex (m_worldAABB s)))
                   (vy (maxVertex (m_worldAABB s))) (vy (maxVertex aabb))\<rfloor>"
    by (intro floor_mono code_quantize_mono p assms(3))
  ultimately show ?thesis
    using assms(4) ComputeBounds_frame [OF assms(1), of aabb] by auto
qed

lemma frame_ok_new:
  assumes "vx (minVertex w) < vx (maxVertex w)" "vy (minVertex w) < vy (maxVertex w)"
  shows "frame_ok (new_BroadPhase cfg w)"
  using assms by (simp add: frame_ok_def new_BroadPhase_def Let_def USHRT_MAX_def)


lemmas d_eval = d_round_def d_exponent_def exponent_up.simps exponent_down.simps pow2_def
  round_even_def d_div_def d_sub_def d_mul_def

lemma new_BroadPhase_frame:
  "m_worldAABB (new_BroadPhase cfg w) = w"
  "vx (m_quantizationFactor (new_BroadPhase cfg w)) =
     d_div 65535 (d_sub (vx (maxVertex w)) (vx (minVertex w)))"
  "vy (m_quantizationFactor (new_BroadPhase cfg w)) =
     d_div 65535 (d_sub (vy (maxVertex w)) (vy (minVertex w)))"
  by (simp_all add: new_BroadPhase_def Let_def USHRT_MAX_def)

lemma double_factors:
  "d_div 65535 (d_sub 115 0) = 2506312853088701 / 4398046511104"
  "d_div 65535 (d_sub 100 0) = 5764519562104013 / 8796093022208"
  by (simp_all add: d_eval)







text \<open>
  Claim C10.  InRange is true exactly when the AABB strictly overlaps the world box on
  both axes.  It is a function of the state and the box alone and changes nothing.
\<close>

theorem InRange_iff:
  "InRange s aabb \<longleftrightarrow>
     (vx (minVertex aabb) < vx (maxVertex (m_worldAABB s)) \<and>
      vx (minVertex (m_worldAABB s)) < vx (maxVertex aabb) \<and>
      vy (minVertex aabb) < vy (maxVertex (m_worldAABB s)) \<and>
      vy (minVertex (m_worldAABB s)) < vy (maxVertex aabb))"
  by (auto simp add: InRange_def Let_def d_sub_def d_round_neg_iff)

text \<open>
  Claim C7.  MoveProxy with the null proxy id, with an id at or beyond the capacity, or
  with an AABB that is not valid returns without raising and leaves the whole state as
  it was.
\<close>

theorem MoveProxy_rejects:
  assumes "pid = b2_nullProxy cfg \<or> b2_maxProxies cfg \<le> pid \<or> \<not> AABB_IsValid aabb"
  shows "MoveProxy cfg s pid aabb = Some s"
  using assms by (auto simp: MoveProxy_def)

theorem MoveProxy_rejects_witness:
  "MoveProxy example_cfg (new_BroadPhase example_cfg example_world) 65535 (box 1 1 2 2) =
     Some (new_BroadPhase example_cfg example_world) \<and>
   MoveProxy example_cfg (new_BroadPhase example_cfg example_world) 2 (box 1 1 2 2) =
     Some (new_BroadPhase example_cfg example_world) \<and>
   MoveProxy example_cfg (new_BroadPhase example_cfg example_world) 0 (box 5 5 5 5) =
     Some (new_BroadPhase example_cfg example_world)"
proof -
  have a: "(65535::int) = b2_nullProxy example_cfg \<or> b2_maxProxies example_cfg \<le> 65535 \<or>
      \<not> AABB_IsValid (box 1 1 2 2)" by (simp add: example_cfg_def)
  have b: "(2::int) = b2_nullProxy example_cfg \<or> b2_maxProxies example_cfg \<le> 2 \<or>
      \<not> AABB_IsValid (box 1 1 2 2)" by (simp add: example_cfg_def)
  have c: "(0::int) = b2_nullProxy example_cfg \<or> b2_maxProxies example_cfg \<le> 0 \<or>
      \<not> AABB_IsValid (box 5 5 5 5)" by (simp add: AABB_IsValid_def box_def)
  show ?thesis
    using MoveProxy_rejects [OF a] MoveProxy_rejects [OF b] MoveProxy_rejects [OF c] by simp
qed

section \<open>Binary search and the generation counter\<close>

lemma BinarySearch_loop_correct:
  assumes "holds_upto bounds count" "sorted_upto bounds count"
    and "0 \<le> low" "high < count" "low \<le> high + 1"
    and "\<forall>i. 0 \<le> i \<and> i < low \<longrightarrow> b_val bounds i < v"
    and "\<forall>i. high < i \<and> i < count \<longrightarrow> v < b_val bounds i"
  shows "\<exists>r. BinarySearch_loop bounds v low high = Some r \<and> low \<le> r \<and> r \<le> high + 1 \<and>
           ((r \<le> high \<and> b_val bounds r = v) \<or>
            ((\<forall>i. 0 \<le> i \<and> i < r \<longrightarrow> b_val bounds i < v) \<and>
             (\<forall>i. r \<le> i \<and> i < count \<longrightarrow> v < b_val bounds i)))"
  using assms
proof (induction bounds v low high rule: BinarySearch_loop.induct)
  case (1 bounds v low high)
  show ?case
  proof (cases "low \<le> high")
    case False
    then have "high + 1 = low" using "1.prems" by simp
    then show ?thesis using False "1.prems"
      by (subst BinarySearch_loop.simps) auto
  next
    case True
    define mid where "mid = (low + high) div 2"
    have mid: "low \<le> mid" "mid \<le> high" using True by (auto simp: mid_def)
    then have midr: "0 \<le> mid" "mid < count" using "1.prems" by auto
    then obtain b where b: "bounds mid = Some b"
      using "1.prems"(1) by (auto simp: holds_upto_def)
    have bv: "b_val bounds mid = b_value b" using b by (simp add: b_val_def)
    consider (gt) "v < b_value b" | (lt) "b_value b < v" | (eq) "b_value b = v" by linarith
    then show ?thesis
    proof cases
      case gt
      have above: "\<forall>i. mid - 1 < i \<and> i < count \<longrightarrow> v < b_val bounds i"
      proof (intro allI impI)
        fix i assume "mid - 1 < i \<and> i < count"
        then have "b_val bounds mid \<le> b_val bounds i"
          using "1.prems"(2) midr by (auto simp: sorted_upto_def)
        then show "v < b_val bounds i" using gt bv by simp
      qed
      have "\<exists>r. BinarySearch_loop bounds v low (mid - 1) = Some r \<and> low \<le> r \<and> r \<le> mid - 1 + 1 \<and>
           ((r \<le> mid - 1 \<and> b_val bounds r = v) \<or>
            ((\<forall>i. 0 \<le> i \<and> i < r \<longrightarrow> b_val bounds i < v) \<and>
             (\<forall>i. r \<le> i \<and> i < count \<longrightarrow> v < b_val bounds i)))"
        using "1.IH"(1) [OF True b [unfolded mid_def] gt [unfolded mid_def]] "1.prems" mid midr above
        unfolding mid_def [symmetric] by simp
      then obtain r where r: "BinarySearch_loop bounds v low (mid - 1) = Some r" "low \<le> r" "r \<le> mid"
        "(r \<le> mid - 1 \<and> b_val bounds r = v) \<or>
            ((\<forall>i. 0 \<le> i \<and> i < r \<longrightarrow> b_val bounds i < v) \<and>
             (\<forall>i. r \<le> i \<and> i < count \<longrightarrow> v < b_val bounds i))" by auto
      have "BinarySearch_loop bounds v low high = Some r"
        using True b gt r(1) by (subst BinarySearch_loop.simps) (simp add: mid_def)
      then show ?thesis using r mid by auto
    next
      case lt
      have below: "\<forall>i. 0 \<le> i \<and> i < mid + 1 \<longrightarrow> b_val bounds i < v"
      proof (intro allI impI)
        fix i assume "0 \<le> i \<and> i < mid + 1"
        then have "b_val bounds i \<le> b_val bounds mid"
          using "1.prems"(2) midr by (auto simp: sorted_upto_def)
        then show "b_val bounds i < v" using lt bv by simp
      qed
      have ngt: "\<not> v < b_value b" using lt by simp
      have "\<exists>r. BinarySearch_loop bounds v (mid + 1) high = Some r \<and> mid + 1 \<le> r \<and> r \<le> high + 1 \<and>
           ((r \<le> high \<and> b_val bounds r = v) \<or>
            ((\<forall>i. 0 \<le> i \<and> i < r \<longrightarrow> b_val bounds i < v) \<and>
             (\<forall>i. r \<le> i \<and> i < count \<longrightarrow> v < b_val bounds i)))"
        using "1.IH"(2) [OF True b [unfolded mid_def] ngt [unfolded mid_def] lt [unfolded mid_def]]
          "1.prems" mid midr below
        unfolding mid_def [symmetric] by simp
      then obtain r where r: "BinarySearch_loop bounds v (mid + 1) high = Some r" "mid + 1 \<le> r" "r \<le> high + 1"
        "(r \<le> high \<and> b_val bounds r = v) \<or>
            ((\<forall>i. 0 \<le> i \<and> i < r \<longrightarrow> b_val bounds i < v) \<and>
             (\<forall>i. r \<le> i \<and> i < count \<longrightarrow> v < b_val bounds i))" by auto
      have "BinarySearch_loop bounds v low high = Some r"
        using True b lt r(1) by (subst BinarySearch_loop.simps) (simp add: mid_def)
      then show ?thesis using r mid by auto
    next
      case eq
      have "BinarySearch_loop bounds v low high = Some mid"
        using True b eq by (subst BinarySearch_loop.simps) (simp add: mid_def)
      then show ?thesis using mid bv eq by auto
    qed
  qed
qed


text \<open>
  Claim C6.  On an array whose first \<open>count\<close> bounds are sorted by value, BinarySearch
  returns the index of some bound with the searched value when there is one, and
  otherwise the insertion point: every bound below it is smaller than the searched value,
  and it is \<open>count\<close> or the index of a bound that is not smaller.
\<close>

theorem BinarySearch_insertion_point:
  assumes "0 \<le> count" "holds_upto bounds count" "sorted_upto bounds count"
  shows "\<exists>r. BinarySearch bounds count v = Some r \<and> 0 \<le> r \<and> r \<le> count \<and>
           (if \<exists>i. 0 \<le> i \<and> i < count \<and> b_val bounds i = v
            then r < count \<and> b_val bounds r = v
            else (\<forall>i. 0 \<le> i \<and> i < r \<longrightarrow> b_val bounds i < v) \<and>
                 (r < count \<longrightarrow> v \<le> b_val bounds r))"
proof -
  obtain r where r: "BinarySearch_loop bounds v 0 (count - 1) = Some r" "0 \<le> r" "r \<le> count - 1 + 1"
    "(r \<le> count - 1 \<and> b_val bounds r = v) \<or>
       ((\<forall>i. 0 \<le> i \<and> i < r \<longrightarrow> b_val bounds i < v) \<and>
        (\<forall>i. r \<le> i \<and> i < count \<longrightarrow> v < b_val bounds i))"
    using BinarySearch_loop_correct [OF assms(2,3), of 0 "count - 1" v] assms(1) by auto
  show ?thesis
  proof (cases "\<exists>i. 0 \<le> i \<and> i < count \<and> b_val bounds i = v")
    case True
    then obtain i where i: "0 \<le> i" "i < count" "b_val bounds i = v" by auto
    have "\<not> ((\<forall>i. 0 \<le> i \<and> i < r \<longrightarrow> b_val bounds i < v) \<and>
        (\<forall>i. r \<le> i \<and> i < count \<longrightarrow> v < b_val bounds i))"
    proof
      assume h: "(\<forall>i. 0 \<le> i \<and> i < r \<longrightarrow> b_val bounds i < v) \<and>
        (\<forall>i. r \<le> i \<and> i < count \<longrightarrow> v < b_val bounds i)"
      show False
      proof (cases "i < r")
        case True
        then have "b_val bounds i < v" using h i by blast
        then show False using i by simp
      next
        case False
        then have "r \<le> i" by simp
        with h i have "v < b_val bounds i" by blast
        then show False using i by simp
      qed
    qed
    then have "r \<le> count - 1 \<and> b_val bounds r = v" using r(4) by blast
    then show ?thesis using True r by (auto simp: BinarySearch_def)
  next
    case False
    then have "\<not> (r \<le> count - 1 \<and> b_val bounds r = v)" using r(2) by auto
    then have h: "(\<forall>i. 0 \<le> i \<and> i < r \<longrightarrow> b_val bounds i < v) \<and>
        (\<forall>i. r \<le> i \<and> i < count \<longrightarrow> v < b_val bounds i)" using r(4) by blast
    then have "r < count \<longrightarrow> v \<le> b_val bounds r" by auto
    then show ?thesis using False r h by (auto simp: BinarySearch_def)
  qed
qed

lemma example_bounds_ok: "holds_upto example_bounds 2" "sorted_upto example_bounds 2"
proof -
  show "holds_upto example_bounds 2"
    by (auto simp: holds_upto_def example_bounds_def)
  have "\<And>i j::int. 0 \<le> i \<Longrightarrow> i \<le> j \<Longrightarrow> j < 2 \<Longrightarrow> (i = 0 \<or> i = 1) \<and> (j = 0 \<or> j = 1)" by auto
  then show "sorted_upto example_bounds 2"
    unfolding sorted_upto_def b_val_def example_bounds_def by (intro allI impI) force
qed

theorem BinarySearch_insertion_point_witness:
  "(0::int) \<le> 2 \<and> holds_upto example_bounds 2 \<and> sorted_upto example_bounds 2 \<and>
   BinarySearch example_bounds 2 14 = Some 1 \<and> BinarySearch example_bounds 2 21 = Some 1 \<and>
   BinarySearch example_bounds 2 30 = Some 2"
proof -
  have v: "b_val example_bounds 0 = 10" "b_val example_bounds 1 = 21"
    by (simp_all add: b_val_def example_bounds_def)
  have two: "b_val example_bounds i = 10 \<or> b_val example_bounds i = 21" if "0 \<le> i" "i < 2" for i
  proof -
    have "i = 0 \<or> i = 1" using that by arith
    then show ?thesis using v by auto
  qed
  have ex: "(\<exists>i. 0 \<le> i \<and> i < 2 \<and> b_val example_bounds i = v) \<longleftrightarrow> v = 10 \<or> v = 21" for v
  proof
    assume "\<exists>i. 0 \<le> i \<and> i < 2 \<and> b_val example_bounds i = v"
    then show "v = 10 \<or> v = 21" using two by blast
  next
    assume "v = 10 \<or> v = 21"
    then show "\<exists>i. 0 \<le> i \<and> i < 2 \<and> b_val example_bounds i = v"
    proof
      assume "v = 10"
      then have "0 \<le> (0::int) \<and> (0::int) < 2 \<and> b_val example_bounds 0 = v" using v by simp
      then show ?thesis by blast
    next
      assume "v = 21"
      then have "0 \<le> (1::int) \<and> (1::int) < 2 \<and> b_val example_bounds 1 = v" using v by simp
      then show ?thesis by blast
    qed
  qed
  note T = BinarySearch_insertion_point [OF _ example_bounds_ok]
  have a: "BinarySearch example_bounds 2 14 = Some 1"
  proof -
    obtain r where r: "BinarySearch example_bounds 2 14 = Some r" "0 \<le> r" "r \<le> 2"
      "\<forall>i. 0 \<le> i \<and> i < r \<longrightarrow> b_val example_bounds i < 14"
      "r < 2 \<longrightarrow> 14 \<le> b_val example_bounds r"
      using T [of 14] by (auto simp: ex)
    have "r \<noteq> 0" using r(5) v by auto
    moreover have "r \<noteq> 2" using r(4) [rule_format, of 1] v by auto
    ultimately have "r = 1" using r(2,3) by simp
    then show ?thesis using r(1) by simp
  qed
  have b: "BinarySearch example_bounds 2 21 = Some 1"
  proof -
    obtain r where r: "BinarySearch example_bounds 2 21 = Some r" "0 \<le> r" "r < 2"
      "b_val example_bounds r = 21"
      using T [of 21] by (auto simp: ex)
    have "r \<noteq> 0" using r(4) v by auto
    then have "r = 1" using r(2,3) by simp
    then show ?thesis using r(1) by simp
  qed
  have c: "BinarySearch example_bounds 2 30 = Some 2"
  proof -
    obtain r where r: "BinarySearch example_bounds 2 30 = Some r" "0 \<le> r" "r \<le> 2"
      "\<forall>i. 0 \<le> i \<and> i < r \<longrightarrow> b_val example_bounds i < 30"
      "r < 2 \<longrightarrow> 30 \<le> b_val example_bounds r"
      using T [of 30] by (auto simp: ex)
    have "r \<noteq> 0" using r(5) v by auto
    moreover have "r \<noteq> 1" using r(5) v by auto
    ultimately have "r = 2" using r(2,3) by simp
    then show ?thesis using r(1) by simp
  qed
  show ?thesis using a b c example_bounds_ok by simp
qed

lemma reset_timeStamps_result:
  assumes "\<forall>i. i0 \<le> i \<and> i < b2_maxProxies cfg \<longrightarrow> pool i \<noteq> None"
  shows "reset_timeStamps cfg i0 pool =
           Some (\<lambda>i. if i0 \<le> i \<and> i < b2_maxProxies cfg
                      then map_option (\<lambda>p. p\<lparr>timeStamp := 0\<rparr>) (pool i) else pool i)"
  using assms
proof (induction cfg i0 pool rule: reset_timeStamps.induct)
  case (1 cfg i pool)
  show ?case
  proof (cases "i < b2_maxProxies cfg")
    case False
    then show ?thesis by (subst reset_timeStamps.simps) (auto simp: fun_eq_iff)
  next
    case True
    then obtain p where p: "pool i = Some p" using "1.prems" by auto
    have "reset_timeStamps cfg (i + 1) (pool(i \<mapsto> p\<lparr>timeStamp := 0\<rparr>)) =
       Some (\<lambda>k. if i + 1 \<le> k \<and> k < b2_maxProxies cfg
                 then map_option (\<lambda>p. p\<lparr>timeStamp := 0\<rparr>) ((pool(i \<mapsto> p\<lparr>timeStamp := 0\<rparr>)) k)
                 else (pool(i \<mapsto> p\<lparr>timeStamp := 0\<rparr>)) k)"
      using "1.prems" by (intro "1.IH" [OF True p]) auto
    also have "(\<lambda>k. if i + 1 \<le> k \<and> k < b2_maxProxies cfg
                 then map_option (\<lambda>p. p\<lparr>timeStamp := 0\<rparr>) ((pool(i \<mapsto> p\<lparr>timeStamp := 0\<rparr>)) k)
                 else (pool(i \<mapsto> p\<lparr>timeStamp := 0\<rparr>)) k) =
       (\<lambda>k. if i \<le> k \<and> k < b2_maxProxies cfg
                      then map_option (\<lambda>p. p\<lparr>timeStamp := 0\<rparr>) (pool k) else pool k)"
      using True p by (auto simp: fun_eq_iff)
    finally have r: "reset_timeStamps cfg (i + 1) (pool(i \<mapsto> p\<lparr>timeStamp := 0\<rparr>)) =
       Some (\<lambda>k. if i \<le> k \<and> k < b2_maxProxies cfg
                      then map_option (\<lambda>p. p\<lparr>timeStamp := 0\<rparr>) (pool k) else pool k)" .
    have e: "reset_timeStamps cfg i pool =
        reset_timeStamps cfg (i + 1) (pool(i \<mapsto> p\<lparr>timeStamp := 0\<rparr>))"
      using True p by (subst reset_timeStamps.simps) simp
    show ?thesis unfolding e by (rule r)
  qed
qed

text \<open>
  Claim C8.  IncrementTimeStamp at the generation 65535 sets the time stamp of every
  proxy of the pool to 0 and the generation to 1; at any other generation it adds 1 to
  the generation and changes nothing else.
\<close>

theorem IncrementTimeStamp_generation:
  assumes "holds_upto (proxyPool s) (b2_maxProxies cfg)"
  shows "IncrementTimeStamp cfg s =
           (if m_timeStamp s = 65535
            then Some (s\<lparr>proxyPool :=
                           (\<lambda>i. if 0 \<le> i \<and> i < b2_maxProxies cfg
                                then map_option (\<lambda>p. p\<lparr>timeStamp := 0\<rparr>) (proxyPool s i)
                                else proxyPool s i),
                         m_timeStamp := 1\<rparr>)
            else Some (s\<lparr>m_timeStamp := m_timeStamp s + 1\<rparr>))"
  using assms
  by (simp add: IncrementTimeStamp_def USHRT_MAX_def holds_upto_def reset_timeStamps_result)

theorem IncrementTimeStamp_generation_witness:
  "holds_upto (proxyPool (new_BroadPhase example_cfg example_world)) (b2_maxProxies example_cfg) \<and>
   map_option m_timeStamp (IncrementTimeStamp example_cfg (new_BroadPhase example_cfg example_world)) = Some 2 \<and>
   map_option m_timeStamp
     (IncrementTimeStamp example_cfg ((new_BroadPhase example_cfg example_world)\<lparr>m_timeStamp := 65535\<rparr>)) = Some 1"
proof -
  have h: "holds_upto (proxyPool (new_BroadPhase example_cfg example_world)) (b2_maxProxies example_cfg)"
    by (auto simp: holds_upto_def new_BroadPhase_def Let_def example_cfg_def)
  then have h': "holds_upto (proxyPool ((new_BroadPhase example_cfg example_world)\<lparr>m_timeStamp := 65535\<rparr>))
      (b2_maxProxies example_cfg)" by simp
  have t: "m_timeStamp (new_BroadPhase example_cfg example_world) = 1"
    by (simp add: new_BroadPhase_def Let_def)
  show ?thesis
    using IncrementTimeStamp_generation [OF h] IncrementTimeStamp_generation [OF h'] h
    by (simp add: t)
qed

section \<open>The loops shared by CreateProxy and DestroyProxy\<close>

lemma Bound_copy [simp]:
  "b\<lparr>b_value := b_value c, proxyId := proxyId c, stabbingCount := stabbingCount c\<rparr> = (c::Bound)"
  by (cases b, cases c) simp

lemma Bound_copy' [simp]:
  "\<lparr>b_value = b_value c, proxyId = proxyId c, stabbingCount = stabbingCount c\<rparr> = (c::Bound)"
  by (cases c) simp

lemma make_temp_result:
  assumes "holds_between bounds src (src + int n)"
  shows "make_temp bounds src n = Some (map (\<lambda>j. the (bounds (src + int j))) [0..<n])"
  using assms
proof (induction n arbitrary: src)
  case 0
  show ?case by simp
next
  case (Suc n)
  obtain b where b: "bounds src = Some b" using Suc.prems by (auto simp: holds_between_def)
  have h: "holds_between bounds (src + 1) (src + 1 + int n)"
    using Suc.prems by (auto simp: holds_between_def)
  have m: "map (\<lambda>j. the (bounds (src + int j))) [0..<Suc n] =
      b # map (\<lambda>j. the (bounds (src + 1 + int j))) [0..<n]"
    using b by (simp add: upt_rec [of 0] map_Suc_upt [symmetric] add.assoc del: upt_Suc)
  show ?case using b Suc.IH [OF h] m by simp
qed

lemma move_back_result:
  assumes "holds_between bounds dst (dst + int (length tArr))"
  shows "move_back bounds dst tArr =
     Some (\<lambda>i. if dst \<le> i \<and> i < dst + int (length tArr) then Some (tArr ! nat (i - dst)) else bounds i)"
  using assms
proof (induction tArr arbitrary: bounds dst)
  case Nil
  show ?case by (auto simp: fun_eq_iff)
next
  case (Cons t tArr)
  obtain b where b: "bounds dst = Some b" using Cons.prems by (auto simp: holds_between_def)
  have h: "holds_between (bounds(dst \<mapsto> t)) (dst + 1) (dst + 1 + int (length tArr))"
    using Cons.prems by (auto simp: holds_between_def)
  have "move_back bounds dst (t # tArr) = move_back (bounds(dst \<mapsto> t)) (dst + 1) tArr"
    using b by simp
  also have "\<dots> = Some (\<lambda>i. if dst + 1 \<le> i \<and> i < dst + 1 + int (length tArr)
        then Some (tArr ! nat (i - (dst + 1))) else (bounds(dst \<mapsto> t)) i)"
    by (rule Cons.IH [OF h])
  also have "(\<lambda>i. if dst + 1 \<le> i \<and> i < dst + 1 + int (length tArr)
        then Some (tArr ! nat (i - (dst + 1))) else (bounds(dst \<mapsto> t)) i) =
     (\<lambda>i. if dst \<le> i \<and> i < dst + int (length (t # tArr)) then Some ((t # tArr) ! nat (i - dst)) else bounds i)"
  proof (rule ext)
    fix i
    show "(if dst + 1 \<le> i \<and> i < dst + 1 + int (length tArr)
        then Some (tArr ! nat (i - (dst + 1))) else (bounds(dst \<mapsto> t)) i) =
      (if dst \<le> i \<and> i < dst + int (length (t # tArr)) then Some ((t # tArr) ! nat (i - dst)) else bounds i)"
    proof (cases "i = dst")
      case True
      then show ?thesis by simp
    next
      case False
      have "nat (i - dst) = Suc (nat (i - (dst + 1)))" if "dst + 1 \<le> i" using that by simp
      then show ?thesis using False by auto
    qed
  qed
  finally show ?case .
qed

lemma memmove_result:
  assumes "holds_between bounds src (src + n)" "holds_between bounds dst (dst + n)"
  shows "memmove bounds dst src n =
     Some (\<lambda>i. if dst \<le> i \<and> i < dst + n then bounds (i - dst + src) else bounds i)"
proof (cases "0 \<le> n")
  case False
  then show ?thesis by (auto simp: memmove_def fun_eq_iff)
next
  case True
  have s: "holds_between bounds src (src + int (nat n))" using assms(1) True by simp
  note mt = make_temp_result [OF s]
  have d: "holds_between bounds dst (dst + int (length (map (\<lambda>j. the (bounds (src + int j))) [0..<nat n])))"
    using assms(2) True by simp
  have "memmove bounds dst src n =
     Some (\<lambda>i. if dst \<le> i \<and> i < dst + int (length (map (\<lambda>j. the (bounds (src + int j))) [0..<nat n]))
         then Some (map (\<lambda>j. the (bounds (src + int j))) [0..<nat n] ! nat (i - dst)) else bounds i)"
    by (simp only: memmove_def mt Option.bind.simps move_back_result [OF d])
  also have "(\<lambda>i. if dst \<le> i \<and> i < dst + int (length (map (\<lambda>j. the (bounds (src + int j))) [0..<nat n]))
         then Some (map (\<lambda>j. the (bounds (src + int j))) [0..<nat n] ! nat (i - dst)) else bounds i) =
     (\<lambda>i. if dst \<le> i \<and> i < dst + n then bounds (i - dst + src) else bounds i)"
  proof (rule ext)
    fix i
    show "(if dst \<le> i \<and> i < dst + int (length (map (\<lambda>j. the (bounds (src + int j))) [0..<nat n]))
         then Some (map (\<lambda>j. the (bounds (src + int j))) [0..<nat n] ! nat (i - dst)) else bounds i) =
      (if dst \<le> i \<and> i < dst + n then bounds (i - dst + src) else bounds i)"
    proof (cases "dst \<le> i \<and> i < dst + n")
      case False
      then show ?thesis using True by auto
    next
      case t: True
      then have "bounds (src + (i - dst)) \<noteq> None" using assms(1) by (auto simp: holds_between_def)
      then show ?thesis using t True by (auto simp: add.commute)
    qed
  qed
  finally show ?thesis .
qed

lemma adjust_stabbing_result:
  assumes "holds_between bounds lo hi"
  shows "adjust_stabbing bounds d lo hi =
     Some (\<lambda>i. if lo \<le> i \<and> i < hi
               then map_option (\<lambda>b. b\<lparr>stabbingCount := stabbingCount b + d\<rparr>) (bounds i)
               else bounds i)"
  using assms
proof (induction bounds d lo hi rule: adjust_stabbing.induct)
  case (1 bounds d index tEnd)
  show ?case
  proof (cases "index < tEnd")
    case False
    then show ?thesis by (subst adjust_stabbing.simps) (auto simp: fun_eq_iff)
  next
    case True
    then obtain b where b: "bounds index = Some b" using "1.prems" by (auto simp: holds_between_def)
    let ?b1 = "bounds(index \<mapsto> b\<lparr>stabbingCount := stabbingCount b + d\<rparr>)"
    have h: "holds_between ?b1 (index + 1) tEnd" using "1.prems" by (auto simp: holds_between_def)
    have e: "adjust_stabbing bounds d index tEnd = adjust_stabbing ?b1 d (index + 1) tEnd"
      using True b by (subst adjust_stabbing.simps) simp
    have r: "adjust_stabbing ?b1 d (index + 1) tEnd =
      Some (\<lambda>i. if index + 1 \<le> i \<and> i < tEnd
               then map_option (\<lambda>b. b\<lparr>stabbingCount := stabbingCount b + d\<rparr>) (?b1 i)
               else ?b1 i)"
      by (rule "1.IH" [OF True b h])
    have "(\<lambda>i. if index + 1 \<le> i \<and> i < tEnd
               then map_option (\<lambda>b. b\<lparr>stabbingCount := stabbingCount b + d\<rparr>) (?b1 i)
               else ?b1 i) =
        (\<lambda>i. if index \<le> i \<and> i < tEnd
               then map_option (\<lambda>b. b\<lparr>stabbingCount := stabbingCount b + d\<rparr>) (bounds i)
               else bounds i)"
      using True b by (auto simp: fun_eq_iff)
    then show ?thesis unfolding e r by simp
  qed
qed


lemma set_axis_absorb [simp]:
  "set_axis axis l u (x\<lparr>lowerBounds := (lowerBounds x)(axis := k)\<rparr>) = set_axis axis l u x"
  "set_axis axis l u (x\<lparr>upperBounds := (upperBounds x)(axis := k)\<rparr>) = set_axis axis l u x"
  by (simp_all add: set_axis_def)

lemma fix_indices_result:
  assumes "holds_between bounds lo hi"
    and "\<forall>i. lo \<le> i \<and> i < hi \<longrightarrow> pool (b_pid bounds i) \<noteq> None"
    and "\<forall>i. lo \<le> i \<and> i < hi \<longrightarrow>
           (if b_low bounds i then L (b_pid bounds i) = i else U (b_pid bounds i) = i)"
    and "\<forall>p x. pool p = Some x \<longrightarrow>
           ((\<forall>i. lo \<le> i \<and> i < hi \<and> b_low bounds i \<longrightarrow> b_pid bounds i \<noteq> p) \<longrightarrow>
              lowerBounds x axis = L p) \<and>
           ((\<forall>i. lo \<le> i \<and> i < hi \<and> \<not> b_low bounds i \<longrightarrow> b_pid bounds i \<noteq> p) \<longrightarrow>
              upperBounds x axis = U p)"
  shows "fix_indices pool bounds axis lo hi =
           Some (\<lambda>p. map_option (set_axis axis (L p) (U p)) (pool p))"
  using assms
proof (induction pool bounds axis lo hi rule: fix_indices.induct)
  case (1 pool bounds axis index tEnd)
  show ?case
  proof (cases "index < tEnd")
    case False
    have "map_option (set_axis axis (L p) (U p)) (pool p) = pool p" for p
    proof (cases "pool p")
      case None
      then show ?thesis by simp
    next
      case (Some x)
      then have "lowerBounds x axis = L p" "upperBounds x axis = U p"
        using "1.prems"(4) False by auto
      then have "set_axis axis (L p) (U p) x = x" by (simp add: set_axis_def fun_upd_idem)
      then show ?thesis using Some by simp
    qed
    then show ?thesis using False by (subst fix_indices.simps) (simp add: fun_eq_iff)
  next
    case True
    then obtain b where b: "bounds index = Some b" using "1.prems"(1) by (auto simp: holds_between_def)
    have bp: "b_pid bounds index = proxyId b" "b_low bounds index = IsLower b"
      using b by (simp_all add: b_pid_def b_low_def)
    obtain x where x: "pool (proxyId b) = Some x" using "1.prems"(2) True bp by force
    define x1 where "x1 = (if IsLower b then x\<lparr>lowerBounds := (lowerBounds x)(axis := index)\<rparr>
        else x\<lparr>upperBounds := (upperBounds x)(axis := index)\<rparr>)"
    define pool1 where "pool1 = pool(proxyId b \<mapsto> x1)"
    have e: "fix_indices pool bounds axis index tEnd = fix_indices pool1 bounds axis (index + 1) tEnd"
      using True b x by (subst fix_indices.simps) (simp add: pool1_def x1_def)
    have h1: "holds_between bounds (index + 1) tEnd" using "1.prems"(1) by (auto simp: holds_between_def)
    have h2: "\<forall>i. index + 1 \<le> i \<and> i < tEnd \<longrightarrow> pool1 (b_pid bounds i) \<noteq> None"
      using "1.prems"(2) by (auto simp: pool1_def)
    have h3: "\<forall>i. index + 1 \<le> i \<and> i < tEnd \<longrightarrow>
           (if b_low bounds i then L (b_pid bounds i) = i else U (b_pid bounds i) = i)"
      using "1.prems"(3) by auto
    have at: "if IsLower b then L (proxyId b) = index else U (proxyId b) = index"
      using "1.prems"(3) True bp by (metis order_refl)
    have h4: "\<forall>p y. pool1 p = Some y \<longrightarrow>
           ((\<forall>i. index + 1 \<le> i \<and> i < tEnd \<and> b_low bounds i \<longrightarrow> b_pid bounds i \<noteq> p) \<longrightarrow>
              lowerBounds y axis = L p) \<and>
           ((\<forall>i. index + 1 \<le> i \<and> i < tEnd \<and> \<not> b_low bounds i \<longrightarrow> b_pid bounds i \<noteq> p) \<longrightarrow>
              upperBounds y axis = U p)"
    proof (intro allI impI conjI)
      fix p y
      assume y: "pool1 p = Some y"
        and nh: "\<forall>i. index + 1 \<le> i \<and> i < tEnd \<and> b_low bounds i \<longrightarrow> b_pid bounds i \<noteq> p"
      show "lowerBounds y axis = L p"
      proof (cases "p = proxyId b \<and> IsLower b")
        case True
        then show ?thesis using y at by (auto simp: pool1_def x1_def)
      next
        case False
        have "\<forall>i. index \<le> i \<and> i < tEnd \<and> b_low bounds i \<longrightarrow> b_pid bounds i \<noteq> p"
        proof (intro allI impI)
          fix i assume i: "index \<le> i \<and> i < tEnd \<and> b_low bounds i"
          show "b_pid bounds i \<noteq> p"
          proof (cases "i = index")
            case True
            then show ?thesis using i False bp by auto
          next
            case False
            then show ?thesis using i nh by auto
          qed
        qed
        moreover obtain z where z: "pool p = Some z" "lowerBounds y axis = lowerBounds z axis"
          using y x False by (auto simp: pool1_def x1_def split: if_splits)
        ultimately show ?thesis using "1.prems"(4) by metis
      qed
    next
      fix p y
      assume y: "pool1 p = Some y"
        and nh: "\<forall>i. index + 1 \<le> i \<and> i < tEnd \<and> \<not> b_low bounds i \<longrightarrow> b_pid bounds i \<noteq> p"
      show "upperBounds y axis = U p"
      proof (cases "p = proxyId b \<and> \<not> IsLower b")
        case True
        then show ?thesis using y at by (auto simp: pool1_def x1_def)
      next
        case False
        have "\<forall>i. index \<le> i \<and> i < tEnd \<and> \<not> b_low bounds i \<longrightarrow> b_pid bounds i \<noteq> p"
        proof (intro allI impI)
          fix i assume i: "index \<le> i \<and> i < tEnd \<and> \<not> b_low bounds i"
          show "b_pid bounds i \<noteq> p"
          proof (cases "i = index")
            case True
            then show ?thesis using i False bp by auto
          next
            case False
            then show ?thesis using i nh by auto
          qed
        qed
        moreover obtain z where z: "pool p = Some z" "upperBounds y axis = upperBounds z axis"
          using y x False by (auto simp: pool1_def x1_def split: if_splits)
        ultimately show ?thesis using "1.prems"(4) by metis
      qed
    qed
    have r: "fix_indices pool1 bounds axis (index + 1) tEnd =
        Some (\<lambda>p. map_option (set_axis axis (L p) (U p)) (pool1 p))"
    proof (cases "IsLower b")
      case True
      have pe: "pool1 = pool(proxyId b \<mapsto> x\<lparr>lowerBounds := (lowerBounds x)(axis := index)\<rparr>)"
        using True by (simp add: pool1_def x1_def)
      show ?thesis
        unfolding pe
        by (rule "1.IH"(1) [OF \<open>index < tEnd\<close> b x True h1 h2 [unfolded pe] h3 h4 [unfolded pe]])
    next
      case False
      have pe: "pool1 = pool(proxyId b \<mapsto> x\<lparr>upperBounds := (upperBounds x)(axis := index)\<rparr>)"
        using False by (simp add: pool1_def x1_def)
      show ?thesis
        unfolding pe
        by (rule "1.IH"(2) [OF \<open>index < tEnd\<close> b x False h1 h2 [unfolded pe] h3 h4 [unfolded pe]])
    qed
    have "(\<lambda>p. map_option (set_axis axis (L p) (U p)) (pool1 p)) =
          (\<lambda>p. map_option (set_axis axis (L p) (U p)) (pool p))"
      using x by (auto simp: fun_eq_iff pool1_def x1_def)
    then show ?thesis unfolding e r by simp
  qed
qed


section \<open>Query\<close>

lemma same_links_refl [simp]: "same_links x x"
  by (simp add: same_links_def)

lemma rel_option_same_links_refl [simp]: "rel_option same_links a a"
  by (cases a) simp_all

lemma marks_rel_refl [simp]: "marks_rel s s"
  by (simp add: marks_rel_def)

lemma rel_option_same_links_trans:
  "rel_option same_links a b \<Longrightarrow> rel_option same_links b c \<Longrightarrow> rel_option same_links a c"
  by (cases a; cases b; cases c) (auto simp: same_links_def)

lemma marks_rel_trans: "marks_rel s s' \<Longrightarrow> marks_rel s' s'' \<Longrightarrow> marks_rel s s''"
  unfolding marks_rel_def by (metis rel_option_same_links_trans)

lemma marks_rel_defined: "marks_rel s s' \<Longrightarrow> (proxyPool s' p \<noteq> None) = (proxyPool s p \<noteq> None)"
  unfolding marks_rel_def by (metis option.rel_distinct(1,2) option.exhaust)

lemma marks_rel_ub: "marks_rel s s' \<Longrightarrow> ub_of s' axis = ub_of s axis"
proof (rule ext)
  fix p assume m: "marks_rel s s'"
  then have "rel_option same_links (proxyPool s p) (proxyPool s' p)" by (simp add: marks_rel_def)
  then show "ub_of s' axis p = ub_of s axis p"
    by (cases "proxyPool s p"; cases "proxyPool s' p") (auto simp: ub_of_def same_links_def)
qed

lemma marks_rel_lb: "marks_rel s s' \<Longrightarrow> lb_of s' axis = lb_of s axis"
proof (rule ext)
  fix p assume m: "marks_rel s s'"
  then have "rel_option same_links (proxyPool s p) (proxyPool s' p)" by (simp add: marks_rel_def)
  then show "lb_of s' axis p = lb_of s axis p"
    by (cases "proxyPool s p"; cases "proxyPool s' p") (auto simp: lb_of_def same_links_def)
qed

lemma IncrementOverlapCount_marks_rel:
  assumes "IncrementOverlapCount s p = Some s'"
  shows "marks_rel s s'"
  using assms
  by (auto simp: IncrementOverlapCount_def marks_rel_def same_links_def option.rel_map
      split: option.splits if_splits intro!: option.rel_refl)

lemma IncrementOverlapCount_defined:
  assumes "proxyPool s p \<noteq> None"
  shows "\<exists>s'. IncrementOverlapCount s p = Some s'"
  using assms by (auto simp: IncrementOverlapCount_def)

lemma mark_all_append:
  "mark_all s (ps @ qs) = (case mark_all s ps of None \<Rightarrow> None | Some s' \<Rightarrow> mark_all s' qs)"
  by (induction ps arbitrary: s) (auto split: option.splits)

lemma mark_all_marks_rel: "mark_all s ps = Some s' \<Longrightarrow> marks_rel s s'"
proof (induction ps arbitrary: s)
  case Nil
  then show ?case by simp
next
  case (Cons p ps)
  then obtain s1 where s1: "IncrementOverlapCount s p = Some s1" "mark_all s1 ps = Some s'"
    by (auto split: option.splits)
  show ?case using marks_rel_trans [OF IncrementOverlapCount_marks_rel [OF s1(1)] Cons.IH [OF s1(2)]] .
qed

lemma mark_all_defined:
  assumes "\<forall>p\<in>set ps. proxyPool s p \<noteq> None"
  shows "\<exists>s'. mark_all s ps = Some s'"
  using assms
proof (induction ps arbitrary: s)
  case Nil
  then show ?case by simp
next
  case (Cons p ps)
  then obtain s1 where s1: "IncrementOverlapCount s p = Some s1"
    using IncrementOverlapCount_defined [of s p] by auto
  have "\<forall>q\<in>set ps. proxyPool s1 q \<noteq> None"
    using Cons.prems marks_rel_defined [OF IncrementOverlapCount_marks_rel [OF s1]] by simp
  then show ?case using Cons.IH s1 by simp
qed

lemma Query_easy_eq:
  assumes "holds_between bounds j uq"
  shows "Query_easy s bounds j uq = mark_all s (easy_marks bounds j uq)"
  using assms
proof (induction s bounds j uq rule: Query_easy.induct)
  case (1 s bounds j upperQuery)
  show ?case
  proof (cases "j < upperQuery")
    case False
    then show ?thesis by (subst Query_easy.simps) (simp add: easy_marks_def)
  next
    case True
    then obtain b where b: "bounds j = Some b" using "1.prems" by (auto simp: holds_between_def)
    have h: "holds_between bounds (j + 1) upperQuery" using "1.prems" by (auto simp: holds_between_def)
    have u: "[j..upperQuery - 1] = j # [j + 1..upperQuery - 1]"
      using True by (simp add: upto_rec1)
    show ?thesis
    proof (cases "IsLower b")
      case l: True
      have em: "easy_marks bounds j upperQuery = proxyId b # easy_marks bounds (j + 1) upperQuery"
        using b l by (simp add: easy_marks_def u b_low_def b_pid_def)
      show ?thesis
      proof (cases "IncrementOverlapCount s (proxyId b)")
        case None
        then show ?thesis using True b l by (subst Query_easy.simps) (simp add: em)
      next
        case (Some s')
        show ?thesis using True b l Some "1.IH"(1) [OF True b l Some h]
          by (subst Query_easy.simps) (simp add: em)
      qed
    next
      case l: False
      have em: "easy_marks bounds j upperQuery = easy_marks bounds (j + 1) upperQuery"
        using b l by (simp add: easy_marks_def u b_low_def b_pid_def)
      show ?thesis using True b l "1.IH"(2) [OF True b l h]
        by (subst Query_easy.simps) (simp add: em)
    qed
  qed
qed

lemma Query_hard_eq:
  assumes "- 1 \<le> i" "holds_upto bounds (i + 1)"
    and "\<forall>k. 0 \<le> k \<and> k \<le> i \<longrightarrow> proxyPool s (b_pid bounds k) \<noteq> None"
    and "n = int (length (hard_marks bounds (ub_of s axis) lq i))"
  shows "Query_hard s bounds axis lq i n = mark_all s (hard_marks bounds (ub_of s axis) lq i)"
  using assms
proof (induction s bounds axis lq i n rule: Query_hard.induct)
  case (1 s bounds axis lowerQuery i n)
  show ?case
  proof (cases "n = 0")
    case True
    then show ?thesis using "1.prems"(4) by (subst Query_hard.simps) simp
  next
    case False
    have i0: "0 \<le> i"
    proof (rule ccontr)
      assume "\<not> 0 \<le> i"
      then have "hard_marks bounds (ub_of s axis) lowerQuery i = []" by (simp add: hard_marks_def)
      then show False using False "1.prems"(4) by simp
    qed
    then obtain b where b: "bounds i = Some b" using "1.prems"(2) by (auto simp: holds_upto_def)
    have u: "rev [0..i] = i # rev [0..i - 1]" using i0 by (simp add: upto_rec2)
    have h2: "holds_upto bounds (i - 1 + 1)" using "1.prems"(2) by (auto simp: holds_upto_def)
    have i1: "- 1 \<le> i - 1" using i0 by simp
    have ni: "\<not> i < 0" using i0 by simp
    show ?thesis
    proof (cases "IsLower b")
      case l: False
      have hm: "hard_marks bounds (ub_of s axis) lowerQuery i = hard_marks bounds (ub_of s axis) lowerQuery (i - 1)"
        using b l by (simp add: hard_marks_def u b_low_def)
      have "Query_hard s bounds axis lowerQuery (i - 1) n =
          mark_all s (hard_marks bounds (ub_of s axis) lowerQuery (i - 1))"
        using "1.prems" hm by (intro "1.IH"(3) [OF False ni b l i1 h2]) auto
      then show ?thesis using False ni b l by (subst Query_hard.simps) (simp add: hm)
    next
      case l: True
      obtain x where x: "proxyPool s (proxyId b) = Some x"
        using "1.prems"(3) i0 b by (force simp: b_pid_def)
      have ux: "ub_of s axis (b_pid bounds i) = upperBounds x axis"
        using x b by (simp add: ub_of_def b_pid_def)
      show ?thesis
      proof (cases "lowerQuery \<le> upperBounds x axis")
        case c: False
        have hm: "hard_marks bounds (ub_of s axis) lowerQuery i = hard_marks bounds (ub_of s axis) lowerQuery (i - 1)"
          using b l c ux by (simp add: hard_marks_def u b_low_def)
        have "Query_hard s bounds axis lowerQuery (i - 1) n =
          mark_all s (hard_marks bounds (ub_of s axis) lowerQuery (i - 1))"
          using "1.prems" hm by (intro "1.IH"(2) [OF False ni b l x c i1 h2]) auto
        then show ?thesis using False ni b l x c by (subst Query_hard.simps) (simp add: hm)
      next
        case c: True
        have hm: "hard_marks bounds (ub_of s axis) lowerQuery i =
            proxyId b # hard_marks bounds (ub_of s axis) lowerQuery (i - 1)"
          using b l c ux by (simp add: hard_marks_def u b_low_def b_pid_def)
        obtain s' where s': "IncrementOverlapCount s (proxyId b) = Some s'"
          using IncrementOverlapCount_defined [of s "proxyId b"] x by auto
        note mr = IncrementOverlapCount_marks_rel [OF s']
        have ub: "ub_of s' axis = ub_of s axis" by (rule marks_rel_ub [OF mr])
        have d: "\<forall>k. 0 \<le> k \<and> k \<le> i - 1 \<longrightarrow> proxyPool s' (b_pid bounds k) \<noteq> None"
          using "1.prems"(3) marks_rel_defined [OF mr] by auto
        have n1: "n - 1 = int (length (hard_marks bounds (ub_of s' axis) lowerQuery (i - 1)))"
          using "1.prems"(4) hm ub by simp
        have "Query_hard s' bounds axis lowerQuery (i - 1) (n - 1) =
          mark_all s' (hard_marks bounds (ub_of s' axis) lowerQuery (i - 1))"
          by (rule "1.IH"(1) [OF False ni b l x c s' i1 h2 d n1])
        then show ?thesis using False ni b l x c s' ub
          by (subst Query_hard.simps) (simp add: hm)
      qed
    qed
  qed
qed

lemma finite_spanning [simp]: "finite (spanning bounds up i)"
proof -
  have "spanning bounds up i \<subseteq> {0..i}" by (auto simp: spanning_def)
  then show ?thesis by (rule finite_subset) simp
qed

lemma index_ok_lowD:
  "index_ok bounds lo up L bc \<Longrightarrow> 0 \<le> i \<Longrightarrow> i < bc \<Longrightarrow> b_low bounds i \<Longrightarrow>
     b_pid bounds i \<in> L \<and> lo (b_pid bounds i) = i"
  unfolding index_ok_def by metis

lemma index_ok_upD:
  "index_ok bounds lo up L bc \<Longrightarrow> 0 \<le> i \<Longrightarrow> i < bc \<Longrightarrow> \<not> b_low bounds i \<Longrightarrow>
     b_pid bounds i \<in> L \<and> up (b_pid bounds i) = i"
  unfolding index_ok_def by metis

lemma index_ok_liveD:
  "index_ok bounds lo up L bc \<Longrightarrow> p \<in> L \<Longrightarrow>
     0 \<le> lo p \<and> lo p < up p \<and> up p < bc \<and>
        b_pid bounds (lo p) = p \<and> b_low bounds (lo p) \<and>
        b_pid bounds (up p) = p \<and> \<not> b_low bounds (up p)"
  unfolding index_ok_def by blast

lemma spanning_step_lower:
  assumes ok: "index_ok bounds lo up L bc" and i: "0 \<le> i" "i + 1 < bc" and l: "b_low bounds (i + 1)"
  shows "spanning bounds up (i + 1) = insert (i + 1) (spanning bounds up i)"
proof -
  have q: "i + 1 < up (b_pid bounds (i + 1))"
    using index_ok_lowD [OF ok _ i(2) l] index_ok_liveD [OF ok] i(1) by force
  have ne: "up (b_pid bounds k) \<noteq> i + 1" if k: "0 \<le> k" "k \<le> i" "b_low bounds k" for k
  proof
    assume e: "up (b_pid bounds k) = i + 1"
    have "b_pid bounds k \<in> L" using index_ok_lowD [OF ok k(1) _ k(3)] k(2) i(2) by simp
    then have "\<not> b_low bounds (up (b_pid bounds k))" using index_ok_liveD [OF ok] by blast
    then show False using e l by simp
  qed
  show ?thesis
  proof (intro set_eqI iffI)
    fix k assume "k \<in> spanning bounds up (i + 1)"
    then show "k \<in> insert (i + 1) (spanning bounds up i)"
      by (auto simp: spanning_def)
  next
    fix k assume "k \<in> insert (i + 1) (spanning bounds up i)"
    then consider "k = i + 1" | "k \<in> spanning bounds up i" by auto
    then show "k \<in> spanning bounds up (i + 1)"
    proof cases
      case 1
      then show ?thesis using i l q by (simp add: spanning_def)
    next
      case 2
      then have k: "0 \<le> k" "k \<le> i" "b_low bounds k" "i < up (b_pid bounds k)"
        by (auto simp: spanning_def)
      then have "i + 1 < up (b_pid bounds k)" using ne [OF k(1,2,3)] by simp
      then show ?thesis using k by (simp add: spanning_def)
    qed
  qed
qed

lemma spanning_step_upper:
  assumes ok: "index_ok bounds lo up L bc" and i: "0 \<le> i" "i + 1 < bc" and l: "\<not> b_low bounds (i + 1)"
  shows "spanning bounds up (i + 1) = spanning bounds up i - {lo (b_pid bounds (i + 1))}"
    and "lo (b_pid bounds (i + 1)) \<in> spanning bounds up i"
proof -
  define q where "q = b_pid bounds (i + 1)"
  have q: "q \<in> L" "up q = i + 1" using index_ok_upD [OF ok _ i(2) l] i(1) by (auto simp: q_def)
  have lq: "0 \<le> lo q" "lo q < up q" "b_pid bounds (lo q) = q" "b_low bounds (lo q)"
    using index_ok_liveD [OF ok q(1)] by auto
  show "lo (b_pid bounds (i + 1)) \<in> spanning bounds up i"
    using lq q by (simp add: spanning_def q_def [symmetric])
  have eqq: "b_pid bounds k = q \<longleftrightarrow> k = lo q" if k: "0 \<le> k" "k \<le> i" "b_low bounds k" for k
    using index_ok_lowD [OF ok k(1) _ k(3)] k(2) i(2) lq by auto
  have upq: "up (b_pid bounds k) = i + 1 \<longleftrightarrow> b_pid bounds k = q" if k: "0 \<le> k" "k \<le> i" "b_low bounds k" for k
  proof
    assume e: "up (b_pid bounds k) = i + 1"
    have "b_pid bounds k \<in> L" using index_ok_lowD [OF ok k(1) _ k(3)] k(2) i(2) by simp
    then have "b_pid bounds (up (b_pid bounds k)) = b_pid bounds k" using index_ok_liveD [OF ok] by blast
    then show "b_pid bounds k = q" using e by (simp add: q_def)
  next
    assume "b_pid bounds k = q"
    then show "up (b_pid bounds k) = i + 1" using q by simp
  qed
  show "spanning bounds up (i + 1) = spanning bounds up i - {lo (b_pid bounds (i + 1))}"
  proof (intro set_eqI iffI)
    fix k assume "k \<in> spanning bounds up (i + 1)"
    then have k: "0 \<le> k" "k \<le> i + 1" "b_low bounds k" "i + 1 < up (b_pid bounds k)"
      by (auto simp: spanning_def)
    have ki: "k \<le> i" using k(2,3) l by (cases "k = i + 1") auto
    have "k \<noteq> lo q" using eqq [OF k(1) ki k(3)] upq [OF k(1) ki k(3)] k(4) by auto
    then show "k \<in> spanning bounds up i - {lo (b_pid bounds (i + 1))}"
      using k ki by (simp add: spanning_def q_def)
  next
    fix k assume "k \<in> spanning bounds up i - {lo (b_pid bounds (i + 1))}"
    then have k: "0 \<le> k" "k \<le> i" "b_low bounds k" "i < up (b_pid bounds k)" "k \<noteq> lo q"
      by (auto simp: spanning_def q_def)
    have "up (b_pid bounds k) \<noteq> i + 1" using eqq [OF k(1,2,3)] upq [OF k(1,2,3)] k(5) by auto
    then show "k \<in> spanning bounds up (i + 1)" using k by (simp add: spanning_def)
  qed
qed

lemma stabbing_is_spanning:
  assumes ok: "index_ok bounds lo up L bc" and st: "stab_ok bounds bc"
    and i: "0 \<le> i" "i < bc"
  shows "b_sc bounds i = int (card (spanning bounds up i))"
  using i(1) i(2)
proof (induction i rule: int_ge_induct)
  case base
  have l0: "b_low bounds 0"
  proof (rule ccontr)
    assume n: "\<not> b_low bounds 0"
    have "b_pid bounds 0 \<in> L" "up (b_pid bounds 0) = 0"
      using index_ok_upD [OF ok _ base n] by auto
    then show False using index_ok_liveD [OF ok, of "b_pid bounds 0"] by auto
  qed
  have "0 < up (b_pid bounds 0)"
    using index_ok_lowD [OF ok _ base l0] index_ok_liveD [OF ok, of "b_pid bounds 0"] by auto
  then have "spanning bounds up 0 = {0}" using l0 by (auto simp: spanning_def)
  moreover have "b_sc bounds 0 = 1" using st base l0 by (auto simp: stab_ok_def)
  ultimately show ?case by simp
next
  case (step i)
  have ih: "b_sc bounds i = int (card (spanning bounds up i))" using step by simp
  have sc: "b_sc bounds (i + 1) = b_sc bounds i + (if b_low bounds (i + 1) then 1 else - 1)"
    using st step by (auto simp: stab_ok_def)
  show ?case
  proof (cases "b_low bounds (i + 1)")
    case True
    have "i + 1 \<notin> spanning bounds up i" by (simp add: spanning_def)
    then show ?thesis
      using spanning_step_lower [OF ok step(1) step(3) True] sc ih True by simp
  next
    case False
    note s = spanning_step_upper [OF ok step(1) step(3) False]
    have "card (spanning bounds up (i + 1)) = card (spanning bounds up i) - 1"
      unfolding s(1) using s(2) by simp
    moreover have "0 < card (spanning bounds up i)" using s(2) by (auto simp: card_gt_0_iff)
    ultimately show ?thesis using sc ih False by simp
  qed
qed

lemma hard_marks_length:
  assumes "0 \<le> i"
  shows "length (hard_marks bounds up (i + 1) i) = card (spanning bounds up i)"
proof -
  have "set (filter (\<lambda>k. b_low bounds k \<and> i + 1 \<le> up (b_pid bounds k)) (rev [0..i])) = spanning bounds up i"
    by (auto simp: spanning_def)
  moreover have "distinct (filter (\<lambda>k. b_low bounds k \<and> i + 1 \<le> up (b_pid bounds k)) (rev [0..i]))"
    by simp
  ultimately show ?thesis
    unfolding hard_marks_def length_map using distinct_card by metis
qed

lemma BinarySearch_weak:
  assumes "0 \<le> bc" "holds_upto bounds bc" "sorted_upto bounds bc"
  shows "\<exists>r. BinarySearch bounds bc v = Some r \<and> 0 \<le> r \<and> r \<le> bc \<and>
           (\<forall>i. 0 \<le> i \<and> i < r \<longrightarrow> b_val bounds i \<le> v) \<and>
           (\<forall>i. r \<le> i \<and> i < bc \<longrightarrow> v \<le> b_val bounds i)"
proof -
  obtain r where r: "BinarySearch_loop bounds v 0 (bc - 1) = Some r" "0 \<le> r" "r \<le> bc - 1 + 1"
    "(r \<le> bc - 1 \<and> b_val bounds r = v) \<or>
       ((\<forall>i. 0 \<le> i \<and> i < r \<longrightarrow> b_val bounds i < v) \<and>
        (\<forall>i. r \<le> i \<and> i < bc \<longrightarrow> v < b_val bounds i))"
    using BinarySearch_loop_correct [OF assms(2,3), of 0 "bc - 1" v] assms(1) by auto
  from r(4) have "(\<forall>i. 0 \<le> i \<and> i < r \<longrightarrow> b_val bounds i \<le> v) \<and>
           (\<forall>i. r \<le> i \<and> i < bc \<longrightarrow> v \<le> b_val bounds i)"
  proof
    assume m: "r \<le> bc - 1 \<and> b_val bounds r = v"
    show ?thesis
    proof (intro conjI allI impI)
      fix i assume "0 \<le> i \<and> i < r"
      then have "b_val bounds i \<le> b_val bounds r" using assms(3) m by (auto simp: sorted_upto_def)
      then show "b_val bounds i \<le> v" using m by simp
    next
      fix i assume "r \<le> i \<and> i < bc"
      then have "b_val bounds r \<le> b_val bounds i" using assms(3) r(2) by (auto simp: sorted_upto_def)
      then show "v \<le> b_val bounds i" using m by simp
    qed
  next
    assume "(\<forall>i. 0 \<le> i \<and> i < r \<longrightarrow> b_val bounds i < v) \<and>
        (\<forall>i. r \<le> i \<and> i < bc \<longrightarrow> v < b_val bounds i)"
    then show ?thesis by (meson less_imp_le)
  qed
  then show ?thesis using r by (auto simp: BinarySearch_def)
qed

lemma BinarySearch_order:
  assumes "BinarySearch bounds bc lv = Some lq" "BinarySearch bounds bc uv = Some uq"
    and "0 \<le> bc" "holds_upto bounds bc" "sorted_upto bounds bc" "lv < uv"
  shows "lq \<le> uq"
proof (rule ccontr)
  assume n: "\<not> lq \<le> uq"
  obtain r where r: "BinarySearch bounds bc lv = Some r" "0 \<le> r" "r \<le> bc"
     "\<forall>i. 0 \<le> i \<and> i < r \<longrightarrow> b_val bounds i \<le> lv" "\<forall>i. r \<le> i \<and> i < bc \<longrightarrow> lv \<le> b_val bounds i"
    using BinarySearch_weak [OF assms(3,4,5), of lv] by auto
  obtain r' where r': "BinarySearch bounds bc uv = Some r'" "0 \<le> r'" "r' \<le> bc"
     "\<forall>i. 0 \<le> i \<and> i < r' \<longrightarrow> b_val bounds i \<le> uv" "\<forall>i. r' \<le> i \<and> i < bc \<longrightarrow> uv \<le> b_val bounds i"
    using BinarySearch_weak [OF assms(3,4,5), of uv] by auto
  have e: "r = lq" "r' = uq" using r(1) r'(1) assms(1,2) by auto
  have "uq < lq" using n by simp
  then have "b_val bounds uq \<le> lv" "uv \<le> b_val bounds uq"
    using r(4) r'(5) r'(2) r(3) e by auto
  then show False using assms(6) by simp
qed

lemma hard_marks_cong:
  assumes "\<forall>k. 0 \<le> k \<and> k \<le> i \<longrightarrow> f (b_pid bounds k) = g (b_pid bounds k)"
  shows "hard_marks bounds f lq i = hard_marks bounds g lq i"
proof -
  have "filter (\<lambda>k. b_low bounds k \<and> lq \<le> f (b_pid bounds k)) (rev [0..i]) =
        filter (\<lambda>k. b_low bounds k \<and> lq \<le> g (b_pid bounds k)) (rev [0..i])"
    using assms by (intro filter_cong) auto
  then show ?thesis by (simp add: hard_marks_def)
qed

lemma holds_uptoD: "holds_upto a n \<Longrightarrow> 0 \<le> i \<Longrightarrow> i < n \<Longrightarrow> \<exists>b. a i = Some b"
  by (auto simp: holds_upto_def)

lemma holds_upto_between: "holds_upto a n \<Longrightarrow> 0 \<le> lo \<Longrightarrow> hi \<le> n \<Longrightarrow> holds_between a lo hi"
  by (auto simp: holds_upto_def holds_between_def)

lemma Query_result:
  assumes ok: "index_ok bounds lo up L bc" and st: "stab_ok bounds bc"
    and so: "sorted_upto bounds bc" and bc: "0 \<le> bc"
    and pool: "\<forall>p\<in>L. proxyPool s p \<noteq> None \<and> ub_of s axis p = up p"
  shows "\<exists>s' lq uq. Query s lv uv bounds bc axis = Some (s', lq, uq) \<and>
           BinarySearch bounds bc lv = Some lq \<and> BinarySearch bounds bc uv = Some uq \<and>
           mark_all s (query_marks bounds up lq uq) = Some s'"
proof -
  have h: "holds_upto bounds bc" using ok by (simp add: index_ok_def)
  obtain lq where lq: "BinarySearch bounds bc lv = Some lq" "0 \<le> lq" "lq \<le> bc"
    using BinarySearch_weak [OF bc h so, of lv] by auto
  obtain uq where uq: "BinarySearch bounds bc uv = Some uq" "0 \<le> uq" "uq \<le> bc"
    using BinarySearch_weak [OF bc h so, of uv] by auto
  have inL: "b_pid bounds k \<in> L" if "0 \<le> k" "k < bc" for k
    using ok that by (auto simp: index_ok_def)
  have e: "Query_easy s bounds lq uq = mark_all s (easy_marks bounds lq uq)"
    by (rule Query_easy_eq [OF holds_upto_between [OF h lq(2) uq(3)]])
  have "\<forall>p\<in>set (easy_marks bounds lq uq). proxyPool s p \<noteq> None"
    using inL pool lq uq by (auto simp: easy_marks_def)
  then obtain s1 where s1: "mark_all s (easy_marks bounds lq uq) = Some s1"
    using mark_all_defined by blast
  note mr = mark_all_marks_rel [OF s1]
  have hm: "hard_marks bounds (ub_of s1 axis) lq (lq - 1) = hard_marks bounds up lq (lq - 1)"
    unfolding marks_rel_ub [OF mr]
    using inL pool lq by (intro hard_marks_cong) auto
  have d1: "\<forall>k. 0 \<le> k \<and> k \<le> lq - 1 \<longrightarrow> proxyPool s1 (b_pid bounds k) \<noteq> None"
    using inL pool lq marks_rel_defined [OF mr] by auto
  have "\<forall>p\<in>set (hard_marks bounds up lq (lq - 1)). proxyPool s1 p \<noteq> None"
    using d1 by (auto simp: hard_marks_def)
  then obtain s2 where s2: "mark_all s1 (hard_marks bounds up lq (lq - 1)) = Some s2"
    using mark_all_defined by blast
  have tot: "mark_all s (query_marks bounds up lq uq) = Some s2"
    using s1 s2 by (simp add: query_marks_def mark_all_append)
  have hard: "(if lq > 0 then
                do {
                  b \<leftarrow> bounds (lq - 1);
                  Query_hard s1 bounds axis lq (lq - 1) (stabbingCount b)
                }
              else Some s1) = Some s2"
  proof (cases "lq > 0")
    case False
    then have "lq = 0" using lq by simp
    then have "hard_marks bounds up lq (lq - 1) = []" by (simp add: hard_marks_def)
    then show ?thesis using False s2 by simp
  next
    case True
    then obtain b where b: "bounds (lq - 1) = Some b"
      using holds_uptoD [OF h, of "lq - 1"] lq by auto
    have "b_sc bounds (lq - 1) = int (card (spanning bounds up (lq - 1)))"
      using True lq by (intro stabbing_is_spanning [OF ok st]) auto
    also have "\<dots> = int (length (hard_marks bounds up (lq - 1 + 1) (lq - 1)))"
      using True by (subst hard_marks_length) auto
    finally have n: "stabbingCount b = int (length (hard_marks bounds (ub_of s1 axis) lq (lq - 1)))"
      using b hm by (simp add: b_sc_def)
    have h1: "holds_upto bounds (lq - 1 + 1)" using h lq by (auto simp: holds_upto_def)
    have "Query_hard s1 bounds axis lq (lq - 1) (stabbingCount b) =
        mark_all s1 (hard_marks bounds (ub_of s1 axis) lq (lq - 1))"
      using True by (intro Query_hard_eq [OF _ h1 d1 n]) auto
    then show ?thesis using True b s2 hm by simp
  qed
  have "Query s lv uv bounds bc axis = Some (s2, lq, uq)"
    by (simp add: Query_def lq(1) uq(1) e s1 hard)
  then show ?thesis using lq uq tot by blast
qed

section \<open>The insertion of CreateProxy\<close>

lemma IsLower_even: "IsLower b \<longleftrightarrow> even (b_value b)"
  by (simp add: IsLower_def and_one_eq mod_2_eq_odd)

lemma IsUpper_not_IsLower: "IsUpper b \<longleftrightarrow> \<not> IsLower b"
  by (simp add: IsUpper_def IsLower_def and_one_eq mod_2_eq_odd)

lemma b_fields_map_sc [simp]:
  "b_pid (\<lambda>i. map_option (\<lambda>b. b\<lparr>stabbingCount := f b\<rparr>) (g i)) k = proxyId (the (g k))"
  "b_val (\<lambda>i. map_option (\<lambda>b. b\<lparr>stabbingCount := f b\<rparr>) (g i)) k = b_value (the (g k))"
  "b_low (\<lambda>i. map_option (\<lambda>b. b\<lparr>stabbingCount := f b\<rparr>) (g i)) k = IsLower (the (g k))"
  by (cases "g k"; simp add: b_pid_def b_val_def b_low_def IsLower_def)+

lemma ins_bounds_shift:
  assumes "0 \<le> i" "i < bc" "li \<le> ui"
  shows "b_pid (ins_bounds B bc li ui lv uv pid) (ins_shift li ui i) = b_pid B i"
    and "b_val (ins_bounds B bc li ui lv uv pid) (ins_shift li ui i) = b_val B i"
    and "b_low (ins_bounds B bc li ui lv uv pid) (ins_shift li ui i) = b_low B i"
    and "B i \<noteq> None \<Longrightarrow> b_sc (ins_bounds B bc li ui lv uv pid) (ins_shift li ui i) =
           b_sc B i + (if li \<le> i \<and> i < ui then 1 else 0)"
    and "B i \<noteq> None \<Longrightarrow> ins_bounds B bc li ui lv uv pid (ins_shift li ui i) \<noteq> None"
  using assms
  by (cases "B i"; auto simp: ins_bounds_def ins_shift_def b_pid_def b_val_def b_low_def b_sc_def IsLower_def)+

lemma ins_bounds_lower:
  shows "b_pid (ins_bounds B bc li ui lv uv pid) li = pid"
    and "b_val (ins_bounds B bc li ui lv uv pid) li = lv"
    and "b_low (ins_bounds B bc li ui lv uv pid) li = even lv"
    and "b_sc (ins_bounds B bc li ui lv uv pid) li = (if li = 0 then 0 else b_sc B (li - 1)) + 1"
    and "ins_bounds B bc li ui lv uv pid li \<noteq> None"
  by (simp_all add: ins_bounds_def b_pid_def b_val_def b_low_def b_sc_def IsLower_even)

lemma ins_bounds_upper:
  assumes "li \<le> ui"
  shows "b_pid (ins_bounds B bc li ui lv uv pid) (ui + 1) = pid"
    and "b_val (ins_bounds B bc li ui lv uv pid) (ui + 1) = uv"
    and "b_low (ins_bounds B bc li ui lv uv pid) (ui + 1) = even uv"
    and "b_sc (ins_bounds B bc li ui lv uv pid) (ui + 1) = (if ui = 0 then 0 else b_sc B (ui - 1))"
    and "ins_bounds B bc li ui lv uv pid (ui + 1) \<noteq> None"
  using assms
  by (simp_all add: ins_bounds_def b_pid_def b_val_def b_low_def b_sc_def IsLower_even)

lemma ins_shift_cases:
  assumes "0 \<le> j \<and> j < bc + 2" "0 \<le> li" "li \<le> ui" "ui \<le> bc"
  obtains (lower) "j = li" | (upper) "j = ui + 1"
    | (old) i where "0 \<le> i" "i < bc" "j = ins_shift li ui i"
proof -
  consider "j < li" | "j = li" | "li < j \<and> j \<le> ui" | "j = ui + 1" | "ui + 1 < j" by linarith
  then show ?thesis
  proof cases
    case 1
    then have "j = ins_shift li ui j" "0 \<le> j" "j < bc" using assms by (auto simp: ins_shift_def)
    then show ?thesis using old by blast
  next
    case 2
    then show ?thesis using lower by blast
  next
    case 3
    then have "j = ins_shift li ui (j - 1)" "0 \<le> j - 1" "j - 1 < bc"
      using assms by (auto simp: ins_shift_def)
    then show ?thesis using old by blast
  next
    case 4
    then show ?thesis using upper by blast
  next
    case 5
    then have "j = ins_shift li ui (j - 2)" "0 \<le> j - 2" "j - 2 < bc"
      using assms by (auto simp: ins_shift_def)
    then show ?thesis using old by blast
  qed
qed

lemma ins_shift_mono: "li \<le> ui \<Longrightarrow> i < i' \<Longrightarrow> ins_shift li ui i < ins_shift li ui i'"
  by (auto simp: ins_shift_def)

lemma ins_shift_range:
  "0 \<le> li \<Longrightarrow> li \<le> ui \<Longrightarrow> ui \<le> bc \<Longrightarrow> 0 \<le> i \<Longrightarrow> i < bc \<Longrightarrow>
     0 \<le> ins_shift li ui i \<and> ins_shift li ui i < bc + 2 \<and>
     ins_shift li ui i \<noteq> li \<and> ins_shift li ui i \<noteq> ui + 1"
  by (auto simp: ins_shift_def)

lemma ins_index_ok:
  assumes ok: "index_ok B lo up L bc"
    and r: "0 \<le> li" "li \<le> ui" "ui \<le> bc"
    and pid: "pid \<notin> L" and par: "even lv" "odd uv"
  shows "index_ok (ins_bounds B bc li ui lv uv pid)
           (\<lambda>p. if p = pid then li else if p \<in> L then ins_shift li ui (lo p) else lo p)
           (\<lambda>p. if p = pid then ui + 1 else if p \<in> L then ins_shift li ui (up p) else up p)
           (insert pid L) (bc + 2)"
proof -
  let ?B = "ins_bounds B bc li ui lv uv pid"
  let ?lo = "\<lambda>p. if p = pid then li else if p \<in> L then ins_shift li ui (lo p) else lo p"
  let ?up = "\<lambda>p. if p = pid then ui + 1 else if p \<in> L then ins_shift li ui (up p) else up p"
  have hB: "B i \<noteq> None" if "0 \<le> i" "i < bc" for i
    using ok that by (auto simp: index_ok_def holds_upto_def)
  have a: "holds_upto ?B (bc + 2)"
    unfolding holds_upto_def
  proof (intro allI impI)
    fix j assume j: "0 \<le> j \<and> j < bc + 2"
    from j r show "?B j \<noteq> None"
    proof (cases rule: ins_shift_cases)
      case lower
      then show ?thesis by (simp add: ins_bounds_lower)
    next
      case upper
      then show ?thesis using r by (simp add: ins_bounds_upper)
    next
      case (old i)
      then show ?thesis using ins_bounds_shift(5) [OF old(1,2) r(2)] hB by simp
    qed
  qed
  have b: "b_pid ?B j \<in> insert pid L \<and>
        (if b_low ?B j then ?lo (b_pid ?B j) = j else ?up (b_pid ?B j) = j)"
    if j: "0 \<le> j \<and> j < bc + 2" for j
    using j r
  proof (cases rule: ins_shift_cases)
    case lower
    then show ?thesis using par by (simp add: ins_bounds_lower)
  next
    case upper
    then show ?thesis using par r by (simp add: ins_bounds_upper)
  next
    case (old i)
    have inL: "b_pid B i \<in> L" using ok old by (auto simp: index_ok_def)
    then have ne: "b_pid B i \<noteq> pid" using pid by auto
    show ?thesis
    proof (cases "b_low B i")
      case True
      then have "lo (b_pid B i) = i" using index_ok_lowD [OF ok old(1,2)] by simp
      then show ?thesis using True inL ne old(3) by (simp add: ins_bounds_shift [OF old(1,2) r(2)])
    next
      case False
      then have "up (b_pid B i) = i" using index_ok_upD [OF ok old(1,2)] by simp
      then show ?thesis using False inL ne old(3) by (simp add: ins_bounds_shift [OF old(1,2) r(2)])
    qed
  qed
  have c: "0 \<le> ?lo p \<and> ?lo p < ?up p \<and> ?up p < bc + 2 \<and>
        b_pid ?B (?lo p) = p \<and> b_low ?B (?lo p) \<and> b_pid ?B (?up p) = p \<and> \<not> b_low ?B (?up p)"
    if p: "p \<in> insert pid L" for p
  proof (cases "p = pid")
    case True
    then show ?thesis using r par by (simp add: ins_bounds_lower ins_bounds_upper)
  next
    case False
    then have pL: "p \<in> L" using p by simp
    note d = index_ok_liveD [OF ok pL]
    have l: "0 \<le> lo p" "lo p < bc" and u: "0 \<le> up p" "up p < bc" using d by auto
    show ?thesis
      using False pL d ins_shift_mono [OF r(2), of "lo p" "up p"]
        ins_shift_range [OF r l] ins_shift_range [OF r u]
      by (simp add: ins_bounds_shift [OF l r(2)] ins_bounds_shift [OF u r(2)])
  qed
  show ?thesis unfolding index_ok_def using a b c by blast
qed

lemma stab_okD:
  "stab_ok B bc \<Longrightarrow> 0 \<le> i \<Longrightarrow> i < bc \<Longrightarrow>
     b_sc B i = (if i = 0 then 0 else b_sc B (i - 1)) + (if b_low B i then 1 else - 1)"
  by (simp add: stab_ok_def)

lemma ins_stab_ok:
  assumes st: "stab_ok B bc" and h: "holds_upto B bc"
    and r: "0 \<le> li" "li \<le> ui" "ui \<le> bc" and par: "even lv" "odd uv"
  shows "stab_ok (ins_bounds B bc li ui lv uv pid) (bc + 2)"
  unfolding stab_ok_def
proof (intro allI impI)
  let ?B = "ins_bounds B bc li ui lv uv pid"
  fix j assume j: "0 \<le> j \<and> j < bc + 2"
  have hB: "\<exists>b. B i = Some b" if "0 \<le> i" "i < bc" for i
    using holds_uptoD [OF h that] .
  consider (a) "j < li" | (b) "j = li" | (c) "j = li + 1" "j \<le> ui" | (d) "li + 1 < j" "j \<le> ui"
    | (e) "j = ui + 1" | (f) "j = ui + 2" | (g) "ui + 2 < j" by linarith
  then show "b_sc ?B j = (if j = 0 then 0 else b_sc ?B (j - 1)) + (if b_low ?B j then 1 else - 1)"
  proof cases
    case a
    then have "j < bc" using r by simp
    then have "b_sc B j = (if j = 0 then 0 else b_sc B (j - 1)) + (if b_low B j then 1 else - 1)"
      using stab_okD [OF st] j by simp
    then show ?thesis using a by (simp add: ins_bounds_def b_sc_def b_low_def)
  next
    case b
    then show ?thesis using par by (simp add: ins_bounds_def b_sc_def b_low_def IsLower_even)
  next
    case c
    then have li: "li < bc" using r by simp
    obtain bl where bl: "B li = Some bl" using hB [OF r(1) li] by auto
    have "b_sc B li = (if li = 0 then 0 else b_sc B (li - 1)) + (if b_low B li then 1 else - 1)"
      using stab_okD [OF st r(1) li] .
    then show ?thesis using c bl r by (simp add: ins_bounds_def b_sc_def b_low_def IsLower_def)
  next
    case d
    then have k: "0 \<le> j - 1" "j - 1 < bc" "0 \<le> j - 2" "j - 2 < bc" "j - 1 \<noteq> 0" using r by auto
    obtain b1 where b1: "B (j - 1) = Some b1" using hB [OF k(1,2)] by auto
    obtain b2 where b2: "B (j - 2) = Some b2" using hB [OF k(3,4)] by auto
    have "b_sc B (j - 1) = b_sc B (j - 1 - 1) + (if b_low B (j - 1) then 1 else - 1)"
      using stab_okD [OF st k(1,2)] k(5) by simp
    then show ?thesis using d b1 b2 r by (simp add: ins_bounds_def b_sc_def b_low_def IsLower_def)
  next
    case e
    show ?thesis
    proof (cases "ui = li")
      case True
      then show ?thesis using e par r by (simp add: ins_bounds_def b_sc_def b_low_def IsLower_even)
    next
      case False
      then have k: "0 \<le> ui - 1" "ui - 1 < bc" "ui \<noteq> 0" using r by auto
      obtain b1 where b1: "B (ui - 1) = Some b1" using hB [OF k(1,2)] by auto
      show ?thesis using e par r False b1 k
        by (simp add: ins_bounds_def b_sc_def b_low_def IsLower_even)
    qed
  next
    case f
    then have k: "0 \<le> ui" "ui < bc" using r j by auto
    obtain b1 where b1: "B ui = Some b1" using hB [OF k] by auto
    have "b_sc B ui = (if ui = 0 then 0 else b_sc B (ui - 1)) + (if b_low B ui then 1 else - 1)"
      using stab_okD [OF st k] .
    then show ?thesis using f b1 r j by (simp add: ins_bounds_def b_sc_def b_low_def IsLower_def)
  next
    case g
    then have k: "0 \<le> j - 2" "j - 2 < bc" "j - 2 \<noteq> 0" using r j by auto
    have "b_sc B (j - 2) = b_sc B (j - 2 - 1) + (if b_low B (j - 2) then 1 else - 1)"
      using stab_okD [OF st k(1,2)] k(3) by simp
    then show ?thesis using g r j by (simp add: ins_bounds_def b_sc_def b_low_def IsLower_def)
  qed
qed

lemma ins_sorted:
  assumes so: "sorted_upto B bc"
    and r: "0 \<le> li" "li \<le> ui" "ui \<le> bc" and lu: "lv \<le> uv"
    and l1: "\<forall>i. 0 \<le> i \<and> i < li \<longrightarrow> b_val B i \<le> lv"
    and l2: "\<forall>i. li \<le> i \<and> i < bc \<longrightarrow> lv \<le> b_val B i"
    and u1: "\<forall>i. 0 \<le> i \<and> i < ui \<longrightarrow> b_val B i \<le> uv"
    and u2: "\<forall>i. ui \<le> i \<and> i < bc \<longrightarrow> uv \<le> b_val B i"
  shows "sorted_upto (ins_bounds B bc li ui lv uv pid) (bc + 2)"
  unfolding sorted_upto_def
proof (intro allI impI)
  let ?B = "ins_bounds B bc li ui lv uv pid"
  fix j j' assume jj: "0 \<le> j \<and> j \<le> j' \<and> j' < bc + 2"
  then have j: "0 \<le> j \<and> j < bc + 2" and j': "0 \<le> j' \<and> j' < bc + 2" by auto
  from j r show "b_val ?B j \<le> b_val ?B j'"
  proof (cases rule: ins_shift_cases)
    case lower
    from j' r show ?thesis
    proof (cases rule: ins_shift_cases)
      case lower
      then show ?thesis using \<open>j = li\<close> by simp
    next
      case upper
      then show ?thesis using \<open>j = li\<close> lu r by (simp add: ins_bounds_lower ins_bounds_upper)
    next
      case (old i')
      have "li \<le> i'" using old(3) jj \<open>j = li\<close> by (auto simp: ins_shift_def split: if_splits)
      then have "lv \<le> b_val B i'" using l2 old by simp
      then show ?thesis using \<open>j = li\<close> old
        by (simp add: ins_bounds_lower ins_bounds_shift [OF old(1,2) r(2)])
    qed
  next
    case upper
    from j' r show ?thesis
    proof (cases rule: ins_shift_cases)
      case lower
      then show ?thesis using \<open>j = ui + 1\<close> jj r by simp
    next
      case upper
      then show ?thesis using \<open>j = ui + 1\<close> by simp
    next
      case (old i')
      have "ui \<le> i'" using old(3) jj \<open>j = ui + 1\<close> by (auto simp: ins_shift_def split: if_splits)
      then have "uv \<le> b_val B i'" using u2 old by simp
      then show ?thesis using \<open>j = ui + 1\<close> old r
        by (simp add: ins_bounds_upper ins_bounds_shift [OF old(1,2) r(2)])
    qed
  next
    case (old i)
    note oi = old
    from j' r show ?thesis
    proof (cases rule: ins_shift_cases)
      case lower
      have "i < li" using oi(3) jj lower by (auto simp: ins_shift_def split: if_splits)
      then have "b_val B i \<le> lv" using l1 oi by simp
      then show ?thesis using lower oi
        by (simp add: ins_bounds_lower ins_bounds_shift [OF oi(1,2) r(2)])
    next
      case upper
      have "i < ui" using oi(3) jj upper r by (auto simp: ins_shift_def split: if_splits)
      then have "b_val B i \<le> uv" using u1 oi by simp
      then show ?thesis using upper oi r
        by (simp add: ins_bounds_upper ins_bounds_shift [OF oi(1,2) r(2)])
    next
      case (old i')
      have "i \<le> i'"
      proof (rule ccontr)
        assume "\<not> i \<le> i'"
        then have "ins_shift li ui i' < ins_shift li ui i" using ins_shift_mono [OF r(2), of i' i] by simp
        then show False using oi(3) old(3) jj by simp
      qed
      then have "b_val B i \<le> b_val B i'" using so oi old by (auto simp: sorted_upto_def)
      then show ?thesis using oi(3) old(3)
        by (simp add: ins_bounds_shift [OF oi(1,2) r(2)] ins_bounds_shift [OF old(1,2) r(2)])
    qed
  qed
qed

lemma insert_chain:
  fixes B :: "int \<rightharpoonup> Bound"
  assumes r: "0 \<le> lq" "lq \<le> uq" "uq \<le> bc" and h: "holds_upto B (bc + 2)"
  shows "do {
       bounds1 \<leftarrow> memmove B (uq + 2) uq (bc - uq);
       bounds2 \<leftarrow> memmove bounds1 (lq + 1) lq (uq - lq);
       let upperIndex = uq + 1;
       bl \<leftarrow> bounds2 lq;
       let bounds3 = bounds2(lq \<mapsto> bl\<lparr>b_value := lv, proxyId := pid\<rparr>);
       bu \<leftarrow> bounds3 upperIndex;
       let bounds4 = bounds3(upperIndex \<mapsto> bu\<lparr>b_value := uv, proxyId := pid\<rparr>);
       bl' \<leftarrow> bounds4 lq;
       c \<leftarrow> (if lq = 0 then Some 0 else map_option stabbingCount (bounds4 (lq - 1)));
       let bounds5 = bounds4(lq \<mapsto> bl'\<lparr>stabbingCount := c\<rparr>);
       bp \<leftarrow> bounds5 (upperIndex - 1);
       bu' \<leftarrow> bounds5 upperIndex;
       let bounds6 = bounds5(upperIndex \<mapsto> bu'\<lparr>stabbingCount := stabbingCount bp\<rparr>);
       bounds7 \<leftarrow> adjust_stabbing bounds6 1 lq upperIndex;
       f bounds7
     } = f (ins_bounds B bc lq uq lv uv pid)"
proof -
  have hB: "\<exists>b. B i = Some b" if "0 \<le> i" "i < bc + 2" for i
    using holds_uptoD [OF h that] .
  define B1 where "B1 = (\<lambda>i. if uq + 2 \<le> i \<and> i < uq + 2 + (bc - uq) then B (i - (uq + 2) + uq) else B i)"
  have m1: "memmove B (uq + 2) uq (bc - uq) = Some B1"
    unfolding B1_def using h r
    by (intro memmove_result) (auto simp: holds_between_def holds_upto_def)
  have hB1: "\<exists>b. B1 i = Some b" if "0 \<le> i" "i < bc + 2" for i
    using hB [of i] hB [of "i - 2"] that r by (auto simp: B1_def)
  define B2 where "B2 = (\<lambda>i. if lq + 1 \<le> i \<and> i < lq + 1 + (uq - lq) then B1 (i - (lq + 1) + lq) else B1 i)"
  have m2: "memmove B1 (lq + 1) lq (uq - lq) = Some B2"
    unfolding B2_def
  proof (intro memmove_result)
    show "holds_between B1 lq (lq + (uq - lq))"
      unfolding holds_between_def
    proof (intro allI impI)
      fix i assume "lq \<le> i \<and> i < lq + (uq - lq)"
      then have "0 \<le> i" "i < bc + 2" using r by auto
      then show "B1 i \<noteq> None" using hB1 by auto
    qed
    show "holds_between B1 (lq + 1) (lq + 1 + (uq - lq))"
      unfolding holds_between_def
    proof (intro allI impI)
      fix i assume "lq + 1 \<le> i \<and> i < lq + 1 + (uq - lq)"
      then have "0 \<le> i" "i < bc + 2" using r by auto
      then show "B1 i \<noteq> None" using hB1 by auto
    qed
  qed
  have hB2: "\<exists>b. B2 i = Some b" if "0 \<le> i" "i < bc + 2" for i
    using hB1 [of i] hB1 [of "i - 1"] that r by (auto simp: B2_def)
  obtain bl where bl: "B2 lq = Some bl" using hB2 [of lq] r by auto
  define B3 where "B3 = B2(lq \<mapsto> bl\<lparr>b_value := lv, proxyId := pid\<rparr>)"
  obtain bu where bu: "B3 (uq + 1) = Some bu" using hB2 [of "uq + 1"] r by (auto simp: B3_def)
  define B4 where "B4 = B3(uq + 1 \<mapsto> bu\<lparr>b_value := uv, proxyId := pid\<rparr>)"
  have bl': "B4 lq = Some (bl\<lparr>b_value := lv, proxyId := pid\<rparr>)" using r by (simp add: B4_def B3_def)
  define c where "c = (if lq = 0 then 0 else b_sc B (lq - 1))"
  have c: "(if lq = 0 then Some 0 else map_option stabbingCount (B4 (lq - 1))) = Some c"
  proof (cases "lq = 0")
    case True
    then show ?thesis by (simp add: c_def)
  next
    case False
    then obtain b where b: "B (lq - 1) = Some b" using hB [of "lq - 1"] r by auto
    have "B4 (lq - 1) = B (lq - 1)" using r by (simp add: B4_def B3_def B2_def B1_def)
    then show ?thesis using False b by (simp add: c_def b_sc_def)
  qed
  define B5 where "B5 = B4(lq \<mapsto> bl\<lparr>b_value := lv, proxyId := pid, stabbingCount := c\<rparr>)"
  obtain bp where bp: "B5 (uq + 1 - 1) = Some bp"
    and bps: "stabbingCount bp = (if uq = 0 then 0 else b_sc B (uq - 1))"
  proof (cases "uq = lq")
    case True
    then have "B5 (uq + 1 - 1) = Some (bl\<lparr>b_value := lv, proxyId := pid, stabbingCount := c\<rparr>)"
      by (simp add: B5_def)
    then show ?thesis using that True by (simp add: c_def)
  next
    case False
    then obtain b where b: "B (uq - 1) = Some b" using hB [of "uq - 1"] r by auto
    have "B5 (uq + 1 - 1) = B (uq - 1)" using r False by (simp add: B5_def B4_def B3_def B2_def B1_def)
    then show ?thesis using that False b r by (simp add: b_sc_def)
  qed
  have bu': "B5 (uq + 1) = Some (bu\<lparr>b_value := uv, proxyId := pid\<rparr>)" using r by (simp add: B5_def B4_def)
  define B6 where "B6 = B5(uq + 1 \<mapsto> bu\<lparr>b_value := uv, proxyId := pid, stabbingCount := stabbingCount bp\<rparr>)"
  have hB6: "holds_between B6 lq (uq + 1)"
    unfolding holds_between_def
  proof (intro allI impI)
    fix i assume "lq \<le> i \<and> i < uq + 1"
    then have "0 \<le> i" "i < bc + 2" using r by auto
    then show "B6 i \<noteq> None" using hB2 [of i] by (auto simp: B6_def B5_def B4_def B3_def)
  qed
  have m7: "adjust_stabbing B6 1 lq (uq + 1) =
      Some (\<lambda>i. if lq \<le> i \<and> i < uq + 1
               then map_option (\<lambda>b. b\<lparr>stabbingCount := stabbingCount b + 1\<rparr>) (B6 i)
               else B6 i)"
    by (rule adjust_stabbing_result [OF hB6])
  have fin: "(\<lambda>i. if lq \<le> i \<and> i < uq + 1
               then map_option (\<lambda>b. b\<lparr>stabbingCount := stabbingCount b + 1\<rparr>) (B6 i)
               else B6 i) = ins_bounds B bc lq uq lv uv pid"
  proof (rule ext)
    fix i
    consider "i < lq" | "i = lq" | "lq < i \<and> i \<le> uq" | "i = uq + 1" | "uq + 1 < i \<and> i < bc + 2" | "bc + 2 \<le> i"
      by linarith
    then show "(if lq \<le> i \<and> i < uq + 1
               then map_option (\<lambda>b. b\<lparr>stabbingCount := stabbingCount b + 1\<rparr>) (B6 i)
               else B6 i) = ins_bounds B bc lq uq lv uv pid i"
    proof cases
      case 1
      then show ?thesis using r by (simp add: ins_bounds_def B6_def B5_def B4_def B3_def B2_def B1_def)
    next
      case 2
      then show ?thesis using r by (simp add: ins_bounds_def B6_def B5_def c_def)
    next
      case 3
      then show ?thesis using r by (simp add: ins_bounds_def B6_def B5_def B4_def B3_def B2_def B1_def)
    next
      case 4
      then show ?thesis using r bps by (simp add: ins_bounds_def B6_def)
    next
      case 5
      then show ?thesis using r by (simp add: ins_bounds_def B6_def B5_def B4_def B3_def B2_def B1_def)
    next
      case 6
      then show ?thesis using r by (simp add: ins_bounds_def B6_def B5_def B4_def B3_def B2_def B1_def)
    qed
  qed
  note u = B3_def B4_def B5_def B6_def
  show ?thesis
    by (simp only: m1 m2 bind.bind_lunit Let_def bl bu [unfolded u] bl' [unfolded u]
        c [unfolded u] bp [unfolded u] bu' [unfolded u] m7 [unfolded u] fin [unfolded u])
qed

lemma index_ok_cong:
  assumes "\<forall>p\<in>L. lo p = lo' p \<and> up p = up' p"
  shows "index_ok B lo up L bc = index_ok B lo' up' L bc"
  unfolding index_ok_def using assms by (intro arg_cong2 [where f = "(\<and>)"] refl) (auto cong: if_cong)

lemma CreateProxy_axis_inv:
  assumes ok: "index_ok (m_bounds s axis) (lb_of s axis) (ub_of s axis) L bc"
    and st: "stab_ok (m_bounds s axis) bc" and so: "sorted_upto (m_bounds s axis) bc"
    and bc: "0 \<le> bc" and h: "holds_upto (m_bounds s axis) (bc + 2)"
    and pool: "\<forall>p\<in>L. proxyPool s p \<noteq> None"
    and pid: "pid \<notin> L" "proxyPool s pid \<noteq> None"
    and v: "lowerValues vals axis < upperValues vals axis" "even (lowerValues vals axis)"
      "odd (upperValues vals axis)"
  shows "\<exists>s1 lq uq.
      mark_all s (query_marks (m_bounds s axis) (ub_of s axis) lq uq) = Some s1 \<and>
      0 \<le> lq \<and> lq \<le> uq \<and> uq \<le> bc \<and>
      CreateProxy_axis s pid bc vals axis =
        Some (s1\<lparr>m_bounds := (m_bounds s1)
                  (axis := ins_bounds (m_bounds s axis) bc lq uq (lowerValues vals axis)
                             (upperValues vals axis) pid),
                proxyPool := (\<lambda>p. map_option
                    (set_axis axis (ins_lo L pid lq lq uq (lb_of s axis) p)
                       (ins_lo L pid (uq + 1) lq uq (ub_of s axis) p))
                    (proxyPool s1 p))\<rparr>) \<and>
      index_ok (ins_bounds (m_bounds s axis) bc lq uq (lowerValues vals axis) (upperValues vals axis) pid)
        (ins_lo L pid lq lq uq (lb_of s axis)) (ins_lo L pid (uq + 1) lq uq (ub_of s axis))
        (insert pid L) (bc + 2) \<and>
      stab_ok (ins_bounds (m_bounds s axis) bc lq uq (lowerValues vals axis) (upperValues vals axis) pid)
        (bc + 2) \<and>
      sorted_upto (ins_bounds (m_bounds s axis) bc lq uq (lowerValues vals axis) (upperValues vals axis) pid)
        (bc + 2)"
proof -
  define B where "B = m_bounds s axis"
  define lv where "lv = lowerValues vals axis"
  define uv where "uv = upperValues vals axis"
  note ok' = ok [folded B_def]
  have hb: "holds_upto B bc" using ok' by (simp add: index_ok_def)
  obtain s1 lq uq where q: "Query s lv uv B bc axis = Some (s1, lq, uq)"
    and bl: "BinarySearch B bc lv = Some lq" and bu: "BinarySearch B bc uv = Some uq"
    and ma: "mark_all s (query_marks B (ub_of s axis) lq uq) = Some s1"
    using Query_result [OF ok' st [folded B_def] so [folded B_def] bc, of s axis lv uv] pool
    by auto
  note mr = mark_all_marks_rel [OF ma]
  obtain r where r: "BinarySearch B bc lv = Some r" "0 \<le> r" "r \<le> bc"
     "\<forall>i. 0 \<le> i \<and> i < r \<longrightarrow> b_val B i \<le> lv" "\<forall>i. r \<le> i \<and> i < bc \<longrightarrow> lv \<le> b_val B i"
    using BinarySearch_weak [OF bc hb so [folded B_def], of lv] by auto
  obtain r' where r': "BinarySearch B bc uv = Some r'" "0 \<le> r'" "r' \<le> bc"
     "\<forall>i. 0 \<le> i \<and> i < r' \<longrightarrow> b_val B i \<le> uv" "\<forall>i. r' \<le> i \<and> i < bc \<longrightarrow> uv \<le> b_val B i"
    using BinarySearch_weak [OF bc hb so [folded B_def], of uv] by auto
  have e: "r = lq" "r' = uq" using r(1) r'(1) bl bu by auto
  have rg: "0 \<le> lq" "lq \<le> uq" "uq \<le> bc"
    using r(2) r'(3) e BinarySearch_order [OF bl bu bc hb so [folded B_def] v(1) [folded lv_def uv_def]]
    by auto
  define B7 where "B7 = ins_bounds B bc lq uq lv uv pid"
  define Ls where "Ls = ins_lo L pid lq lq uq (lb_of s axis)"
  define Us where "Us = ins_lo L pid (uq + 1) lq uq (ub_of s axis)"
  have iok: "index_ok B7 Ls Us (insert pid L) (bc + 2)"
    unfolding B7_def Ls_def Us_def ins_lo_def
    by (rule ins_index_ok [OF ok' rg pid(1) v(2,3) [folded lv_def uv_def]])
  have ist: "stab_ok B7 (bc + 2)"
    unfolding B7_def by (rule ins_stab_ok [OF st [folded B_def] hb rg v(2,3) [folded lv_def uv_def]])
  have iso: "sorted_upto B7 (bc + 2)"
    unfolding B7_def
    using v(1) [folded lv_def uv_def] r(4,5) r'(4,5) e
    by (intro ins_sorted [OF so [folded B_def] rg]) auto
  have b1: "m_bounds s1 = m_bounds s" using mr by (simp add: marks_rel_def)
  have lb1: "lb_of s1 axis = lb_of s axis" and ub1: "ub_of s1 axis = ub_of s axis"
    using marks_rel_lb [OF mr] marks_rel_ub [OF mr] by auto
  have def1: "proxyPool s1 p \<noteq> None" if "p \<in> insert pid L" for p
    using that pool pid(2) marks_rel_defined [OF mr] by auto
  have f1: "holds_between B7 lq (bc + 2)"
    using iok rg by (auto simp: index_ok_def holds_upto_def holds_between_def)
  have f2: "\<forall>i. lq \<le> i \<and> i < bc + 2 \<longrightarrow> proxyPool s1 (b_pid B7 i) \<noteq> None"
  proof (intro allI impI)
    fix i assume "lq \<le> i \<and> i < bc + 2"
    then have "b_pid B7 i \<in> insert pid L" using iok rg by (auto simp: index_ok_def)
    then show "proxyPool s1 (b_pid B7 i) \<noteq> None" by (rule def1)
  qed
  have f3: "\<forall>i. lq \<le> i \<and> i < bc + 2 \<longrightarrow>
           (if b_low B7 i then Ls (b_pid B7 i) = i else Us (b_pid B7 i) = i)"
    using iok rg by (auto simp: index_ok_def)
  have f4: "\<forall>p x. proxyPool s1 p = Some x \<longrightarrow>
           ((\<forall>i. lq \<le> i \<and> i < bc + 2 \<and> b_low B7 i \<longrightarrow> b_pid B7 i \<noteq> p) \<longrightarrow>
              lowerBounds x axis = Ls p) \<and>
           ((\<forall>i. lq \<le> i \<and> i < bc + 2 \<and> \<not> b_low B7 i \<longrightarrow> b_pid B7 i \<noteq> p) \<longrightarrow>
              upperBounds x axis = Us p)"
  proof (intro allI impI conjI)
    fix p x
    assume x: "proxyPool s1 p = Some x"
      and nh: "\<forall>i. lq \<le> i \<and> i < bc + 2 \<and> b_low B7 i \<longrightarrow> b_pid B7 i \<noteq> p"
    have "lb_of s1 axis p = lb_of s axis p" using lb1 by simp
    then have lx: "lowerBounds x axis = lb_of s axis p" using x by (simp add: lb_of_def)
    show "lowerBounds x axis = Ls p"
    proof (cases "p \<in> insert pid L")
      case False
      then show ?thesis using lx by (simp add: Ls_def ins_lo_def)
    next
      case True
      note d = index_ok_liveD [OF iok True]
      have "\<not> lq \<le> Ls p" using nh d by auto
      then have lt: "Ls p < lq" by simp
      then have "p \<noteq> pid" by (auto simp: Ls_def ins_lo_def)
      then have "Ls p = ins_shift lq uq (lb_of s axis p)" using True by (simp add: Ls_def ins_lo_def)
      then show ?thesis using lt lx by (auto simp: ins_shift_def split: if_splits)
    qed
  next
    fix p x
    assume x: "proxyPool s1 p = Some x"
      and nh: "\<forall>i. lq \<le> i \<and> i < bc + 2 \<and> \<not> b_low B7 i \<longrightarrow> b_pid B7 i \<noteq> p"
    have "ub_of s1 axis p = ub_of s axis p" using ub1 by simp
    then have ux: "upperBounds x axis = ub_of s axis p" using x by (simp add: ub_of_def)
    show "upperBounds x axis = Us p"
    proof (cases "p \<in> insert pid L")
      case False
      then show ?thesis using ux by (simp add: Us_def ins_lo_def)
    next
      case True
      note d = index_ok_liveD [OF iok True]
      have "\<not> lq \<le> Us p" using nh d by auto
      then have lt: "Us p < lq" by simp
      then have "p \<noteq> pid" using rg by (auto simp: Us_def ins_lo_def)
      then have "Us p = ins_shift lq uq (ub_of s axis p)" using True by (simp add: Us_def ins_lo_def)
      then show ?thesis using lt ux by (auto simp: ins_shift_def split: if_splits)
    qed
  qed
  note fi = fix_indices_result [OF f1 f2 f3 f4]
  have h1: "holds_upto (m_bounds s1 axis) (bc + 2)" using h b1 by simp
  have "CreateProxy_axis s pid bc vals axis =
        Some (s1\<lparr>m_bounds := (m_bounds s1)(axis := B7),
                proxyPool := (\<lambda>p. map_option (set_axis axis (Ls p) (Us p)) (proxyPool s1 p))\<rparr>)"
    unfolding CreateProxy_axis_def lv_def [symmetric] uv_def [symmetric] B_def [symmetric] q
    apply (simp only: bind.bind_lunit prod.case)
    apply (subst insert_chain [OF rg h1])
    apply (simp only: b1 B_def [symmetric] B7_def [symmetric] fi bind.bind_lunit)
    done
  then show ?thesis
    using ma rg iok ist iso unfolding B7_def Ls_def Us_def B_def lv_def uv_def by blast
qed

section \<open>CreateProxy preserves the invariant\<close>

lemma IncrementOverlapCount_stamps:
  assumes "IncrementOverlapCount s p = Some s'" "stamps_le s"
  shows "stamps_le s'"
  using assms
  by (auto simp: IncrementOverlapCount_def stamps_le_def split: option.splits if_splits)

lemma mark_all_stamps: "mark_all s ps = Some s' \<Longrightarrow> stamps_le s \<Longrightarrow> stamps_le s'"
proof (induction ps arbitrary: s)
  case Nil
  then show ?case by simp
next
  case (Cons p ps)
  then obtain s1 where s1: "IncrementOverlapCount s p = Some s1" "mark_all s1 ps = Some s'"
    by (auto split: option.splits)
  show ?case using Cons.IH [OF s1(2) IncrementOverlapCount_stamps [OF s1(1) Cons.prems(2)]] .
qed

lemma free_chain_cong:
  assumes "\<forall>p\<in>set F. rel_option (\<lambda>x x'. next x' = next x) (pool p) (pool' p)"
  shows "free_chain pool' h F e = free_chain pool h F e"
  using assms
proof (induction F arbitrary: h)
  case Nil
  show ?case by simp
next
  case (Cons p F)
  have r: "rel_option (\<lambda>x x'. next x' = next x) (pool p) (pool' p)" using Cons.prems by simp
  have ih: "free_chain pool' h' F e = free_chain pool h' F e" for h'
    using Cons.prems by (intro Cons.IH) simp
  show ?case using r ih by (cases "pool p"; cases "pool' p") auto
qed

lemma ins_bounds_defined:
  assumes "0 \<le> lq" "lq \<le> uq" "uq \<le> bc" "holds_upto B (bc + 2)"
  shows "(ins_bounds B bc lq uq lv uv pid i \<noteq> None) = (B i \<noteq> None)"
proof -
  have hB: "\<exists>b. B k = Some b" if "0 \<le> k" "k < bc + 2" for k
    using holds_uptoD [OF assms(4) that] .
  consider "i < lq" | "i = lq" | "lq < i \<and> i \<le> uq" | "i = uq + 1" | "uq + 1 < i \<and> i < bc + 2" | "bc + 2 \<le> i"
    by linarith
  then show ?thesis
  proof cases
    case 3
    then show ?thesis using hB [of i] hB [of "i - 1"] assms by (auto simp: ins_bounds_def)
  next
    case 5
    then show ?thesis using hB [of i] hB [of "i - 2"] assms by (auto simp: ins_bounds_def)
  qed (use hB [of i] assms in \<open>auto simp: ins_bounds_def\<close>)
qed

lemma lb_of_set_axis:
  assumes "proxyPool s' = (\<lambda>p. map_option (set_axis axis (l p) (u p)) (proxyPool s p))"
  shows "lb_of s' a p = (if a = axis \<and> proxyPool s p \<noteq> None then l p else lb_of s a p)"
    and "ub_of s' a p = (if a = axis \<and> proxyPool s p \<noteq> None then u p else ub_of s a p)"
  using assms by (cases "proxyPool s p"; auto simp: lb_of_def ub_of_def set_axis_def)+

lemma marks_rel_next:
  "marks_rel s s' \<Longrightarrow> rel_option (\<lambda>x x'. next x' = next x) (proxyPool s p) (proxyPool s' p)"
  unfolding marks_rel_def
  by (cases "proxyPool s p"; cases "proxyPool s' p")
     (auto simp: same_links_def dest!: spec [of _ p])

lemma CreateProxy_axis_step:
  assumes ok: "axis_ok s L bc axis" and bc: "0 \<le> bc"
    and h: "holds_upto (m_bounds s axis) (bc + 2)"
    and pool: "\<forall>p\<in>insert pid L. proxyPool s p \<noteq> None" and pid: "pid \<notin> L"
    and v: "lowerValues vals axis < upperValues vals axis" "even (lowerValues vals axis)"
      "odd (upperValues vals axis)"
  shows "\<exists>s'. CreateProxy_axis s pid bc vals axis = Some s' \<and>
           axis_ok s' (insert pid L) (bc + 2) axis \<and> axis_frame axis (insert pid L) s s'"
proof -
  have ok': "index_ok (m_bounds s axis) (lb_of s axis) (ub_of s axis) L bc"
    "stab_ok (m_bounds s axis) bc" "sorted_upto (m_bounds s axis) bc"
    using ok by (auto simp: axis_ok_def)
  have pool': "\<forall>p\<in>L. proxyPool s p \<noteq> None" "proxyPool s pid \<noteq> None" using pool by auto
  define lv where "lv = lowerValues vals axis"
  define uv where "uv = upperValues vals axis"
  obtain s1 lq uq where ma: "mark_all s (query_marks (m_bounds s axis) (ub_of s axis) lq uq) = Some s1"
    and rg: "0 \<le> lq" "lq \<le> uq" "uq \<le> bc"
    and cr: "CreateProxy_axis s pid bc vals axis =
        Some (s1\<lparr>m_bounds := (m_bounds s1)(axis := ins_bounds (m_bounds s axis) bc lq uq lv uv pid),
                proxyPool := (\<lambda>p. map_option
                    (set_axis axis (ins_lo L pid lq lq uq (lb_of s axis) p)
                       (ins_lo L pid (uq + 1) lq uq (ub_of s axis) p))
                    (proxyPool s1 p))\<rparr>)"
    and iok: "index_ok (ins_bounds (m_bounds s axis) bc lq uq lv uv pid)
        (ins_lo L pid lq lq uq (lb_of s axis)) (ins_lo L pid (uq + 1) lq uq (ub_of s axis))
        (insert pid L) (bc + 2)"
    and ist: "stab_ok (ins_bounds (m_bounds s axis) bc lq uq lv uv pid) (bc + 2)"
    and iso: "sorted_upto (ins_bounds (m_bounds s axis) bc lq uq lv uv pid) (bc + 2)"
    using CreateProxy_axis_inv [OF ok' bc h pool'(1) pid pool'(2) v] unfolding lv_def uv_def by blast
  define s' where "s' = s1\<lparr>m_bounds := (m_bounds s1)(axis := ins_bounds (m_bounds s axis) bc lq uq lv uv pid),
                proxyPool := (\<lambda>p. map_option
                    (set_axis axis (ins_lo L pid lq lq uq (lb_of s axis) p)
                       (ins_lo L pid (uq + 1) lq uq (ub_of s axis) p))
                    (proxyPool s1 p))\<rparr>"
  note mr = mark_all_marks_rel [OF ma]
  have pp: "proxyPool s' = (\<lambda>p. map_option
                    (set_axis axis (ins_lo L pid lq lq uq (lb_of s axis) p)
                       (ins_lo L pid (uq + 1) lq uq (ub_of s axis) p))
                    (proxyPool s1 p))" by (simp add: s'_def)
  note lbu = lb_of_set_axis [OF pp]
  have b1: "m_bounds s1 = m_bounds s" using mr by (simp add: marks_rel_def)
  have bs: "m_bounds s' axis = ins_bounds (m_bounds s axis) bc lq uq lv uv pid"
    by (simp add: s'_def)
  have d1: "proxyPool s1 p \<noteq> None" if "p \<in> insert pid L" for p
    using pool that marks_rel_defined [OF mr] by auto
  have "index_ok (m_bounds s' axis) (lb_of s' axis) (ub_of s' axis) (insert pid L) (bc + 2)"
    unfolding bs using iok d1
    by (subst index_ok_cong [where lo' = "ins_lo L pid lq lq uq (lb_of s axis)"
          and up' = "ins_lo L pid (uq + 1) lq uq (ub_of s axis)"]) (auto simp: lbu)
  then have A: "axis_ok s' (insert pid L) (bc + 2) axis"
    using ist iso by (simp add: axis_ok_def bs)
  have F1: "\<forall>a. a \<noteq> axis \<longrightarrow>
        m_bounds s' a = m_bounds s a \<and> lb_of s' a = lb_of s a \<and> ub_of s' a = ub_of s a"
    using b1 marks_rel_lb [OF mr] marks_rel_ub [OF mr]
    by (auto simp: fun_eq_iff lbu) (simp add: s'_def)
  have F2: "\<forall>i. (m_bounds s' axis i \<noteq> None) = (m_bounds s axis i \<noteq> None)"
    unfolding bs using ins_bounds_defined [OF rg h] by simp
  have F3: "\<forall>p. rel_option (\<lambda>x x'. next x' = next x) (proxyPool s p) (proxyPool s' p)"
  proof
    fix p
    have "rel_option (\<lambda>x x'. next x' = next x) (proxyPool s p) (proxyPool s1 p)"
      by (rule marks_rel_next [OF mr])
    then show "rel_option (\<lambda>x x'. next x' = next x) (proxyPool s p) (proxyPool s' p)"
      by (cases "proxyPool s p"; cases "proxyPool s1 p") (auto simp: pp set_axis_def)
  qed
  have F4: "\<forall>p. p \<notin> insert pid L \<longrightarrow> lb_of s' axis p = lb_of s axis p \<and> ub_of s' axis p = ub_of s axis p"
    using marks_rel_lb [OF mr] marks_rel_ub [OF mr] by (auto simp: lbu ins_lo_def)
  have F5: "stamps_le s \<longrightarrow> stamps_le s'"
  proof
    assume "stamps_le s"
    then have "stamps_le s1" using mark_all_stamps [OF ma] by simp
    moreover have "m_timeStamp s' = m_timeStamp s1" by (simp add: s'_def)
    ultimately show "stamps_le s'"
      unfolding stamps_le_def pp by (auto simp: set_axis_def)
  qed
  have F6: "m_timeStamp s' = m_timeStamp s \<and> m_freeProxy s' = m_freeProxy s \<and>
     m_proxyCount s' = m_proxyCount s \<and> m_worldAABB s' = m_worldAABB s \<and>
     m_quantizationFactor s' = m_quantizationFactor s"
    using mr by (simp add: s'_def marks_rel_def)
  have "axis_frame axis (insert pid L) s s'"
    unfolding axis_frame_def using F1 F2 F3 F4 F5 F6 by blast
  then show ?thesis using cr A unfolding s'_def by blast
qed

lemma axis_ok_cong:
  assumes "m_bounds s' axis = m_bounds s axis" "lb_of s' axis = lb_of s axis"
    "ub_of s' axis = ub_of s axis"
  shows "axis_ok s' L bc axis = axis_ok s L bc axis"
  using assms by (simp add: axis_ok_def)

lemma IncrementTimeStamp_frame:
  assumes d: "\<forall>p. proxyPool s p \<noteq> None \<longleftrightarrow> 0 \<le> p \<and> p < b2_maxProxies cfg"
  shows "\<exists>s'. IncrementTimeStamp cfg s = Some s' \<and>
           m_bounds s' = m_bounds s \<and> lb_of s' = lb_of s \<and> ub_of s' = ub_of s \<and>
           (\<forall>p. rel_option (\<lambda>x x'. next x' = next x) (proxyPool s p) (proxyPool s' p)) \<and>
           (stamps_le s \<longrightarrow> (\<forall>p x. proxyPool s' p = Some x \<longrightarrow> timeStamp x < m_timeStamp s')) \<and>
           m_freeProxy s' = m_freeProxy s \<and> m_proxyCount s' = m_proxyCount s \<and>
           m_queryResultCount s' = m_queryResultCount s \<and> m_worldAABB s' = m_worldAABB s \<and>
           m_quantizationFactor s' = m_quantizationFactor s \<and> m_pairManager s' = m_pairManager s \<and>
           m_queryResults s' = m_queryResults s"
proof (cases "m_timeStamp s = USHRT_MAX")
  case False
  have r: "rel_option (\<lambda>x x'. next x' = next x) (proxyPool s p) (proxyPool s p)" for p
    by (cases "proxyPool s p") auto
  show ?thesis using False r
    by (auto simp: IncrementTimeStamp_def lb_of_def ub_of_def fun_eq_iff stamps_le_def)
next
  case True
  have h: "\<forall>i. 0 \<le> i \<and> i < b2_maxProxies cfg \<longrightarrow> proxyPool s i \<noteq> None" using d by simp
  define pool' where "pool' = (\<lambda>i. if 0 \<le> i \<and> i < b2_maxProxies cfg
                      then map_option (\<lambda>p. p\<lparr>timeStamp := 0\<rparr>) (proxyPool s i) else proxyPool s i)"
  have e: "IncrementTimeStamp cfg s = Some (s\<lparr>proxyPool := pool', m_timeStamp := 1\<rparr>)"
    using True reset_timeStamps_result [OF h] by (simp add: IncrementTimeStamp_def pool'_def)
  have r: "rel_option (\<lambda>x x'. next x' = next x) (proxyPool s p) (pool' p)" for p
    by (cases "proxyPool s p") (auto simp: pool'_def)
  have l: "lowerBounds (the (pool' p)) = lowerBounds (the (proxyPool s p))"
    "upperBounds (the (pool' p)) = upperBounds (the (proxyPool s p))" for p
    by (cases "proxyPool s p"; auto simp: pool'_def)+
  have t: "timeStamp x < 1" if "pool' p = Some x" for p x
  proof -
    have "0 \<le> p \<and> p < b2_maxProxies cfg" using that d by (auto simp: pool'_def split: if_splits)
    then show ?thesis using that by (auto simp: pool'_def)
  qed
  show ?thesis unfolding e using r l t
    by (auto simp: lb_of_def ub_of_def fun_eq_iff)
qed

lemma rel_next_defined:
  "rel_option (\<lambda>x x'. next x' = next x) a b \<Longrightarrow> (b \<noteq> None) = (a \<noteq> None)"
  by (cases a; cases b) auto

lemma rel_next_trans:
  "rel_option (\<lambda>x x'. next x' = next x) a b \<Longrightarrow> rel_option (\<lambda>x x'. next x' = next x) b c \<Longrightarrow>
   rel_option (\<lambda>x x'. next x' = next x) a c"
  by (cases a; cases b; cases c) auto

lemma live_set_Cons:
  assumes "distinct (pid # F)" "0 \<le> pid" "pid < b2_maxProxies cfg"
  shows "live_set cfg F = insert pid (live_set cfg (pid # F))" "pid \<notin> live_set cfg (pid # F)"
  using assms by (auto simp: live_set_def)

lemma ComputeBounds_ordered:
  assumes f: "frame_ok s"
    and a: "vx (minVertex aabb) \<le> vx (maxVertex aabb)" "vy (minVertex aabb) \<le> vy (maxVertex aabb)"
    and ax: "axis = 0 \<or> axis = 1"
  shows "lowerValues (ComputeBounds s aabb) axis < upperValues (ComputeBounds s aabb) axis"
    and "even (lowerValues (ComputeBounds s aabb) axis)"
    and "odd (upperValues (ComputeBounds s aabb) axis)"
  using ComputeBounds_less [OF f a ax] ComputeBounds_parity [of s aabb axis] by auto

lemma CreateProxy_inv:
  assumes cfg: "cfg_ok cfg" and inv: "broadphase_inv cfg s (pid # F)"
    and a: "vx (minVertex aabb) \<le> vx (maxVertex aabb)" "vy (minVertex aabb) \<le> vy (maxVertex aabb)"
  shows "\<exists>s'. CreateProxy cfg s aabb ud = Some (s', pid) \<and> broadphase_inv cfg s' F \<and>
           m_proxyCount s' = m_proxyCount s + 1 \<and>
           (\<forall>p. rel_option (\<lambda>x x'. next x' = next x) (proxyPool s p) (proxyPool s' p))"
proof -
  define N where "N = b2_maxProxies cfg"
  define n where "n = m_proxyCount s"
  define L where "L = live_set cfg (pid # F)"
  have pd: "pool_dom cfg s" and n0: "0 \<le> n" and fo: "free_ok cfg s (pid # F)"
    and a0: "axis_ok s L (2 * n) 0" and a1: "axis_ok s L (2 * n) 1"
    and ts: "\<forall>p x. proxyPool s p = Some x \<longrightarrow> timeStamp x < m_timeStamp s"
    and fr: "frame_ok s"
    using inv by (auto simp: broadphase_inv_def n_def L_def)
  have fp: "m_freeProxy s = pid" and di: "distinct (pid # F)"
    and rg: "0 \<le> pid" "pid < N" and len: "int (length F) + 1 = N - n"
    and inF: "\<forall>p\<in>set F. 0 \<le> p \<and> p < N"
    using fo by (auto simp: free_ok_def N_def n_def)
  obtain x where x: "proxyPool s pid = Some x"
    and ch: "free_chain (proxyPool s) (next x) F (b2_nullProxy cfg)"
    using fo by (auto simp: free_ok_def split: option.splits)
  have dom: "proxyPool s p \<noteq> None \<longleftrightarrow> 0 \<le> p \<and> p < N" for p
    using pd by (simp add: pool_dom_def N_def)
  have bdom: "m_bounds s axis i \<noteq> None \<longleftrightarrow> 0 \<le> i \<and> i < 2 * N" if "axis = 0 \<or> axis = 1" for axis i
    using pd that unfolding pool_dom_def N_def by blast
  have L': "live_set cfg F = insert pid L" "pid \<notin> L"
    using live_set_Cons [OF di rg(1) rg(2) [unfolded N_def]] by (auto simp: L_def)
  have room: "2 * n + 2 \<le> 2 * N" using len by simp
  define s1 where "s1 = s\<lparr>m_freeProxy := GetNext x,
                  proxyPool := (proxyPool s)(pid \<mapsto> x\<lparr>overlapCount := 0, userData := ud\<rparr>)\<rparr>"
  define vals where "vals = ComputeBounds s1 aabb"
  have fr1: "frame_ok s1" using fr by (simp add: frame_ok_def s1_def)
  note v0 = ComputeBounds_ordered [OF fr1 a, of 0, folded vals_def, simplified]
  note v1 = ComputeBounds_ordered [OF fr1 a, of 1, folded vals_def, simplified]
  have lb1: "lb_of s1 = lb_of s" "ub_of s1 = ub_of s"
    using x by (auto simp: lb_of_def ub_of_def s1_def fun_eq_iff)
  have bs1: "m_bounds s1 = m_bounds s" by (simp add: s1_def)
  have dom1: "proxyPool s1 p \<noteq> None \<longleftrightarrow> 0 \<le> p \<and> p < N" for p
    using dom [of p] x rg by (auto simp: s1_def)
  have inL: "0 \<le> p \<and> p < N" if "p \<in> insert pid L" for p
    using that rg by (auto simp: L_def live_set_def N_def)
  have a10: "axis_ok s1 L (2 * n) 0" and a11: "axis_ok s1 L (2 * n) 1"
    using a0 a1 by (simp_all add: axis_ok_def lb1 bs1)
  have h10: "holds_upto (m_bounds s1 0) (2 * n + 2)"
    using bdom [of 0] room by (auto simp: holds_upto_def bs1)
  have p1: "\<forall>p\<in>insert pid L. proxyPool s1 p \<noteq> None" using inL dom1 by blast
  have bc: "0 \<le> 2 * n" using n0 by simp
  obtain s2 where s2: "CreateProxy_axis s1 pid (2 * n) vals 0 = Some s2"
    and a20: "axis_ok s2 (insert pid L) (2 * n + 2) 0"
    and f2: "axis_frame 0 (insert pid L) s1 s2"
    using CreateProxy_axis_step [OF a10 bc h10 p1 L'(2) v0] by blast
  have f2': "m_bounds s2 1 = m_bounds s1 1" "lb_of s2 1 = lb_of s1 1" "ub_of s2 1 = ub_of s1 1"
    using f2 by (auto simp: axis_frame_def)
  have a21: "axis_ok s2 L (2 * n) 1" using a11 axis_ok_cong [OF f2'] by simp
  have r2: "rel_option (\<lambda>x x'. next x' = next x) (proxyPool s1 p) (proxyPool s2 p)" for p
    using f2 by (simp add: axis_frame_def)
  have dom2: "proxyPool s2 p \<noteq> None \<longleftrightarrow> 0 \<le> p \<and> p < N" for p
    using rel_next_defined [OF r2 [of p]] dom1 [of p] by simp
  have h21: "holds_upto (m_bounds s2 1) (2 * n + 2)"
    using bdom [of 1] room by (auto simp: holds_upto_def bs1 f2')
  have p2: "\<forall>p\<in>insert pid L. proxyPool s2 p \<noteq> None" using inL dom2 by blast
  obtain s3 where s3: "CreateProxy_axis s2 pid (2 * n) vals 1 = Some s3"
    and a31: "axis_ok s3 (insert pid L) (2 * n + 2) 1"
    and f3: "axis_frame 1 (insert pid L) s2 s3"
    using CreateProxy_axis_step [OF a21 bc h21 p2 L'(2) v1] by blast
  have f3': "m_bounds s3 0 = m_bounds s2 0" "lb_of s3 0 = lb_of s2 0" "ub_of s3 0 = ub_of s2 0"
    using f3 by (auto simp: axis_frame_def)
  have a30: "axis_ok s3 (insert pid L) (2 * n + 2) 0" using a20 axis_ok_cong [OF f3'] by simp
  have r3: "rel_option (\<lambda>x x'. next x' = next x) (proxyPool s2 p) (proxyPool s3 p)" for p
    using f3 by (simp add: axis_frame_def)
  have dom3: "proxyPool s3 p \<noteq> None \<longleftrightarrow> 0 \<le> p \<and> p < N" for p
    using rel_next_defined [OF r3 [of p]] dom2 [of p] by simp
  have st1: "stamps_le s1" using ts x by (auto simp: stamps_le_def s1_def less_imp_le)
  have st3: "stamps_le s3" using st1 f2 f3 by (simp add: axis_frame_def)
  have misc3: "m_freeProxy s3 = next x" "m_proxyCount s3 = n" "m_worldAABB s3 = m_worldAABB s"
    "m_quantizationFactor s3 = m_quantizationFactor s"
    using f2 f3 by (simp_all add: axis_frame_def s1_def GetNext_def n_def)
  define s5 where "s5 = s3\<lparr>m_proxyCount := m_proxyCount s3 + 1,
       m_pairManager := pm_Commit (add_pairs (m_queryResults s3) (m_queryResultCount s3) pid 0
                                  (m_pairManager s3)),
       m_queryResultCount := 0\<rparr>"
  have dom5: "\<forall>p. proxyPool s5 p \<noteq> None \<longleftrightarrow> 0 \<le> p \<and> p < b2_maxProxies cfg"
    using dom3 by (simp add: s5_def N_def)
  obtain s6 where s6: "IncrementTimeStamp cfg s5 = Some s6"
    and b6: "m_bounds s6 = m_bounds s5" and l6: "lb_of s6 = lb_of s5" "ub_of s6 = ub_of s5"
    and r6: "\<forall>p. rel_option (\<lambda>x x'. next x' = next x) (proxyPool s5 p) (proxyPool s6 p)"
    and t6: "stamps_le s5 \<longrightarrow> (\<forall>p x. proxyPool s6 p = Some x \<longrightarrow> timeStamp x < m_timeStamp s6)"
    and m6: "m_freeProxy s6 = m_freeProxy s5" "m_proxyCount s6 = m_proxyCount s5"
       "m_queryResultCount s6 = m_queryResultCount s5" "m_worldAABB s6 = m_worldAABB s5"
       "m_quantizationFactor s6 = m_quantizationFactor s5"
    using IncrementTimeStamp_frame [OF dom5] by blast
  have cp: "CreateProxy cfg s aabb ud = Some (s6, pid)"
    unfolding CreateProxy_def fp
    by (simp add: x Let_def s1_def [symmetric] vals_def [symmetric] n_def [symmetric] s2 s3
        s5_def [symmetric] s6 del: ComputeBounds_def)
  have l5: "lb_of s5 = lb_of s3" "ub_of s5 = ub_of s3" "m_bounds s5 = m_bounds s3"
    by (simp_all add: lb_of_def ub_of_def fun_eq_iff s5_def)
  have rel: "rel_option (\<lambda>x x'. next x' = next x) (proxyPool s p) (proxyPool s6 p)" for p
  proof -
    have "rel_option (\<lambda>x x'. next x' = next x) (proxyPool s p) (proxyPool s1 p)"
      using x by (cases "proxyPool s p") (auto simp: s1_def)
    from rel_next_trans [OF this r2] have "rel_option (\<lambda>x x'. next x' = next x) (proxyPool s p) (proxyPool s3 p)"
      using r3 rel_next_trans by blast
    then have "rel_option (\<lambda>x x'. next x' = next x) (proxyPool s p) (proxyPool s5 p)"
      by (simp add: s5_def)
    then show ?thesis using r6 rel_next_trans by blast
  qed
  have I1: "pool_dom cfg s6"
  proof -
    have "proxyPool s6 p \<noteq> None \<longleftrightarrow> 0 \<le> p \<and> p < b2_maxProxies cfg" for p
      using rel_next_defined [OF rel [of p]] dom [of p] by (simp add: N_def)
    moreover have "m_bounds s6 axis i \<noteq> None \<longleftrightarrow> 0 \<le> i \<and> i < 2 * b2_maxProxies cfg"
      if "axis = 0 \<or> axis = 1" for axis i
    proof -
      have "(m_bounds s3 axis i \<noteq> None) = (m_bounds s axis i \<noteq> None)"
        using that f2 f3 bs1 by (auto simp: axis_frame_def)
      then show ?thesis using bdom [OF that] by (simp add: b6 l5 N_def)
    qed
    ultimately show ?thesis by (simp add: pool_dom_def)
  qed
  have I2: "0 \<le> m_proxyCount s6" using n0 misc3 by (simp add: m6 s5_def)
  have I3: "free_ok cfg s6 F"
  proof -
    have "free_chain (proxyPool s6) (next x) F (b2_nullProxy cfg)"
      using ch rel by (subst free_chain_cong [where pool = "proxyPool s"]) auto
    moreover have "lb_of s6 axis p = invalid cfg \<and> ub_of s6 axis p = invalid cfg"
      if p: "p \<in> set F" and ax: "axis = 0 \<or> axis = 1" for p axis
    proof -
      have old: "lb_of s axis p = invalid cfg \<and> ub_of s axis p = invalid cfg"
        using fo p ax unfolding free_ok_def by auto
      have nl: "p \<notin> insert pid L" using p di by (auto simp: L_def live_set_def)
      have "lb_of s3 axis p = lb_of s1 axis p \<and> ub_of s3 axis p = ub_of s1 axis p"
        using ax
      proof
        assume "axis = 0"
        then show ?thesis using f2 f3 nl by (simp add: axis_frame_def)
      next
        assume "axis = 1"
        then show ?thesis using f2 f3 nl by (simp add: axis_frame_def)
      qed
      then show ?thesis using old by (simp add: l6 l5 lb1)
    qed
    ultimately show ?thesis
      using di inF len misc3 by (simp add: free_ok_def m6 s5_def N_def)
  qed
  have cnt: "2 * m_proxyCount s6 = 2 * n + 2" using misc3 by (simp add: m6 s5_def)
  have I4: "axis_ok s6 (live_set cfg F) (2 * m_proxyCount s6) 0"
    unfolding cnt L'(1) using a30 by (simp add: axis_ok_def b6 l6 l5)
  have I5: "axis_ok s6 (live_set cfg F) (2 * m_proxyCount s6) 1"
    unfolding cnt L'(1) using a31 by (simp add: axis_ok_def b6 l6 l5)
  have "stamps_le s5" using st3 by (simp add: stamps_le_def s5_def)
  then have I6: "\<forall>p x. proxyPool s6 p = Some x \<longrightarrow> timeStamp x < m_timeStamp s6" using t6 by simp
  have I7: "m_queryResultCount s6 = 0" by (simp add: m6 s5_def)
  have I8: "frame_ok s6" using fr misc3 by (simp add: frame_ok_def m6 s5_def)
  have "broadphase_inv cfg s6 F"
    unfolding broadphase_inv_def using I1 I2 I3 I4 I5 I6 I7 I8 by blast
  moreover have "m_proxyCount s6 = m_proxyCount s + 1" using misc3 by (simp add: m6 s5_def n_def)
  ultimately show ?thesis using cp rel by blast
qed

section \<open>DestroyProxy preserves the invariant\<close>

lemma del_bounds_src:
  assumes "0 \<le> j" "j < bc - 2"
  shows "b_pid (del_bounds B bc l u d) j = b_pid B (del_src l u j)"
    and "b_val (del_bounds B bc l u d) j = b_val B (del_src l u j)"
    and "b_low (del_bounds B bc l u d) j = b_low B (del_src l u j)"
    and "B (del_src l u j) \<noteq> None \<Longrightarrow> b_sc (del_bounds B bc l u d) j =
           b_sc B (del_src l u j) + (if l \<le> j \<and> j < u - 1 then d else 0)"
    and "B (del_src l u j) \<noteq> None \<Longrightarrow> del_bounds B bc l u d j \<noteq> None"
  using assms
  by (cases "B (del_src l u j)"; auto simp: del_bounds_def del_src_def b_pid_def b_val_def b_low_def b_sc_def IsLower_def)+

lemma del_src_range:
  assumes "0 \<le> l" "l < u" "u < bc" "0 \<le> j" "j < bc - 2"
  shows "0 \<le> del_src l u j \<and> del_src l u j < bc \<and> del_src l u j \<noteq> l \<and> del_src l u j \<noteq> u \<and>
         del_shift l u (del_src l u j) = j"
  using assms by (auto simp: del_src_def del_shift_def)

lemma del_shift_range:
  assumes "0 \<le> l" "l < u" "u < bc" "0 \<le> i" "i < bc" "i \<noteq> l" "i \<noteq> u"
  shows "0 \<le> del_shift l u i \<and> del_shift l u i < bc - 2 \<and> del_src l u (del_shift l u i) = i"
  using assms by (auto simp: del_src_def del_shift_def)

lemma del_shift_mono:
  "l < u \<Longrightarrow> i < i' \<Longrightarrow> i \<noteq> l \<Longrightarrow> i \<noteq> u \<Longrightarrow> i' \<noteq> l \<Longrightarrow> i' \<noteq> u \<Longrightarrow>
     del_shift l u i < del_shift l u i'"
  by (auto simp: del_shift_def)

lemma del_src_mono: "l < u \<Longrightarrow> j \<le> j' \<Longrightarrow> del_src l u j \<le> del_src l u j'"
  by (auto simp: del_src_def)

lemma del_index_ok:
  assumes ok: "index_ok B lo up L bc" and pid: "pid \<in> L"
  shows "index_ok (del_bounds B bc (lo pid) (up pid) d)
           (\<lambda>p. if p \<in> L - {pid} then del_shift (lo pid) (up pid) (lo p) else lo p)
           (\<lambda>p. if p \<in> L - {pid} then del_shift (lo pid) (up pid) (up p) else up p)
           (L - {pid}) (bc - 2)"
proof -
  define l where "l = lo pid"
  define u where "u = up pid"
  let ?B = "del_bounds B bc l u d"
  let ?lo = "\<lambda>p. if p \<in> L - {pid} then del_shift l u (lo p) else lo p"
  let ?up = "\<lambda>p. if p \<in> L - {pid} then del_shift l u (up p) else up p"
  note dp = index_ok_liveD [OF ok pid, folded l_def u_def]
  have r: "0 \<le> l" "l < u" "u < bc" using dp by auto
  have hB: "B i \<noteq> None" if "0 \<le> i" "i < bc" for i
    using ok that by (auto simp: index_ok_def holds_upto_def)
  have a: "holds_upto ?B (bc - 2)"
    unfolding holds_upto_def
  proof (intro allI impI)
    fix j assume j: "0 \<le> j \<and> j < bc - 2"
    then have "B (del_src l u j) \<noteq> None" using del_src_range [OF r, of j] hB by simp
    then show "?B j \<noteq> None" using del_bounds_src(5) j by simp
  qed
  have b: "b_pid ?B j \<in> L - {pid} \<and>
        (if b_low ?B j then ?lo (b_pid ?B j) = j else ?up (b_pid ?B j) = j)"
    if j: "0 \<le> j \<and> j < bc - 2" for j
  proof -
    define i where "i = del_src l u j"
    have i: "0 \<le> i" "i < bc" "i \<noteq> l" "i \<noteq> u" "del_shift l u i = j"
      using del_src_range [OF r, of j] j by (auto simp: i_def)
    have e: "b_pid ?B j = b_pid B i" "b_low ?B j = b_low B i"
      using del_bounds_src [of j bc B l u d] j by (auto simp: i_def)
    have inL: "b_pid B i \<in> L" using ok i by (auto simp: index_ok_def)
    show ?thesis
    proof (cases "b_low B i")
      case True
      then have li: "lo (b_pid B i) = i" using index_ok_lowD [OF ok i(1,2)] by simp
      then have "b_pid B i \<noteq> pid" using i(3) by (auto simp: l_def)
      then show ?thesis using True inL li i(5) by (simp add: e)
    next
      case False
      then have ui: "up (b_pid B i) = i" using index_ok_upD [OF ok i(1,2)] by simp
      then have "b_pid B i \<noteq> pid" using i(4) by (auto simp: u_def)
      then show ?thesis using False inL ui i(5) by (simp add: e)
    qed
  qed
  have c: "0 \<le> ?lo p \<and> ?lo p < ?up p \<and> ?up p < bc - 2 \<and>
        b_pid ?B (?lo p) = p \<and> b_low ?B (?lo p) \<and> b_pid ?B (?up p) = p \<and> \<not> b_low ?B (?up p)"
    if p: "p \<in> L - {pid}" for p
  proof -
    have pL: "p \<in> L" "p \<noteq> pid" using p by auto
    note d = index_ok_liveD [OF ok pL(1)]
    have nl: "lo p \<noteq> l" "lo p \<noteq> u" "up p \<noteq> l" "up p \<noteq> u"
      using d dp pL(2) by auto
    have l': "0 \<le> lo p" "lo p < bc" and u': "0 \<le> up p" "up p < bc" using d by auto
    note sl = del_shift_range [OF r l' nl(1,2)]
    note su = del_shift_range [OF r u' nl(3,4)]
    have m: "del_shift l u (lo p) < del_shift l u (up p)"
      using del_shift_mono [OF r(2) _ nl] d by simp
    have el: "b_pid ?B (del_shift l u (lo p)) = b_pid B (lo p)" "b_low ?B (del_shift l u (lo p)) = b_low B (lo p)"
      using del_bounds_src [of "del_shift l u (lo p)" bc B l u d] sl by auto
    have eu: "b_pid ?B (del_shift l u (up p)) = b_pid B (up p)" "b_low ?B (del_shift l u (up p)) = b_low B (up p)"
      using del_bounds_src [of "del_shift l u (up p)" bc B l u d] su by auto
    show ?thesis using p d sl su m by (simp add: el eu)
  qed
  show ?thesis unfolding index_ok_def l_def [symmetric] u_def [symmetric] using a b c by blast
qed

lemma del_sorted:
  assumes so: "sorted_upto B bc" and r: "0 \<le> l" "l < u" "u < bc"
  shows "sorted_upto (del_bounds B bc l u d) (bc - 2)"
  unfolding sorted_upto_def
proof (intro allI impI)
  fix j j' assume jj: "0 \<le> j \<and> j \<le> j' \<and> j' < bc - 2"
  then have j: "0 \<le> j" "j < bc - 2" and j': "0 \<le> j'" "j' < bc - 2" by auto
  have "del_src l u j \<le> del_src l u j'" using del_src_mono [OF r(2)] jj by simp
  then have "b_val B (del_src l u j) \<le> b_val B (del_src l u j')"
    using so del_src_range [OF r j] del_src_range [OF r j'] by (auto simp: sorted_upto_def)
  then show "b_val (del_bounds B bc l u d) j \<le> b_val (del_bounds B bc l u d) j'"
    by (simp add: del_bounds_src [OF j] del_bounds_src [OF j'])
qed

lemma del_stab_ok:
  assumes st: "stab_ok B bc" and h: "holds_upto B bc"
    and r: "0 \<le> l" "l < u" "u < bc" and lu: "b_low B l" "\<not> b_low B u"
  shows "stab_ok (del_bounds B bc l u (- 1)) (bc - 2)"
  unfolding stab_ok_def
proof (intro allI impI)
  let ?B = "del_bounds B bc l u (- 1)"
  fix j assume j: "0 \<le> j \<and> j < bc - 2"
  have hB: "\<exists>b. B i = Some b" if "0 \<le> i" "i < bc" for i
    using holds_uptoD [OF h that] .
  have S: "b_sc B i = (if i = 0 then 0 else b_sc B (i - 1)) + (if b_low B i then 1 else - 1)"
    if "0 \<le> i" "i < bc" for i using stab_okD [OF st that] .
  consider (a) "j < l" | (b) "j = l" "j < u - 1" | (c) "l < j" "j < u - 1"
    | (d) "j = u - 1" "j = l" | (e) "j = u - 1" "l < j" | (f) "u - 1 < j" by linarith
  then show "b_sc ?B j = (if j = 0 then 0 else b_sc ?B (j - 1)) + (if b_low ?B j then 1 else - 1)"
  proof cases
    case a
    have n: "b_sc ?B j = b_sc B j" "b_low ?B j = b_low B j"
      using a by (simp_all add: del_bounds_def b_sc_def b_low_def)
    have p: "j \<noteq> 0 \<Longrightarrow> b_sc ?B (j - 1) = b_sc B (j - 1)"
      using a by (simp add: del_bounds_def b_sc_def)
    show ?thesis using n p S [of j] j a r by simp
  next
    case b
    obtain b1 where b1: "B (j + 1) = Some b1" using hB [of "j + 1"] r b by auto
    have n: "b_sc ?B j = b_sc B (j + 1) - 1" "b_low ?B j = b_low B (j + 1)"
      using b b1 by (simp_all add: del_bounds_def b_sc_def b_low_def IsLower_def)
    have p: "j \<noteq> 0 \<Longrightarrow> b_sc ?B (j - 1) = b_sc B (j - 1)"
      using b by (simp add: del_bounds_def b_sc_def)
    have s1: "b_sc B (j + 1) = b_sc B j + (if b_low B (j + 1) then 1 else - 1)"
      using S [of "j + 1"] r b j by simp
    have s0: "b_sc B j = (if j = 0 then 0 else b_sc B (j - 1)) + 1"
      using S [of j] r b lu by simp
    show ?thesis using n p s1 s0 by simp
  next
    case c
    obtain b1 where b1: "B (j + 1) = Some b1" using hB [of "j + 1"] r c by auto
    obtain b0 where b0: "B j = Some b0" using hB [of j] r c by auto
    have n: "b_sc ?B j = b_sc B (j + 1) - 1" "b_low ?B j = b_low B (j + 1)"
      using c b1 by (simp_all add: del_bounds_def b_sc_def b_low_def IsLower_def)
    have p: "b_sc ?B (j - 1) = b_sc B j - 1" "j \<noteq> 0"
      using c b0 r by (simp_all add: del_bounds_def b_sc_def)
    have s1: "b_sc B (j + 1) = b_sc B j + (if b_low B (j + 1) then 1 else - 1)"
      using S [of "j + 1"] r c j by simp
    show ?thesis using n p s1 by simp
  next
    case d
    have u: "u = l + 1" using d by simp
    have s2: "b_sc B (l + 2) = b_sc B (l + 1) + (if b_low B (l + 2) then 1 else - 1)"
      using S [of "l + 2"] r j u d by (simp add: add.commute)
    have s1: "b_sc B (l + 1) = b_sc B l - 1" using S [of "l + 1"] r lu u by simp
    have s0: "b_sc B l = (if l = 0 then 0 else b_sc B (l - 1)) + 1" using S [of l] r lu by simp
    have n: "b_sc ?B l = b_sc B (l + 2)" "b_low ?B l = b_low B (l + 2)"
      using j d u by (simp_all add: del_bounds_def b_sc_def b_low_def)
    have p: "l \<noteq> 0 \<Longrightarrow> b_sc ?B (l - 1) = b_sc B (l - 1)"
      by (simp add: del_bounds_def b_sc_def)
    show ?thesis using d(2) n p s2 s1 s0 by simp
  next
    case e
    have u: "u = j + 1" using e by simp
    obtain b0 where b0: "B j = Some b0" using hB [of j] r e by auto
    have n: "b_sc ?B j = b_sc B (j + 2)" "b_low ?B j = b_low B (j + 2)"
      using e j by (simp_all add: del_bounds_def b_sc_def b_low_def)
    have p: "b_sc ?B (j - 1) = b_sc B j - 1" "j \<noteq> 0"
      using e b0 r by (simp_all add: del_bounds_def b_sc_def)
    have s2: "b_sc B (j + 2) = b_sc B (j + 1) + (if b_low B (j + 2) then 1 else - 1)"
      using S [of "j + 2"] r j by (simp add: add.commute)
    have s1: "b_sc B (j + 1) = b_sc B j - 1" using S [of "j + 1"] r lu u j by simp
    show ?thesis using n p s2 s1 by simp
  next
    case f
    have n: "b_sc ?B j = b_sc B (j + 2)" "b_low ?B j = b_low B (j + 2)"
      using f j r by (simp_all add: del_bounds_def b_sc_def b_low_def)
    have p: "b_sc ?B (j - 1) = b_sc B (j + 1)" "j \<noteq> 0"
      using f j r by (simp_all add: del_bounds_def b_sc_def add.commute)
    have s2: "b_sc B (j + 2) = b_sc B (j + 1) + (if b_low B (j + 2) then 1 else - 1)"
      using S [of "j + 2"] r j by (simp add: add.commute)
    show ?thesis using n p s2 by simp
  qed
qed

lemma del_bounds_defined:
  assumes "0 \<le> l" "l < u" "u < bc" "holds_upto B bc"
  shows "(del_bounds B bc l u d i \<noteq> None) = (B i \<noteq> None)"
proof -
  have hB: "\<exists>b. B k = Some b" if "0 \<le> k" "k < bc" for k
    using holds_uptoD [OF assms(4) that] .
  consider "i < l" | "l \<le> i \<and> i < u - 1" | "u - 1 \<le> i \<and> i < bc - 2" | "bc - 2 \<le> i \<and> u - 1 \<le> i"
    using assms by linarith
  then show ?thesis
  proof cases
    case 2
    then show ?thesis using hB [of i] hB [of "i + 1"] assms by (auto simp: del_bounds_def)
  next
    case 3
    then show ?thesis using hB [of i] hB [of "i + 2"] assms by (auto simp: del_bounds_def)
  qed (use assms in \<open>auto simp: del_bounds_def\<close>)
qed

lemma delete_chain:
  fixes B :: "int \<rightharpoonup> Bound"
  assumes r: "0 \<le> l" "l < u" "u < bc" and h: "holds_upto B bc"
  shows "memmove B l (l + 1) (u - l - 1) \<bind> (\<lambda>bounds1. memmove bounds1 (u - 1) (u + 1) (bc - u - 1)) =
           Some (del_bounds B bc l u 0)"
    and "adjust_stabbing (del_bounds B bc l u 0) (- 1) l (u - 1) = Some (del_bounds B bc l u (- 1))"
proof -
  have hB: "\<exists>b. B i = Some b" if "0 \<le> i" "i < bc" for i
    using holds_uptoD [OF h that] .
  define B1 where "B1 = (\<lambda>i. if l \<le> i \<and> i < l + (u - l - 1) then B (i - l + (l + 1)) else B i)"
  have m1: "memmove B l (l + 1) (u - l - 1) = Some B1"
    unfolding B1_def
  proof (intro memmove_result)
    show "holds_between B (l + 1) (l + 1 + (u - l - 1))"
      unfolding holds_between_def
    proof (intro allI impI)
      fix i assume "l + 1 \<le> i \<and> i < l + 1 + (u - l - 1)"
      then have "0 \<le> i" "i < bc" using r by auto
      then show "B i \<noteq> None" using hB by auto
    qed
    show "holds_between B l (l + (u - l - 1))"
      unfolding holds_between_def
    proof (intro allI impI)
      fix i assume "l \<le> i \<and> i < l + (u - l - 1)"
      then have "0 \<le> i" "i < bc" using r by auto
      then show "B i \<noteq> None" using hB by auto
    qed
  qed
  have hB1: "\<exists>b. B1 i = Some b" if "0 \<le> i" "i < bc" for i
    using hB [of i] hB [of "i + 1"] that r by (auto simp: B1_def)
  define B2 where "B2 = (\<lambda>i. if u - 1 \<le> i \<and> i < u - 1 + (bc - u - 1) then B1 (i - (u - 1) + (u + 1)) else B1 i)"
  have m2: "memmove B1 (u - 1) (u + 1) (bc - u - 1) = Some B2"
    unfolding B2_def
  proof (intro memmove_result)
    show "holds_between B1 (u + 1) (u + 1 + (bc - u - 1))"
      unfolding holds_between_def
    proof (intro allI impI)
      fix i assume "u + 1 \<le> i \<and> i < u + 1 + (bc - u - 1)"
      then have "0 \<le> i" "i < bc" using r by auto
      then show "B1 i \<noteq> None" using hB1 by auto
    qed
    show "holds_between B1 (u - 1) (u - 1 + (bc - u - 1))"
      unfolding holds_between_def
    proof (intro allI impI)
      fix i assume "u - 1 \<le> i \<and> i < u - 1 + (bc - u - 1)"
      then have "0 \<le> i" "i < bc" using r by auto
      then show "B1 i \<noteq> None" using hB1 by auto
    qed
  qed
  have e2: "B2 = del_bounds B bc l u 0"
  proof (rule ext)
    fix i
    consider "i < l" | "l \<le> i \<and> i < u - 1" | "u - 1 \<le> i \<and> i < bc - 2" | "bc - 2 \<le> i \<and> u - 1 \<le> i"
      using r by linarith
    then show "B2 i = del_bounds B bc l u 0 i"
    proof cases
      case 2
      then obtain b where "B (i + 1) = Some b" using hB [of "i + 1"] r by auto
      then show ?thesis using 2 r by (simp add: B2_def B1_def del_bounds_def)
    qed (use r in \<open>auto simp: B2_def B1_def del_bounds_def\<close>)
  qed
  show "memmove B l (l + 1) (u - l - 1) \<bind> (\<lambda>bounds1. memmove bounds1 (u - 1) (u + 1) (bc - u - 1)) =
           Some (del_bounds B bc l u 0)"
    by (simp add: m1 m2 e2)
  have hd: "holds_between (del_bounds B bc l u 0) l (u - 1)"
    unfolding holds_between_def
  proof (intro allI impI)
    fix i assume i: "l \<le> i \<and> i < u - 1"
    then have "B i \<noteq> None" using hB [of i] r by auto
    then show "del_bounds B bc l u 0 i \<noteq> None"
      using del_bounds_defined [OF r h, of 0 i] by simp
  qed
  have "(\<lambda>i. if l \<le> i \<and> i < u - 1
               then map_option (\<lambda>b. b\<lparr>stabbingCount := stabbingCount b + - 1\<rparr>) (del_bounds B bc l u 0 i)
               else del_bounds B bc l u 0 i) = del_bounds B bc l u (- 1)"
    by (auto simp: fun_eq_iff del_bounds_def option.map_comp comp_def)
  then show "adjust_stabbing (del_bounds B bc l u 0) (- 1) l (u - 1) = Some (del_bounds B bc l u (- 1))"
    using adjust_stabbing_result [OF hd, of "- 1"] by simp
qed

lemma index_ok_same_roles:
  assumes "\<forall>i. b_pid B' i = b_pid B i \<and> b_low B' i = b_low B i \<and> (B' i \<noteq> None) = (B i \<noteq> None)"
  shows "index_ok B' lo up L bc = index_ok B lo up L bc"
  using assms by (simp add: index_ok_def holds_upto_def)

lemma del_bounds_roles:
  "b_pid (del_bounds B bc l u d) i = b_pid (del_bounds B bc l u d') i \<and>
   b_low (del_bounds B bc l u d) i = b_low (del_bounds B bc l u d') i \<and>
   (del_bounds B bc l u d i \<noteq> None) = (del_bounds B bc l u d' i \<noteq> None)"
  by (cases "B (i + 1)") (auto simp: del_bounds_def b_pid_def b_low_def IsLower_def)

lemma DestroyProxy_axis_step:
  assumes ok: "axis_ok s L bc axis" and pid: "pid \<in> L"
    and pool: "\<forall>p\<in>L. proxyPool s p \<noteq> None"
  shows "\<exists>s'. DestroyProxy_axis s pid bc axis = Some s' \<and>
           axis_ok s' (L - {pid}) (bc - 2) axis \<and> axis_frame axis (L - {pid}) s s'"
proof -
  define B where "B = m_bounds s axis"
  define l where "l = lb_of s axis pid"
  define u where "u = ub_of s axis pid"
  have iok: "index_ok B (lb_of s axis) (ub_of s axis) L bc" and st: "stab_ok B bc"
    and so: "sorted_upto B bc"
    using ok by (auto simp: axis_ok_def B_def)
  have h: "holds_upto B bc" using iok by (simp add: index_ok_def)
  note dp = index_ok_liveD [OF iok pid, folded l_def u_def]
  have r: "0 \<le> l" "l < u" "u < bc" and lu: "b_low B l" "\<not> b_low B u" using dp by auto
  obtain x where x: "proxyPool s pid = Some x" using pool pid by auto
  have xl: "lowerBounds x axis = l" "upperBounds x axis = u"
    using x by (simp_all add: l_def u_def lb_of_def ub_of_def)
  obtain bl where bl: "B l = Some bl" using holds_uptoD [OF h, of l] r by auto
  obtain bu where bu: "B u = Some bu" using holds_uptoD [OF h, of u] r by auto
  define B2 where "B2 = del_bounds B bc l u 0"
  define B3 where "B3 = del_bounds B bc l u (- 1)"
  define Ls where "Ls = (\<lambda>p. if p \<in> L - {pid} then del_shift l u (lb_of s axis p) else lb_of s axis p)"
  define Us where "Us = (\<lambda>p. if p \<in> L - {pid} then del_shift l u (ub_of s axis p) else ub_of s axis p)"
  have i3: "index_ok B3 Ls Us (L - {pid}) (bc - 2)"
    unfolding B3_def Ls_def Us_def l_def u_def by (rule del_index_ok [OF iok pid])
  have i2: "index_ok B2 Ls Us (L - {pid}) (bc - 2)"
    using i3 index_ok_same_roles [of B2 B3] del_bounds_roles [of B bc l u 0 _ "- 1"]
    by (simp add: B2_def B3_def)
  have st3: "stab_ok B3 (bc - 2)" unfolding B3_def by (rule del_stab_ok [OF st h r lu])
  have so3: "sorted_upto B3 (bc - 2)" unfolding B3_def by (rule del_sorted [OF so r])
  have f1: "holds_between B2 l (bc - 2)"
    using i2 r by (auto simp: index_ok_def holds_upto_def holds_between_def)
  have f2: "\<forall>i. l \<le> i \<and> i < bc - 2 \<longrightarrow> proxyPool s (b_pid B2 i) \<noteq> None"
  proof (intro allI impI)
    fix i assume "l \<le> i \<and> i < bc - 2"
    then have "b_pid B2 i \<in> L - {pid}" using i2 r by (auto simp: index_ok_def)
    then show "proxyPool s (b_pid B2 i) \<noteq> None" using pool by auto
  qed
  have f3: "\<forall>i. l \<le> i \<and> i < bc - 2 \<longrightarrow>
           (if b_low B2 i then Ls (b_pid B2 i) = i else Us (b_pid B2 i) = i)"
    using i2 r by (auto simp: index_ok_def)
  have f4: "\<forall>p y. proxyPool s p = Some y \<longrightarrow>
           ((\<forall>i. l \<le> i \<and> i < bc - 2 \<and> b_low B2 i \<longrightarrow> b_pid B2 i \<noteq> p) \<longrightarrow>
              lowerBounds y axis = Ls p) \<and>
           ((\<forall>i. l \<le> i \<and> i < bc - 2 \<and> \<not> b_low B2 i \<longrightarrow> b_pid B2 i \<noteq> p) \<longrightarrow>
              upperBounds y axis = Us p)"
  proof (intro allI impI conjI)
    fix p y
    assume y: "proxyPool s p = Some y"
      and nh: "\<forall>i. l \<le> i \<and> i < bc - 2 \<and> b_low B2 i \<longrightarrow> b_pid B2 i \<noteq> p"
    have ly: "lowerBounds y axis = lb_of s axis p" using y by (simp add: lb_of_def)
    show "lowerBounds y axis = Ls p"
    proof (cases "p \<in> L - {pid}")
      case False
      then show ?thesis using ly by (auto simp: Ls_def)
    next
      case True
      note d = index_ok_liveD [OF i2 True]
      have "\<not> l \<le> Ls p" using nh d by auto
      then have lt: "Ls p < l" by simp
      have pL: "p \<in> L" "p \<noteq> pid" using True by auto
      have nl: "lb_of s axis p \<noteq> l" "lb_of s axis p \<noteq> u"
        using index_ok_liveD [OF iok pL(1)] dp pL(2) by auto
      have "Ls p = del_shift l u (lb_of s axis p)" using True by (simp add: Ls_def)
      then show ?thesis using lt ly r nl by (auto simp: del_shift_def split: if_splits)
    qed
  next
    fix p y
    assume y: "proxyPool s p = Some y"
      and nh: "\<forall>i. l \<le> i \<and> i < bc - 2 \<and> \<not> b_low B2 i \<longrightarrow> b_pid B2 i \<noteq> p"
    have uy: "upperBounds y axis = ub_of s axis p" using y by (simp add: ub_of_def)
    show "upperBounds y axis = Us p"
    proof (cases "p \<in> L - {pid}")
      case False
      then show ?thesis using uy by (auto simp: Us_def)
    next
      case True
      note d = index_ok_liveD [OF i2 True]
      have "\<not> l \<le> Us p" using nh d by auto
      then have lt: "Us p < l" by simp
      have pL: "p \<in> L" "p \<noteq> pid" using True by auto
      have nl: "ub_of s axis p \<noteq> l" "ub_of s axis p \<noteq> u"
        using index_ok_liveD [OF iok pL(1)] dp pL(2) by auto
      have "Us p = del_shift l u (ub_of s axis p)" using True by (simp add: Us_def)
      then show ?thesis using lt uy r nl by (auto simp: del_shift_def split: if_splits)
    qed
  qed
  note fi = fix_indices_result [OF f1 f2 f3 f4]
  define s1 where "s1 = s\<lparr>m_bounds := (m_bounds s)(axis := B3),
      proxyPool := (\<lambda>p. map_option (set_axis axis (Ls p) (Us p)) (proxyPool s p))\<rparr>"
  have pp: "proxyPool s1 = (\<lambda>p. map_option (set_axis axis (Ls p) (Us p)) (proxyPool s p))"
    by (simp add: s1_def)
  note lbu = lb_of_set_axis [OF pp]
  have bs: "m_bounds s1 axis = B3" by (simp add: s1_def)
  have i1: "index_ok B3 (lb_of s1 axis) (ub_of s1 axis) (L - {pid}) (bc - 2)"
    using i3 pool
    by (subst index_ok_cong [where lo' = Ls and up' = Us]) (auto simp: lbu)
  have bc2: "0 \<le> bc - 2" using r by simp
  have pool1: "\<forall>p\<in>L - {pid}. proxyPool s1 p \<noteq> None \<and> ub_of s1 axis p = ub_of s1 axis p"
    using pool by (auto simp: pp)
  obtain s2 lq uq where q: "Query s1 (b_value bl) (b_value bu) B3 (bc - 2) axis = Some (s2, lq, uq)"
    and ma: "mark_all s1 (query_marks B3 (ub_of s1 axis) lq uq) = Some s2"
    using Query_result [OF i1 st3 so3 bc2 pool1, of "b_value bl" "b_value bu"] by blast
  note mr = mark_all_marks_rel [OF ma]
  have de: "DestroyProxy_axis s pid bc axis = Some s2"
    unfolding DestroyProxy_axis_def
    using delete_chain [OF r h]
    by (simp add: x xl Let_def B_def [symmetric] bl bu bind_assoc [symmetric]
        B2_def [symmetric] B3_def [symmetric] fi s1_def [symmetric] q
        del: bind_assoc)
  have b2: "m_bounds s2 = m_bounds s1" using mr by (simp add: marks_rel_def)
  have A: "axis_ok s2 (L - {pid}) (bc - 2) axis"
    using i1 st3 so3 by (simp add: axis_ok_def b2 bs marks_rel_lb [OF mr] marks_rel_ub [OF mr])
  have F1: "\<forall>a. a \<noteq> axis \<longrightarrow>
        m_bounds s2 a = m_bounds s a \<and> lb_of s2 a = lb_of s a \<and> ub_of s2 a = ub_of s a"
    using b2 marks_rel_lb [OF mr] marks_rel_ub [OF mr]
    by (auto simp: fun_eq_iff lbu) (simp add: s1_def)
  have F2: "\<forall>i. (m_bounds s2 axis i \<noteq> None) = (m_bounds s axis i \<noteq> None)"
    using del_bounds_defined [OF r h] by (simp add: b2 bs B3_def B_def)
  have F3: "\<forall>p. rel_option (\<lambda>x x'. next x' = next x) (proxyPool s p) (proxyPool s2 p)"
  proof
    fix p
    have "rel_option (\<lambda>x x'. next x' = next x) (proxyPool s1 p) (proxyPool s2 p)"
      by (rule marks_rel_next [OF mr])
    then show "rel_option (\<lambda>x x'. next x' = next x) (proxyPool s p) (proxyPool s2 p)"
      by (cases "proxyPool s p"; cases "proxyPool s2 p") (auto simp: pp set_axis_def)
  qed
  have F4: "\<forall>p. p \<notin> L - {pid} \<longrightarrow> lb_of s2 axis p = lb_of s axis p \<and> ub_of s2 axis p = ub_of s axis p"
    using marks_rel_lb [OF mr] marks_rel_ub [OF mr] by (auto simp: lbu Ls_def Us_def)
  have F5: "stamps_le s \<longrightarrow> stamps_le s2"
  proof
    assume "stamps_le s"
    then have "stamps_le s1" unfolding stamps_le_def pp by (auto simp: set_axis_def s1_def)
    then show "stamps_le s2" using mark_all_stamps [OF ma] by simp
  qed
  have F6: "m_timeStamp s2 = m_timeStamp s \<and> m_freeProxy s2 = m_freeProxy s \<and>
     m_proxyCount s2 = m_proxyCount s \<and> m_worldAABB s2 = m_worldAABB s \<and>
     m_quantizationFactor s2 = m_quantizationFactor s"
    using mr by (simp add: s1_def marks_rel_def)
  have "axis_frame axis (L - {pid}) s s2"
    unfolding axis_frame_def using F1 F2 F3 F4 F5 F6 by blast
  then show ?thesis using de A by blast
qed

lemma DestroyProxy_inv:
  assumes cfg: "cfg_ok cfg" and inv: "broadphase_inv cfg s F" and live: "pid \<in> live_set cfg F"
  shows "\<exists>s'. DestroyProxy cfg s pid = Some s' \<and> broadphase_inv cfg s' (pid # F) \<and>
           m_proxyCount s' = m_proxyCount s - 1 \<and> m_freeProxy s' = pid \<and>
           (\<exists>x. proxyPool s' pid = Some x \<and> next x = m_freeProxy s) \<and>
           (\<forall>p. p \<noteq> pid \<longrightarrow>
              rel_option (\<lambda>x x'. next x' = next x) (proxyPool s p) (proxyPool s' p))"
proof -
  define N where "N = b2_maxProxies cfg"
  define n where "n = m_proxyCount s"
  define L where "L = live_set cfg F"
  have pd: "pool_dom cfg s" and n0: "0 \<le> n" and fo: "free_ok cfg s F"
    and a0: "axis_ok s L (2 * n) 0" and a1: "axis_ok s L (2 * n) 1"
    and ts: "\<forall>p x. proxyPool s p = Some x \<longrightarrow> timeStamp x < m_timeStamp s"
    and fr: "frame_ok s"
    using inv by (auto simp: broadphase_inv_def n_def L_def)
  have pL: "pid \<in> L" using live by (simp add: L_def)
  have rg: "0 \<le> pid" "pid < N" "pid \<notin> set F" using live by (auto simp: live_set_def N_def)
  have di: "distinct F" and len: "int (length F) = N - n"
    and inF: "\<forall>p\<in>set F. 0 \<le> p \<and> p < N"
    and ch: "free_chain (proxyPool s) (m_freeProxy s) F (b2_nullProxy cfg)"
    using fo by (auto simp: free_ok_def N_def n_def)
  have dom: "proxyPool s p \<noteq> None \<longleftrightarrow> 0 \<le> p \<and> p < N" for p
    using pd by (simp add: pool_dom_def N_def)
  have bdom: "m_bounds s axis i \<noteq> None \<longleftrightarrow> 0 \<le> i \<and> i < 2 * N" if "axis = 0 \<or> axis = 1" for axis i
    using pd that unfolding pool_dom_def N_def by blast
  have L': "live_set cfg (pid # F) = L - {pid}" by (auto simp: live_set_def L_def)
  have inL: "0 \<le> p \<and> p < N" if "p \<in> L" for p
    using that by (auto simp: L_def live_set_def N_def)
  have n1: "1 \<le> n"
    using index_ok_liveD [OF a0 [unfolded axis_ok_def, THEN conjunct1] pL] by simp
  have p0: "\<forall>p\<in>L. proxyPool s p \<noteq> None" using inL dom by blast
  obtain s1 where s1: "DestroyProxy_axis s pid (2 * n) 0 = Some s1"
    and a10: "axis_ok s1 (L - {pid}) (2 * n - 2) 0"
    and f1: "axis_frame 0 (L - {pid}) s s1"
    using DestroyProxy_axis_step [OF a0 pL p0] by blast
  have f1': "m_bounds s1 1 = m_bounds s 1" "lb_of s1 1 = lb_of s 1" "ub_of s1 1 = ub_of s 1"
    using f1 by (auto simp: axis_frame_def)
  have a11: "axis_ok s1 L (2 * n) 1" using a1 axis_ok_cong [OF f1'] by simp
  have r1: "rel_option (\<lambda>x x'. next x' = next x) (proxyPool s p) (proxyPool s1 p)" for p
    using f1 by (simp add: axis_frame_def)
  have dom1: "proxyPool s1 p \<noteq> None \<longleftrightarrow> 0 \<le> p \<and> p < N" for p
    using rel_next_defined [OF r1 [of p]] dom [of p] by simp
  have p1: "\<forall>p\<in>L. proxyPool s1 p \<noteq> None" using inL dom1 by blast
  obtain s2 where s2: "DestroyProxy_axis s1 pid (2 * n) 1 = Some s2"
    and a21: "axis_ok s2 (L - {pid}) (2 * n - 2) 1"
    and f2: "axis_frame 1 (L - {pid}) s1 s2"
    using DestroyProxy_axis_step [OF a11 pL p1] by blast
  have f2': "m_bounds s2 0 = m_bounds s1 0" "lb_of s2 0 = lb_of s1 0" "ub_of s2 0 = ub_of s1 0"
    using f2 by (auto simp: axis_frame_def)
  have a20: "axis_ok s2 (L - {pid}) (2 * n - 2) 0" using a10 axis_ok_cong [OF f2'] by simp
  have r2: "rel_option (\<lambda>x x'. next x' = next x) (proxyPool s1 p) (proxyPool s2 p)" for p
    using f2 by (simp add: axis_frame_def)
  have dom2: "proxyPool s2 p \<noteq> None \<longleftrightarrow> 0 \<le> p \<and> p < N" for p
    using rel_next_defined [OF r2 [of p]] dom1 [of p] by simp
  have st0: "stamps_le s" using ts by (auto simp: stamps_le_def less_imp_le)
  have st2: "stamps_le s2" using st0 f1 f2 by (simp add: axis_frame_def)
  have misc2: "m_freeProxy s2 = m_freeProxy s" "m_proxyCount s2 = n" "m_worldAABB s2 = m_worldAABB s"
    "m_quantizationFactor s2 = m_quantizationFactor s"
    using f1 f2 by (simp_all add: axis_frame_def n_def)
  define s3 where "s3 = s2\<lparr>m_pairManager :=
       pm_Commit (remove_pairs (m_queryResults s2) (m_queryResultCount s2) pid 0 (m_pairManager s2)),
       m_queryResultCount := 0\<rparr>"
  have dom3: "\<forall>p. proxyPool s3 p \<noteq> None \<longleftrightarrow> 0 \<le> p \<and> p < b2_maxProxies cfg"
    using dom2 by (simp add: s3_def N_def)
  obtain s4 where s4: "IncrementTimeStamp cfg s3 = Some s4"
    and b4: "m_bounds s4 = m_bounds s3" and l4: "lb_of s4 = lb_of s3" "ub_of s4 = ub_of s3"
    and r4: "\<forall>p. rel_option (\<lambda>x x'. next x' = next x) (proxyPool s3 p) (proxyPool s4 p)"
    and t4: "stamps_le s3 \<longrightarrow> (\<forall>p x. proxyPool s4 p = Some x \<longrightarrow> timeStamp x < m_timeStamp s4)"
    and m4: "m_freeProxy s4 = m_freeProxy s3" "m_proxyCount s4 = m_proxyCount s3"
       "m_queryResultCount s4 = m_queryResultCount s3" "m_worldAABB s4 = m_worldAABB s3"
       "m_quantizationFactor s4 = m_quantizationFactor s3"
    using IncrementTimeStamp_frame [OF dom3] by blast
  have l3: "lb_of s3 = lb_of s2" "ub_of s3 = ub_of s2" "m_bounds s3 = m_bounds s2"
    by (simp_all add: lb_of_def ub_of_def fun_eq_iff s3_def)
  have rel4: "rel_option (\<lambda>x x'. next x' = next x) (proxyPool s p) (proxyPool s4 p)" for p
  proof -
    have "rel_option (\<lambda>x x'. next x' = next x) (proxyPool s p) (proxyPool s2 p)"
      using rel_next_trans [OF r1 r2] .
    then have "rel_option (\<lambda>x x'. next x' = next x) (proxyPool s p) (proxyPool s3 p)"
      by (simp add: s3_def)
    then show ?thesis using r4 rel_next_trans by blast
  qed
  have dom4: "proxyPool s4 p \<noteq> None \<longleftrightarrow> 0 \<le> p \<and> p < N" for p
    using rel_next_defined [OF rel4 [of p]] dom [of p] by simp
  obtain x where x: "proxyPool s4 pid = Some x" using dom4 [of pid] rg by auto
  define x' where "x' = SetNext (m_freeProxy s4)
                      (x\<lparr>userData := None, overlapCount := invalid cfg,
                             lowerBounds := (\<lambda>axis. if axis = 0 \<or> axis = 1 then invalid cfg
                                                     else lowerBounds x axis),
                             upperBounds := (\<lambda>axis. if axis = 0 \<or> axis = 1 then invalid cfg
                                                     else upperBounds x axis)\<rparr>)"
  define s5 where "s5 = s4\<lparr>proxyPool := (proxyPool s4)(pid \<mapsto> x'),
                 m_freeProxy := pid,
                 m_proxyCount := m_proxyCount s4 - 1\<rparr>"
  have de: "DestroyProxy cfg s pid = Some s5"
    unfolding DestroyProxy_def
    by (simp add: Let_def n_def [symmetric] s1 s2 s3_def [symmetric] s4 x x'_def [symmetric]
        s5_def [symmetric])
  have l5: "lb_of s5 a p = (if p = pid \<and> (a = 0 \<or> a = 1) then invalid cfg else lb_of s4 a p)"
    "ub_of s5 a p = (if p = pid \<and> (a = 0 \<or> a = 1) then invalid cfg else ub_of s4 a p)" for a p
    using x by (auto simp: lb_of_def ub_of_def s5_def x'_def SetNext_def)
  have b5: "m_bounds s5 = m_bounds s2" by (simp add: s5_def b4 l3)
  have I1: "pool_dom cfg s5"
  proof -
    have "proxyPool s5 p \<noteq> None \<longleftrightarrow> 0 \<le> p \<and> p < b2_maxProxies cfg" for p
      using dom4 [of p] rg by (auto simp: s5_def N_def)
    moreover have "m_bounds s5 axis i \<noteq> None \<longleftrightarrow> 0 \<le> i \<and> i < 2 * b2_maxProxies cfg"
      if "axis = 0 \<or> axis = 1" for axis i
    proof -
      have "(m_bounds s2 axis i \<noteq> None) = (m_bounds s axis i \<noteq> None)"
        using that f1 f2 by (auto simp: axis_frame_def)
      then show ?thesis using bdom [OF that] by (simp add: b5 N_def)
    qed
    ultimately show ?thesis by (simp add: pool_dom_def)
  qed
  have I2: "0 \<le> m_proxyCount s5" using n1 misc2 by (simp add: s5_def m4 s3_def)
  have I3: "free_ok cfg s5 (pid # F)"
  proof -
    have "\<forall>p\<in>set F. rel_option (\<lambda>x x'. next x' = next x) (proxyPool s p) (proxyPool s5 p)"
      using rel4 rg(3) by (auto simp: s5_def)
    then have "free_chain (proxyPool s5) (m_freeProxy s) F (b2_nullProxy cfg)"
      using ch by (subst free_chain_cong [where pool = "proxyPool s"]) auto
    moreover have "next x' = m_freeProxy s" using misc2 by (simp add: x'_def SetNext_def m4 s3_def)
    ultimately have c: "free_chain (proxyPool s5) (m_freeProxy s5) (pid # F) (b2_nullProxy cfg)"
      by (simp add: s5_def)
    have "lb_of s5 axis p = invalid cfg \<and> ub_of s5 axis p = invalid cfg"
      if p: "p \<in> set (pid # F)" and ax: "axis = 0 \<or> axis = 1" for p axis
    proof (cases "p = pid")
      case True
      then show ?thesis using ax by (simp add: l5)
    next
      case False
      then have pF: "p \<in> set F" using p by simp
      have old: "lb_of s axis p = invalid cfg \<and> ub_of s axis p = invalid cfg"
        using fo pF ax unfolding free_ok_def by auto
      have nl: "p \<notin> L - {pid}" using pF by (auto simp: L_def live_set_def)
      have "lb_of s2 axis p = lb_of s axis p \<and> ub_of s2 axis p = ub_of s axis p"
        using ax
      proof
        assume "axis = 0"
        then show ?thesis using f1 f2 nl by (simp add: axis_frame_def)
      next
        assume "axis = 1"
        then show ?thesis using f1 f2 nl by (simp add: axis_frame_def)
      qed
      then show ?thesis using old False by (simp add: l5 l4 l3)
    qed
    then show ?thesis
      using c di rg inF len misc2 unfolding free_ok_def
      by (simp add: s5_def m4 s3_def N_def)
  qed
  have cnt: "2 * m_proxyCount s5 = 2 * n - 2" using misc2 by (simp add: s5_def m4 s3_def)
  have I4: "axis_ok s5 (live_set cfg (pid # F)) (2 * m_proxyCount s5) 0"
  proof -
    have "index_ok (m_bounds s2 0) (lb_of s5 0) (ub_of s5 0) (L - {pid}) (2 * n - 2)"
      using a20 unfolding axis_ok_def
      by (subst index_ok_cong [where lo' = "lb_of s2 0" and up' = "ub_of s2 0"])
         (auto simp: l5 l4 l3)
    then show ?thesis using a20 unfolding cnt L' by (simp add: axis_ok_def b5)
  qed
  have I5: "axis_ok s5 (live_set cfg (pid # F)) (2 * m_proxyCount s5) 1"
  proof -
    have "index_ok (m_bounds s2 1) (lb_of s5 1) (ub_of s5 1) (L - {pid}) (2 * n - 2)"
      using a21 unfolding axis_ok_def
      by (subst index_ok_cong [where lo' = "lb_of s2 1" and up' = "ub_of s2 1"])
         (auto simp: l5 l4 l3)
    then show ?thesis using a21 unfolding cnt L' by (simp add: axis_ok_def b5)
  qed
  have "stamps_le s3" using st2 by (simp add: stamps_le_def s3_def)
  then have t4': "\<forall>p x. proxyPool s4 p = Some x \<longrightarrow> timeStamp x < m_timeStamp s4" using t4 by simp
  have I6: "\<forall>p y. proxyPool s5 p = Some y \<longrightarrow> timeStamp y < m_timeStamp s5"
    using t4' x by (auto simp: s5_def x'_def SetNext_def)
  have I7: "m_queryResultCount s5 = 0" by (simp add: s5_def m4 s3_def)
  have I8: "frame_ok s5" using fr misc2 by (simp add: frame_ok_def s5_def m4 s3_def)
  have "broadphase_inv cfg s5 (pid # F)"
    unfolding broadphase_inv_def using I1 I2 I3 I4 I5 I6 I7 I8 by blast
  moreover have "m_proxyCount s5 = m_proxyCount s - 1" using misc2 by (simp add: s5_def m4 s3_def n_def)
  moreover have "m_freeProxy s5 = pid" by (simp add: s5_def)
  moreover have "\<exists>y. proxyPool s5 pid = Some y \<and> next y = m_freeProxy s"
    using misc2 by (simp add: s5_def x'_def SetNext_def m4 s3_def)
  moreover have "\<forall>p. p \<noteq> pid \<longrightarrow>
              rel_option (\<lambda>x x'. next x' = next x) (proxyPool s p) (proxyPool s5 p)"
    using rel4 by (simp add: s5_def)
  ultimately show ?thesis using de by blast
qed

section \<open>The constructor, and creating then destroying a proxy\<close>

lemma free_chain_new:
  assumes "0 \<le> i" "i \<le> N"
    and "\<forall>k. 0 \<le> k \<and> k < N \<longrightarrow> (\<exists>x. pool k = Some x \<and> next x = (if k = N - 1 then e else k + 1))"
  shows "free_chain pool (if i = N then e else i) [i..N - 1] e"
  using assms(1,2)
proof (induction "nat (N - i)" arbitrary: i)
  case 0
  then have "i = N" by simp
  then show ?case by simp
next
  case (Suc m)
  then have lt: "i < N" by simp
  then obtain x where x: "pool i = Some x" "next x = (if i = N - 1 then e else i + 1)"
    using assms(3) Suc.prems by blast
  have u: "[i..N - 1] = i # [i + 1..N - 1]" using lt by (simp add: upto_rec1)
  have "free_chain pool (if i + 1 = N then e else i + 1) [i + 1..N - 1] e"
    using Suc lt by (intro Suc.hyps(1)) auto
  moreover have "(if i + 1 = N then e else i + 1) = next x" using x by auto
  ultimately show ?case using x lt by (simp add: u)
qed

lemma new_BroadPhase_inv:
  assumes cfg: "cfg_ok cfg"
    and w: "vx (minVertex w) < vx (maxVertex w)" "vy (minVertex w) < vy (maxVertex w)"
  shows "broadphase_inv cfg (new_BroadPhase cfg w) [0..b2_maxProxies cfg - 1]"
proof -
  define N where "N = b2_maxProxies cfg"
  define s where "s = new_BroadPhase cfg w"
  have N: "0 < N" using cfg by (simp add: cfg_ok_def N_def)
  have pool: "proxyPool s = (\<lambda>i.
            if 0 \<le> i \<and> i < N - 1 then Some (SetNext (i + 1) (new_Proxy cfg))
            else if i = N - 1 then Some (SetNext (b2_nullProxy cfg) (new_Proxy cfg))
            else None)"
    unfolding s_def new_BroadPhase_def Let_def N_def by simp
  have bnd: "m_bounds s = (\<lambda>axis j. if 0 \<le> j \<and> j < 2 * N then Some new_Bound else None)"
    unfolding s_def new_BroadPhase_def Let_def N_def by simp
  have misc: "m_proxyCount s = 0" "m_freeProxy s = 0" "m_timeStamp s = 1" "m_queryResultCount s = 0"
    by (simp_all add: s_def new_BroadPhase_def Let_def)
  have I1: "pool_dom cfg s"
    using N by (auto simp: pool_dom_def pool bnd N_def [symmetric])
  have ch: "free_chain (proxyPool s) (if 0 = N then b2_nullProxy cfg else 0) [0..N - 1] (b2_nullProxy cfg)"
    using N by (intro free_chain_new) (auto simp: pool SetNext_def)
  have lbs: "lb_of s axis p = invalid cfg \<and> ub_of s axis p = invalid cfg" if "0 \<le> p" "p < N" for p axis
    using that by (auto simp: lb_of_def ub_of_def pool SetNext_def new_Proxy_def)
  have I3: "free_ok cfg s [0..N - 1]"
    unfolding free_ok_def using ch N lbs by (auto simp: misc N_def [symmetric])
  have L: "live_set cfg [0..N - 1] = {}" by (auto simp: live_set_def N_def)
  have I4: "axis_ok s {} 0 axis" for axis
    by (auto simp: axis_ok_def index_ok_def stab_ok_def sorted_upto_def holds_upto_def)
  have I6: "\<forall>p x. proxyPool s p = Some x \<longrightarrow> timeStamp x < m_timeStamp s"
    by (auto simp: pool misc SetNext_def new_Proxy_def split: if_splits)
  have I8: "frame_ok s" unfolding s_def by (rule frame_ok_new [OF w])
  show ?thesis
    unfolding broadphase_inv_def s_def [symmetric] N_def [symmetric]
    using I1 I3 I4 I6 I8 by (simp add: misc L)
qed

lemma free_chain_unique:
  "free_chain pool h F e \<Longrightarrow> free_chain pool h F' e \<Longrightarrow> e \<notin> set F \<Longrightarrow> e \<notin> set F' \<Longrightarrow> F = F'"
proof (induction F arbitrary: h F')
  case Nil
  then show ?case by (cases F') auto
next
  case (Cons p F)
  then show ?case by (cases F') (auto split: option.splits)
qed

lemma free_chain_head: "free_chain pool h F e \<Longrightarrow> h = (case F of [] \<Rightarrow> e | p # ps \<Rightarrow> p)"
  by (cases F) auto

lemma rel_next_map: "rel_option (\<lambda>x x'. next x' = next x) a b \<Longrightarrow> map_option next b = map_option next a"
  by (cases a; cases b) auto

text \<open>
  Claim C5.  In a state that satisfies the invariant (sorted bounds, consistent bound
  indices and stabbing counts, a well-formed free list) and has a free proxy, CreateProxy
  with a valid AABB followed by DestroyProxy of the returned id both return, and they
  restore the proxy count (half the bound-array length), the head of the free list and
  the next link of every free proxy, so that the free list is the same chain as before.
  On an exhausted pool CreateProxy raises.
\<close>

theorem CreateProxy_DestroyProxy_roundtrip:
  assumes "cfg_ok cfg" "broadphase_inv cfg s F" "AABB_IsValid aabb"
  shows "(m_proxyCount s < b2_maxProxies cfg \<longrightarrow>
           (\<exists>s1 pid s2. CreateProxy cfg s aabb ud = Some (s1, pid) \<and>
              DestroyProxy cfg s1 pid = Some s2 \<and>
              m_proxyCount s2 = m_proxyCount s \<and> m_freeProxy s2 = m_freeProxy s \<and>
              (\<forall>p\<in>set F. map_option next (proxyPool s2 p) = map_option next (proxyPool s p)) \<and>
              free_chain (proxyPool s2) (m_freeProxy s2) F (b2_nullProxy cfg))) \<and>
         (b2_maxProxies cfg \<le> m_proxyCount s \<longrightarrow> CreateProxy cfg s aabb ud = None)"
proof (intro conjI impI)
  have fo: "free_ok cfg s F" and pd: "pool_dom cfg s"
    using assms(2) by (auto simp: broadphase_inv_def)
  {
    assume "b2_maxProxies cfg \<le> m_proxyCount s"
    moreover have "int (length F) = b2_maxProxies cfg - m_proxyCount s"
      using fo by (simp add: free_ok_def)
    ultimately have "length F = 0" by linarith
    then have "F = []" by simp
    then have "m_freeProxy s = b2_nullProxy cfg" using fo by (auto simp: free_ok_def)
    moreover have "proxyPool s (b2_nullProxy cfg) = None"
    proof -
      have "\<not> (0 \<le> b2_nullProxy cfg \<and> b2_nullProxy cfg < b2_maxProxies cfg)"
        using assms(1) by (auto simp: cfg_ok_def)
      moreover have "(\<exists>y. proxyPool s (b2_nullProxy cfg) = Some y) =
          (0 \<le> b2_nullProxy cfg \<and> b2_nullProxy cfg < b2_maxProxies cfg)"
        using pd unfolding pool_dom_def by blast
      ultimately show ?thesis by (cases "proxyPool s (b2_nullProxy cfg)") auto
    qed
    ultimately show "CreateProxy cfg s aabb ud = None" by (simp add: CreateProxy_def)
  }
  assume "m_proxyCount s < b2_maxProxies cfg"
  then obtain pid F' where F: "F = pid # F'"
    using fo by (cases F) (auto simp: free_ok_def)
  have a: "vx (minVertex aabb) \<le> vx (maxVertex aabb)" "vy (minVertex aabb) \<le> vy (maxVertex aabb)"
    using assms(3) by (auto simp: AABB_IsValid_def)
  have hd: "m_freeProxy s = pid" and rg: "0 \<le> pid" "pid < b2_maxProxies cfg" "pid \<notin> set F'"
    using fo F by (auto simp: free_ok_def)
  obtain x where x: "proxyPool s pid = Some x"
    and ch: "free_chain (proxyPool s) (next x) F' (b2_nullProxy cfg)"
    using fo F by (auto simp: free_ok_def split: option.splits)
  obtain s1 where c: "CreateProxy cfg s aabb ud = Some (s1, pid)"
    and i1: "broadphase_inv cfg s1 F'"
    and r1: "\<forall>p. rel_option (\<lambda>x x'. next x' = next x) (proxyPool s p) (proxyPool s1 p)"
    using CreateProxy_inv [OF assms(1) assms(2) [unfolded F] a] by blast
  have "free_chain (proxyPool s1) (m_freeProxy s1) F' (b2_nullProxy cfg)"
    using i1 by (auto simp: broadphase_inv_def free_ok_def)
  then have h1: "m_freeProxy s1 = next x"
    using free_chain_head [OF ch] free_chain_head by fastforce
  have live: "pid \<in> live_set cfg F'" using rg by (simp add: live_set_def)
  obtain s2 where d: "DestroyProxy cfg s1 pid = Some s2"
    and i2: "broadphase_inv cfg s2 (pid # F')"
    and c2: "m_proxyCount s2 = m_proxyCount s1 - 1" "m_freeProxy s2 = pid"
    and x2: "\<exists>y. proxyPool s2 pid = Some y \<and> next y = m_freeProxy s1"
    and r2: "\<forall>p. p \<noteq> pid \<longrightarrow>
              rel_option (\<lambda>x x'. next x' = next x) (proxyPool s1 p) (proxyPool s2 p)"
    using DestroyProxy_inv [OF assms(1) i1 live] by blast
  have c1: "m_proxyCount s1 = m_proxyCount s + 1"
    using CreateProxy_inv [OF assms(1) assms(2) [unfolded F] a, of ud] c by auto
  have nx: "map_option next (proxyPool s2 p) = map_option next (proxyPool s p)" if "p \<in> set F" for p
  proof (cases "p = pid")
    case True
    then show ?thesis using x2 x h1 by auto
  next
    case False
    have "rel_option (\<lambda>x x'. next x' = next x) (proxyPool s p) (proxyPool s2 p)"
      using rel_next_trans r1 r2 False by blast
    then show ?thesis by (rule rel_next_map)
  qed
  have "free_chain (proxyPool s2) (m_freeProxy s2) F (b2_nullProxy cfg)"
    using i2 F by (auto simp: broadphase_inv_def free_ok_def)
  then show "\<exists>s1 pid s2. CreateProxy cfg s aabb ud = Some (s1, pid) \<and>
              DestroyProxy cfg s1 pid = Some s2 \<and>
              m_proxyCount s2 = m_proxyCount s \<and> m_freeProxy s2 = m_freeProxy s \<and>
              (\<forall>p\<in>set F. map_option next (proxyPool s2 p) = map_option next (proxyPool s p)) \<and>
              free_chain (proxyPool s2) (m_freeProxy s2) F (b2_nullProxy cfg)"
    using c d c1 c2 hd nx by auto
qed

lemma example_cfg_ok: "cfg_ok example_cfg"
  by (simp add: cfg_ok_def example_cfg_def)

lemma example_new_inv: "broadphase_inv example_cfg (new_BroadPhase example_cfg example_world) [0, 1]"
proof -
  have "[0..b2_maxProxies example_cfg - 1] = [0, 1]"
    by (simp add: example_cfg_def upto_rec1)
  then show ?thesis
    using new_BroadPhase_inv [OF example_cfg_ok, of example_world]
    by (simp add: example_world_def box_def)
qed

theorem CreateProxy_DestroyProxy_roundtrip_witness:
  "cfg_ok example_cfg \<and>
   broadphase_inv example_cfg (new_BroadPhase example_cfg example_world) [0, 1] \<and>
   AABB_IsValid (box 10 10 20 20) \<and>
   m_proxyCount (new_BroadPhase example_cfg example_world) < b2_maxProxies example_cfg \<and>
   (\<exists>s1 pid s2.
      CreateProxy example_cfg (new_BroadPhase example_cfg example_world) (box 10 10 20 20) None =
        Some (s1, pid) \<and>
      DestroyProxy example_cfg s1 pid = Some s2 \<and> m_proxyCount s2 = 0 \<and> m_freeProxy s2 = 0 \<and>
      free_chain (proxyPool s2) (m_freeProxy s2) [0, 1] (b2_nullProxy example_cfg))"
proof -
  have v: "AABB_IsValid (box 10 10 20 20)" by (simp add: AABB_IsValid_def box_def)
  have n: "m_proxyCount (new_BroadPhase example_cfg example_world) < b2_maxProxies example_cfg"
    "m_proxyCount (new_BroadPhase example_cfg example_world) = 0"
    "m_freeProxy (new_BroadPhase example_cfg example_world) = 0"
    by (simp_all add: new_BroadPhase_def Let_def example_cfg_def)
  show ?thesis
    using CreateProxy_DestroyProxy_roundtrip [OF example_cfg_ok example_new_inv v, of None]
      example_cfg_ok example_new_inv v n
    by (simp only: n(2,3)) blast
qed

section \<open>Query generations and QueryAABB\<close>

lemma IncrementOverlapCount_step:
  assumes g: "gen_seen s S" and i: "IncrementOverlapCount s p = Some s'"
  shows "gen_seen s' (insert p S)"
    and "p \<in> S \<Longrightarrow> m_queryResultCount s' = m_queryResultCount s + 1 \<and>
           m_queryResults s' = (m_queryResults s)(m_queryResultCount s \<mapsto> p)"
    and "p \<notin> S \<Longrightarrow> m_queryResultCount s' = m_queryResultCount s \<and>
           m_queryResults s' = m_queryResults s"
proof -
  obtain x where x: "proxyPool s p = Some x"
    using i by (auto simp: IncrementOverlapCount_def split: option.splits)
  have t: "if p \<in> S then timeStamp x = m_timeStamp s else timeStamp x < m_timeStamp s"
    using g x unfolding gen_seen_def by blast
  show "gen_seen s' (insert p S)"
    using g i x t unfolding gen_seen_def IncrementOverlapCount_def
    by (auto split: if_splits) blast+
  show "p \<in> S \<Longrightarrow> m_queryResultCount s' = m_queryResultCount s + 1 \<and>
           m_queryResults s' = (m_queryResults s)(m_queryResultCount s \<mapsto> p)"
    using i x t unfolding IncrementOverlapCount_def by (auto split: if_splits)
  show "p \<notin> S \<Longrightarrow> m_queryResultCount s' = m_queryResultCount s \<and>
           m_queryResults s' = m_queryResults s"
    using i x t unfolding IncrementOverlapCount_def by (auto split: if_splits)
qed

lemma res_ok_append:
  assumes "res_ok s rs" "m_queryResultCount s' = m_queryResultCount s + 1"
    "m_queryResults s' = (m_queryResults s)(m_queryResultCount s \<mapsto> p)"
  shows "res_ok s' (rs @ [p])"
  using assms unfolding res_ok_def by (auto simp: nth_append)

lemma res_ok_same:
  assumes "res_ok s rs" "m_queryResultCount s' = m_queryResultCount s"
    "m_queryResults s' = m_queryResults s"
  shows "res_ok s' rs"
  using assms unfolding res_ok_def by auto

lemma mark_all_results:
  "gen_seen s S \<Longrightarrow> res_ok s rs \<Longrightarrow> mark_all s ps = Some s' \<Longrightarrow>
     gen_seen s' (set ps \<union> S) \<and> res_ok s' (rs @ repeats S ps)"
proof (induction ps arbitrary: s S rs)
  case Nil
  then show ?case by simp
next
  case (Cons p ps)
  then obtain s1 where s1: "IncrementOverlapCount s p = Some s1" "mark_all s1 ps = Some s'"
    by (auto split: option.splits)
  note st = IncrementOverlapCount_step [OF Cons.prems(1) s1(1)]
  have r1: "res_ok s1 (rs @ (if p \<in> S then [p] else []))"
  proof (cases "p \<in> S")
    case True
    then show ?thesis using res_ok_append [OF Cons.prems(2)] st(2) by simp
  next
    case False
    then show ?thesis using res_ok_same [OF Cons.prems(2)] st(3) by simp
  qed
  have "gen_seen s' (set ps \<union> insert p S) \<and>
        res_ok s' ((rs @ (if p \<in> S then [p] else [])) @ repeats (insert p S) ps)"
    by (rule Cons.IH [OF st(1) r1 s1(2)])
  then show ?case by simp
qed

lemma repeats_distinct: "distinct ps \<Longrightarrow> repeats S ps = filter (\<lambda>p. p \<in> S) ps"
proof (induction ps arbitrary: S)
  case Nil
  show ?case by simp
next
  case (Cons p ps)
  have "filter (\<lambda>q. q \<in> insert p S) ps = filter (\<lambda>q. q \<in> S) ps"
    using Cons.prems by (intro filter_cong) auto
  then show ?case using Cons by simp
qed

lemma repeats_append: "repeats S (ps @ qs) = repeats S ps @ repeats (set ps \<union> S) qs"
  by (induction ps arbitrary: S) auto

lemma repeats_two_passes:
  assumes "distinct m0" "distinct m1"
  shows "repeats {} (m0 @ m1) = filter (\<lambda>p. p \<in> set m0) m1"
  using assms by (simp add: repeats_append repeats_distinct)

lemma query_marks_distinct:
  assumes ok: "index_ok bounds lo up L bc" and lq: "0 \<le> lq" "lq \<le> bc" and uq: "uq \<le> bc"
  shows "distinct (query_marks bounds up lq uq)"
proof -
  define xs where "xs = filter (b_low bounds) [lq..uq - 1] @
     filter (\<lambda>k. b_low bounds k \<and> lq \<le> up (b_pid bounds k)) (rev [0..lq - 1])"
  have q: "query_marks bounds up lq uq = map (b_pid bounds) xs"
    by (simp add: query_marks_def easy_marks_def hard_marks_def xs_def)
  have d: "distinct xs" by (auto simp: xs_def)
  have m: "0 \<le> k \<and> k < bc \<and> b_low bounds k" if "k \<in> set xs" for k
    using that lq uq by (auto simp: xs_def)
  have lo: "lo (b_pid bounds k) = k" if "k \<in> set xs" for k
    using ok m [OF that] unfolding index_ok_def by metis
  have "inj_on (b_pid bounds) (set xs)"
    by (rule inj_onI) (metis lo)
  then show ?thesis using d by (simp add: q distinct_map)
qed

lemma query_marks_mem:
  assumes ok: "index_ok bounds lo up L bc" and lq: "0 \<le> lq" "lq \<le> bc" and uq: "uq \<le> bc"
    and p: "p \<in> set (query_marks bounds up lq uq)"
  shows "p \<in> L \<and> ((lq \<le> lo p \<and> lo p < uq) \<or> (lo p < lq \<and> lq \<le> up p))"
proof -
  obtain k where k: "b_pid bounds k = p" "b_low bounds k"
    "(lq \<le> k \<and> k < uq) \<or> (0 \<le> k \<and> k < lq \<and> lq \<le> up (b_pid bounds k))"
    using p by (auto simp: query_marks_def easy_marks_def hard_marks_def)
  have r: "0 \<le> k \<and> k < bc" using k(3) lq uq by auto
  have "b_pid bounds k \<in> L \<and> lo (b_pid bounds k) = k"
    using ok r k(2) unfolding index_ok_def by metis
  then show ?thesis using k by auto
qed

lemma marked_overlaps_axis:
  assumes ax: "axis_ok s L bc axis" and bc: "0 \<le> bc"
    and lq: "BinarySearch (m_bounds s axis) bc (lowerValues vals axis) = Some lq"
    and uq: "BinarySearch (m_bounds s axis) bc (upperValues vals axis) = Some uq"
    and le: "lowerValues vals axis \<le> upperValues vals axis"
    and p: "p \<in> set (query_marks (m_bounds s axis) (ub_of s axis) lq uq)"
  shows "TestOverlap_axis s vals (the (proxyPool s p)) axis = Some True"
proof -
  define B where "B = m_bounds s axis"
  have ok: "index_ok B (lb_of s axis) (ub_of s axis) L bc" and so: "sorted_upto B bc"
    using ax by (simp_all add: axis_ok_def B_def)
  have h: "holds_upto B bc" using ok by (simp add: index_ok_def)
  obtain r where r: "BinarySearch B bc (lowerValues vals axis) = Some r" "0 \<le> r" "r \<le> bc"
    "\<forall>i. r \<le> i \<and> i < bc \<longrightarrow> lowerValues vals axis \<le> b_val B i"
    "\<forall>i. 0 \<le> i \<and> i < r \<longrightarrow> b_val B i \<le> lowerValues vals axis"
    using BinarySearch_weak [OF bc h so, of "lowerValues vals axis"] by auto
  obtain r' where r': "BinarySearch B bc (upperValues vals axis) = Some r'" "0 \<le> r'" "r' \<le> bc"
    "\<forall>i. 0 \<le> i \<and> i < r' \<longrightarrow> b_val B i \<le> upperValues vals axis"
    using BinarySearch_weak [OF bc h so, of "upperValues vals axis"] by auto
  have e: "r = lq" "r' = uq" using r(1) r'(1) lq uq by (simp_all add: B_def)
  have m: "p \<in> L" "(lq \<le> lb_of s axis p \<and> lb_of s axis p < uq) \<or>
       (lb_of s axis p < lq \<and> lq \<le> ub_of s axis p)"
    using query_marks_mem [OF ok r(2,3) [unfolded e] r'(3) [unfolded e] p [folded B_def]] by auto
  have i: "0 \<le> lb_of s axis p" "lb_of s axis p < ub_of s axis p" "ub_of s axis p < bc"
    using ok m(1) unfolding index_ok_def by auto
  have v1: "lowerValues vals axis \<le> b_val B (ub_of s axis p)"
    using r(4) [unfolded e] m(2) i by auto
  have v2: "b_val B (lb_of s axis p) \<le> upperValues vals axis"
    using r(5) [unfolded e] r'(4) [unfolded e] m(2) i le by force
  obtain bu where bu: "B (ub_of s axis p) = Some bu"
    using h i unfolding holds_upto_def by (metis less_imp_le order_trans not_None_eq)
  obtain bl where bl: "B (lb_of s axis p) = Some bl"
    using h i unfolding holds_upto_def by (metis less_trans not_None_eq)
  show ?thesis
    using v1 v2 bu bl
    by (simp add: TestOverlap_axis_def B_def [symmetric] ub_of_def [symmetric] lb_of_def [symmetric]
        b_val_def)
qed

lemma collect_userData_result:
  assumes r: "res_ok s rs" and d: "\<forall>p\<in>set rs. proxyPool s p \<noteq> None"
    and i: "0 \<le> i" "i \<le> int (length rs)" and c: "count = i"
  shows "collect_userData s maxCount i count out =
           Some (out @ map (\<lambda>p. userData (the (proxyPool s p)))
                         (take (nat (maxCount - i)) (drop (nat i) rs)),
                 i + int (length (take (nat (maxCount - i)) (drop (nat i) rs))))"
  using r d i c
proof (induction s maxCount i count out rule: collect_userData.induct)
  case (1 s maxCount i count out)
  note r = "1.prems"(1) and d = "1.prems"(2)
  have cnt: "m_queryResultCount s = int (length rs)" using r by (simp add: res_ok_def)
  show ?case
  proof (cases "i < m_queryResultCount s \<and> count < maxCount")
    case False
    then have e: "take (nat (maxCount - i)) (drop (nat i) rs) = []"
      using "1.prems" cnt by auto
    have "collect_userData s maxCount i count out = Some (out, count)"
      using False by (subst collect_userData.simps) auto
    then show ?thesis unfolding e using "1.prems"(5) by simp
  next
    case True
    have ni: "nat i < length rs" using True 1 cnt by auto
    have q: "m_queryResults s i = Some (rs ! nat i)"
      using r ni 1 unfolding res_ok_def by (metis int_nat_eq)
    obtain x where x: "proxyPool s (rs ! nat i) = Some x"
      using d ni by (metis nth_mem not_None_eq)
    have t: "take (nat (maxCount - i)) (drop (nat i) rs) =
         rs ! nat i # take (nat (maxCount - (i + 1))) (drop (nat (i + 1)) rs)"
    proof -
      have "drop (nat i) rs = rs ! nat i # drop (Suc (nat i)) rs"
        using ni by (simp add: Cons_nth_drop_Suc)
      moreover have "nat (maxCount - i) = Suc (nat (maxCount - (i + 1)))"
        using True 1 by auto
      moreover have "nat (i + 1) = Suc (nat i)" using 1 by auto
      ultimately show ?thesis by simp
    qed
    have ih: "collect_userData s maxCount (i + 1) (count + 1) (out @ [userData x]) =
        Some ((out @ [userData x]) @ map (\<lambda>p. userData (the (proxyPool s p)))
                         (take (nat (maxCount - (i + 1))) (drop (nat (i + 1)) rs)),
              (i + 1) + int (length (take (nat (maxCount - (i + 1))) (drop (nat (i + 1)) rs))))"
      using "1.IH" [OF True q x r d] ni "1.prems" by auto
    show ?thesis
      using True q x by (subst collect_userData.simps) (simp add: ih t x)
  qed
qed

lemma marks_in_live:
  assumes ok: "index_ok bounds lo up L bc" and lq: "0 \<le> lq" "lq \<le> bc" and uq: "uq \<le> bc"
  shows "set (query_marks bounds up lq uq) \<subseteq> L"
  using query_marks_mem [OF ok lq uq] by blast

lemma QueryAABB_result:
  fixes cfg :: Settings and s :: BroadPhase and F :: "int list" and aabb :: AABB and maxCount :: int
  assumes cfg: "cfg_ok cfg" and inv: "broadphase_inv cfg s F"
  defines "vals \<equiv> ComputeBounds s aabb"
  defines "m0 \<equiv> pass_marks s vals 0" and "m1 \<equiv> pass_marks s vals 1"
  shows "\<exists>s1 l0 u0 s2 l1 u1 s' out count.
     Query s (lowerValues vals 0) (upperValues vals 0) (m_bounds s 0) (2 * m_proxyCount s) 0 =
       Some (s1, l0, u0) \<and> mark_all s m0 = Some s1 \<and>
     Query s1 (lowerValues vals 1) (upperValues vals 1) (m_bounds s1 1) (2 * m_proxyCount s1) 1 =
       Some (s2, l1, u1) \<and> mark_all s1 m1 = Some s2 \<and>
     res_ok s2 (filter (\<lambda>p. p \<in> set m0) m1) \<and>
     QueryAABB cfg s aabb maxCount = Some (s', out, count) \<and>
     out = map (\<lambda>p. userData (the (proxyPool s p)))
             (take (nat maxCount) (filter (\<lambda>p. p \<in> set m0) m1)) \<and>
     count = int (length out) \<and>
     distinct m0 \<and> distinct m1 \<and> set m0 \<subseteq> live_set cfg F \<and> set m1 \<subseteq> live_set cfg F \<and>
     (lowerValues vals 0 \<le> upperValues vals 0 \<longrightarrow>
        (\<forall>p\<in>set m0. TestOverlap_axis s vals (the (proxyPool s p)) 0 = Some True)) \<and>
     (lowerValues vals 1 \<le> upperValues vals 1 \<longrightarrow>
        (\<forall>p\<in>set m1. TestOverlap_axis s vals (the (proxyPool s p)) 1 = Some True)) \<and>
     broadphase_inv cfg s' F"
proof -
  define n where "n = m_proxyCount s"
  define L where "L = live_set cfg F"
  have pd: "pool_dom cfg s" and n0: "0 \<le> n" and fo: "free_ok cfg s F"
    and a0: "axis_ok s L (2 * n) 0" and a1: "axis_ok s L (2 * n) 1"
    and ts: "\<forall>p x. proxyPool s p = Some x \<longrightarrow> timeStamp x < m_timeStamp s"
    and qc: "m_queryResultCount s = 0"
    and fr: "frame_ok s"
    using inv by (auto simp: broadphase_inv_def n_def L_def)
  have bc: "0 \<le> 2 * n" using n0 by simp
  have dom: "proxyPool s p \<noteq> None \<longleftrightarrow> 0 \<le> p \<and> p < b2_maxProxies cfg" for p
    using pd by (simp add: pool_dom_def)
  have inL: "proxyPool s p \<noteq> None" if "p \<in> L" for p
    using that dom [of p] by (auto simp: L_def live_set_def)
  have ok0: "index_ok (m_bounds s 0) (lb_of s 0) (ub_of s 0) L (2 * n)"
    and st0: "stab_ok (m_bounds s 0) (2 * n)" and so0: "sorted_upto (m_bounds s 0) (2 * n)"
    using a0 by (simp_all add: axis_ok_def)
  have ok1: "index_ok (m_bounds s 1) (lb_of s 1) (ub_of s 1) L (2 * n)"
    and st1: "stab_ok (m_bounds s 1) (2 * n)" and so1: "sorted_upto (m_bounds s 1) (2 * n)"
    using a1 by (simp_all add: axis_ok_def)
  have p0: "\<forall>p\<in>L. proxyPool s p \<noteq> None \<and> ub_of s 0 p = ub_of s 0 p" using inL by simp
  obtain s1 l0 u0 where q0: "Query s (lowerValues vals 0) (upperValues vals 0) (m_bounds s 0) (2 * n) 0 =
       Some (s1, l0, u0)"
    and b0: "BinarySearch (m_bounds s 0) (2 * n) (lowerValues vals 0) = Some l0"
       "BinarySearch (m_bounds s 0) (2 * n) (upperValues vals 0) = Some u0"
    and k0: "mark_all s (query_marks (m_bounds s 0) (ub_of s 0) l0 u0) = Some s1"
    using Query_result [OF ok0 st0 so0 bc p0] by blast
  have m0: "m0 = query_marks (m_bounds s 0) (ub_of s 0) l0 u0"
    by (simp add: m0_def pass_marks_def n_def [symmetric] b0)
  note mr1 = mark_all_marks_rel [OF k0]
  have e1: "m_bounds s1 = m_bounds s" "m_proxyCount s1 = n"
    using mr1 by (simp_all add: marks_rel_def n_def)
  have p1: "\<forall>p\<in>L. proxyPool s1 p \<noteq> None \<and> ub_of s1 1 p = ub_of s 1 p"
    using inL marks_rel_defined [OF mr1] marks_rel_ub [OF mr1] by simp
  obtain s2 l1 u1 where q1: "Query s1 (lowerValues vals 1) (upperValues vals 1) (m_bounds s 1) (2 * n) 1 =
       Some (s2, l1, u1)"
    and b1: "BinarySearch (m_bounds s 1) (2 * n) (lowerValues vals 1) = Some l1"
       "BinarySearch (m_bounds s 1) (2 * n) (upperValues vals 1) = Some u1"
    and k1: "mark_all s1 (query_marks (m_bounds s 1) (ub_of s 1) l1 u1) = Some s2"
    using Query_result [OF ok1 st1 so1 bc p1] by blast
  have m1: "m1 = query_marks (m_bounds s 1) (ub_of s 1) l1 u1"
    by (simp add: m1_def pass_marks_def n_def [symmetric] b1)
  note mr2 = mark_all_marks_rel [OF k1]
  note mr = marks_rel_trans [OF mr1 mr2]
  have h0: "holds_upto (m_bounds s 0) (2 * n)" and h1: "holds_upto (m_bounds s 1) (2 * n)"
    using ok0 ok1 by (simp_all add: index_ok_def)
  have r0: "0 \<le> l0" "l0 \<le> 2 * n" "u0 \<le> 2 * n"
    using BinarySearch_weak [OF bc h0 so0, of "lowerValues vals 0"]
      BinarySearch_weak [OF bc h0 so0, of "upperValues vals 0"] b0 by auto
  have r1: "0 \<le> l1" "l1 \<le> 2 * n" "u1 \<le> 2 * n"
    using BinarySearch_weak [OF bc h1 so1, of "lowerValues vals 1"]
      BinarySearch_weak [OF bc h1 so1, of "upperValues vals 1"] b1 by auto
  have d0: "distinct m0" unfolding m0 by (rule query_marks_distinct [OF ok0 r0])
  have d1: "distinct m1" unfolding m1 by (rule query_marks_distinct [OF ok1 r1])
  have i0: "set m0 \<subseteq> L" unfolding m0 by (rule marks_in_live [OF ok0 r0])
  have i1: "set m1 \<subseteq> L" unfolding m1 by (rule marks_in_live [OF ok1 r1])
  have g: "gen_seen s {}" using ts by (simp add: gen_seen_def)
  have re: "res_ok s []" using qc by (simp add: res_ok_def)
  have k: "mark_all s (m0 @ m1) = Some s2"
    using k0 k1 by (simp add: mark_all_append m0 m1)
  define ids where "ids = filter (\<lambda>p. p \<in> set m0) m1"
  have res: "res_ok s2 ids"
    using mark_all_results [OF g re k] repeats_two_passes [OF d0 d1] by (simp add: ids_def)
  have dd: "\<forall>p\<in>set ids. proxyPool s2 p \<noteq> None"
    using i1 inL marks_rel_defined [OF mr] by (auto simp: ids_def)
  have ud: "userData (the (proxyPool s2 p)) = userData (the (proxyPool s p))" if "p \<in> set ids" for p
  proof -
    have "rel_option same_links (proxyPool s p) (proxyPool s2 p)"
      using mr by (simp add: marks_rel_def)
    then show ?thesis
      by (cases "proxyPool s p"; cases "proxyPool s2 p") (auto simp: same_links_def)
  qed
  have cu: "collect_userData s2 maxCount 0 0 [] =
      Some (map (\<lambda>p. userData (the (proxyPool s p))) (take (nat maxCount) ids),
            int (length (take (nat maxCount) ids)))"
  proof -
    have "map (\<lambda>p. userData (the (proxyPool s2 p))) (take (nat maxCount) ids) =
          map (\<lambda>p. userData (the (proxyPool s p))) (take (nat maxCount) ids)"
      using ud by (intro map_cong) (auto dest: in_set_takeD)
    then show ?thesis
      using collect_userData_result [OF res dd, of 0 0 maxCount "[]"] by simp
  qed
  define s2' where "s2' = s2\<lparr>m_queryResultCount := 0\<rparr>"
  have dom2: "\<forall>p. proxyPool s2' p \<noteq> None \<longleftrightarrow> 0 \<le> p \<and> p < b2_maxProxies cfg"
    using marks_rel_defined [OF mr] dom by (simp add: s2'_def)
  obtain s3 where s3: "IncrementTimeStamp cfg s2' = Some s3"
    and b3: "m_bounds s3 = m_bounds s2'" and l3: "lb_of s3 = lb_of s2'" "ub_of s3 = ub_of s2'"
    and x3: "\<forall>p. rel_option (\<lambda>x x'. next x' = next x) (proxyPool s2' p) (proxyPool s3 p)"
    and t3: "stamps_le s2' \<longrightarrow> (\<forall>p x. proxyPool s3 p = Some x \<longrightarrow> timeStamp x < m_timeStamp s3)"
    and m3: "m_freeProxy s3 = m_freeProxy s2'" "m_proxyCount s3 = m_proxyCount s2'"
       "m_queryResultCount s3 = m_queryResultCount s2'" "m_worldAABB s3 = m_worldAABB s2'"
       "m_quantizationFactor s3 = m_quantizationFactor s2'"
    using IncrementTimeStamp_frame [OF dom2] by blast
  have qa: "QueryAABB cfg s aabb maxCount =
      Some (s3, map (\<lambda>p. userData (the (proxyPool s p))) (take (nat maxCount) ids),
            int (length (take (nat maxCount) ids)))"
    unfolding QueryAABB_def
    by (simp add: Let_def vals_def [symmetric] n_def [symmetric] q0 e1 q1 cu s2'_def [symmetric] s3
        del: ComputeBounds_def)
  have sle: "stamps_le s" using ts by (auto simp: stamps_le_def less_imp_le)
  have sl2: "stamps_le s2'"
    using mark_all_stamps [OF k sle] by (simp add: stamps_le_def s2'_def)
  have e2: "m_bounds s2' = m_bounds s" "lb_of s2' = lb_of s" "ub_of s2' = ub_of s"
    "m_freeProxy s2' = m_freeProxy s" "m_proxyCount s2' = n" "m_worldAABB s2' = m_worldAABB s"
    "m_quantizationFactor s2' = m_quantizationFactor s" "m_queryResultCount s2' = 0"
  proof -
    have "lb_of s2' = lb_of s2" "ub_of s2' = ub_of s2"
      by (simp_all add: lb_of_def ub_of_def fun_eq_iff s2'_def)
    then show "lb_of s2' = lb_of s" "ub_of s2' = ub_of s"
      using marks_rel_lb [OF mr] marks_rel_ub [OF mr] by (simp_all add: fun_eq_iff)
  qed (use mr in \<open>simp_all add: marks_rel_def s2'_def n_def\<close>)
  have rel: "rel_option (\<lambda>x x'. next x' = next x) (proxyPool s p) (proxyPool s3 p)" for p
  proof -
    have "rel_option (\<lambda>x x'. next x' = next x) (proxyPool s p) (proxyPool s2' p)"
      using marks_rel_next [OF mr, of p] by (simp add: s2'_def)
    then show ?thesis using x3 rel_next_trans by blast
  qed
  have I1: "pool_dom cfg s3"
    using pd rel_next_defined [OF rel] unfolding pool_dom_def b3 e2 by simp
  have I3: "free_ok cfg s3 F"
  proof -
    have "free_chain (proxyPool s3) (m_freeProxy s) F (b2_nullProxy cfg) =
          free_chain (proxyPool s) (m_freeProxy s) F (b2_nullProxy cfg)"
      by (rule free_chain_cong) (use rel in blast)
    then show ?thesis using fo by (simp add: free_ok_def m3 e2 l3 n_def)
  qed
  have I4: "axis_ok s3 L (2 * n) 0" "axis_ok s3 L (2 * n) 1"
    using a0 a1 by (simp_all add: axis_ok_def b3 l3 e2)
  have I6: "frame_ok s3" using fr by (simp add: frame_ok_def m3 e2)
  have inv3: "broadphase_inv cfg s3 F"
    unfolding broadphase_inv_def
    using I1 n0 I3 I4 t3 sl2 I6 by (simp add: m3 e2 L_def)
  have ov0: "\<forall>p\<in>set m0. TestOverlap_axis s vals (the (proxyPool s p)) 0 = Some True"
    if "lowerValues vals 0 \<le> upperValues vals 0"
    using marked_overlaps_axis [OF a0 bc b0 that] by (simp add: m0)
  have ov1: "\<forall>p\<in>set m1. TestOverlap_axis s vals (the (proxyPool s p)) 1 = Some True"
    if "lowerValues vals 1 \<le> upperValues vals 1"
    using marked_overlaps_axis [OF a1 bc b1 that] by (simp add: m1)
  have q0': "Query s (lowerValues vals 0) (upperValues vals 0) (m_bounds s 0) (2 * m_proxyCount s) 0 =
       Some (s1, l0, u0)"
    using q0 by (simp add: n_def)
  have q1': "Query s1 (lowerValues vals 1) (upperValues vals 1) (m_bounds s1 1) (2 * m_proxyCount s1) 1 =
       Some (s2, l1, u1)"
    using q1 by (simp add: e1)
  have k0': "mark_all s m0 = Some s1" using k0 by (simp add: m0)
  have k1': "mark_all s1 m1 = Some s2" using k1 by (simp add: m1)
  have i0': "set m0 \<subseteq> live_set cfg F" and i1': "set m1 \<subseteq> live_set cfg F"
    using i0 i1 by (simp_all add: L_def)
  show ?thesis
    apply (intro exI conjI)
                 apply (rule q0')
                apply (rule k0')
               apply (rule q1')
              apply (rule k1')
             apply (rule res [unfolded ids_def])
            apply (rule qa [unfolded ids_def])
           apply (rule refl)
          apply simp
         apply (rule d0)
        apply (rule d1)
       apply (rule i0')
      apply (rule i1')
     apply (use ov0 in blast)
    apply (use ov1 in blast)
    apply (rule inv3)
    done
qed

lemma example_state_inv: "broadphase_inv example_cfg example_state [1]"
proof -
  have "vx (minVertex (box 10 10 20 20)) \<le> vx (maxVertex (box 10 10 20 20))"
    "vy (minVertex (box 10 10 20 20)) \<le> vy (maxVertex (box 10 10 20 20))"
    by (simp_all add: box_def)
  from CreateProxy_inv [OF example_cfg_ok example_new_inv this, of "Some 7"]
  obtain s' where "CreateProxy example_cfg (new_BroadPhase example_cfg example_world)
                (box 10 10 20 20) (Some 7) = Some (s', 0)" "broadphase_inv example_cfg s' [1]"
    by blast
  then show ?thesis by (simp add: example_state_def)
qed

text \<open>
  Claim C3.  In a state that satisfies the invariant (so that a query generation starts: no
  proxy carries the current time stamp and the result set is empty), after any sequence
  \<open>ps\<close> of IncrementOverlapCount calls a further call for the proxy \<open>p\<close> appends \<open>p\<close> to
  m_queryResults exactly when \<open>p\<close> was already marked by one of the calls \<open>ps\<close>, and leaves
  the result set unchanged otherwise.  QueryAABB returns; its two Query passes are the
  IncrementOverlapCount calls for the proxies \<open>pass_marks\<close> of axis 0 and then of axis 1,
  the result set is the list of the proxies marked by the pass of axis 1 that the pass of
  axis 0 marked too, the user data returned are those of the first \<open>maxCount\<close> of them, and
  for a query box with ordered corners every one of them overlaps the query range on both
  axes in the sense of TestOverlap.
\<close>

theorem QueryAABB_reports_marked_on_both_axes:
  fixes cfg :: Settings and s :: BroadPhase and F :: "int list" and aabb :: AABB and maxCount :: int
  assumes "cfg_ok cfg" and "broadphase_inv cfg s F"
  shows "(\<forall>ps s1 p s2. mark_all s ps = Some s1 \<and> IncrementOverlapCount s1 p = Some s2 \<longrightarrow>
            (if p \<in> set ps
             then m_queryResultCount s2 = m_queryResultCount s1 + 1 \<and>
                  m_queryResults s2 = (m_queryResults s1)(m_queryResultCount s1 \<mapsto> p)
             else m_queryResultCount s2 = m_queryResultCount s1 \<and>
                  m_queryResults s2 = m_queryResults s1)) \<and>
         (let vals = ComputeBounds s aabb;
              m0 = pass_marks s vals 0; m1 = pass_marks s vals 1;
              both = filter (\<lambda>p. p \<in> set m0) m1
          in \<exists>s1 l0 u0 s2 l1 u1 s' out count.
               Query s (lowerValues vals 0) (upperValues vals 0) (m_bounds s 0)
                 (2 * m_proxyCount s) 0 = Some (s1, l0, u0) \<and>
               mark_all s m0 = Some s1 \<and>
               Query s1 (lowerValues vals 1) (upperValues vals 1) (m_bounds s1 1)
                 (2 * m_proxyCount s1) 1 = Some (s2, l1, u1) \<and>
               mark_all s1 m1 = Some s2 \<and>
               res_ok s2 both \<and>
               QueryAABB cfg s aabb maxCount = Some (s', out, count) \<and>
               out = map (\<lambda>p. userData (the (proxyPool s p))) (take (nat maxCount) both) \<and>
               count = int (length out) \<and>
               (vx (minVertex aabb) \<le> vx (maxVertex aabb) \<and>
                vy (minVertex aabb) \<le> vy (maxVertex aabb) \<longrightarrow>
                  (\<forall>p\<in>set both. TestOverlap s vals (the (proxyPool s p)) = Some True)))"
proof (rule conjI)
  have ts: "\<forall>p x. proxyPool s p = Some x \<longrightarrow> timeStamp x < m_timeStamp s"
    and qc: "m_queryResultCount s = 0" and fr: "frame_ok s"
    using assms(2) by (auto simp: broadphase_inv_def)
  have g: "gen_seen s {}" using ts by (simp add: gen_seen_def)
  have re: "res_ok s []" using qc by (simp add: res_ok_def)
  show "\<forall>ps s1 p s2. mark_all s ps = Some s1 \<and> IncrementOverlapCount s1 p = Some s2 \<longrightarrow>
            (if p \<in> set ps
             then m_queryResultCount s2 = m_queryResultCount s1 + 1 \<and>
                  m_queryResults s2 = (m_queryResults s1)(m_queryResultCount s1 \<mapsto> p)
             else m_queryResultCount s2 = m_queryResultCount s1 \<and>
                  m_queryResults s2 = m_queryResults s1)"
  proof (intro allI impI)
    fix ps s1 p s2
    assume a: "mark_all s ps = Some s1 \<and> IncrementOverlapCount s1 p = Some s2"
    have g1: "gen_seen s1 (set ps)"
      using mark_all_results [OF g re conjunct1 [OF a]] by simp
    show "if p \<in> set ps
          then m_queryResultCount s2 = m_queryResultCount s1 + 1 \<and>
               m_queryResults s2 = (m_queryResults s1)(m_queryResultCount s1 \<mapsto> p)
          else m_queryResultCount s2 = m_queryResultCount s1 \<and>
               m_queryResults s2 = m_queryResults s1"
      using IncrementOverlapCount_step(2,3) [OF g1 conjunct2 [OF a]] by simp
  qed
  define vals where "vals = ComputeBounds s aabb"
  define m0 where "m0 = pass_marks s vals 0"
  define m1 where "m1 = pass_marks s vals 1"
  define both where "both = filter (\<lambda>p. p \<in> set m0) m1"
  obtain s1 l0 u0 s2 l1 u1 s' out count where
    r: "Query s (lowerValues vals 0) (upperValues vals 0) (m_bounds s 0)
          (2 * m_proxyCount s) 0 = Some (s1, l0, u0)"
       "mark_all s m0 = Some s1"
       "Query s1 (lowerValues vals 1) (upperValues vals 1) (m_bounds s1 1)
          (2 * m_proxyCount s1) 1 = Some (s2, l1, u1)"
       "mark_all s1 m1 = Some s2"
       "res_ok s2 both"
       "QueryAABB cfg s aabb maxCount = Some (s', out, count)"
       "out = map (\<lambda>p. userData (the (proxyPool s p))) (take (nat maxCount) both)"
       "count = int (length out)"
    and o0: "lowerValues vals 0 \<le> upperValues vals 0 \<longrightarrow>
        (\<forall>p\<in>set m0. TestOverlap_axis s vals (the (proxyPool s p)) 0 = Some True)"
    and o1: "lowerValues vals 1 \<le> upperValues vals 1 \<longrightarrow>
        (\<forall>p\<in>set m1. TestOverlap_axis s vals (the (proxyPool s p)) 1 = Some True)"
    using QueryAABB_result [OF assms, of aabb maxCount]
    unfolding vals_def [symmetric] m0_def [symmetric] m1_def [symmetric] both_def [symmetric]
    by blast
  have ov: "\<forall>p\<in>set both. TestOverlap s vals (the (proxyPool s p)) = Some True"
    if a: "vx (minVertex aabb) \<le> vx (maxVertex aabb) \<and> vy (minVertex aabb) \<le> vy (maxVertex aabb)"
  proof -
    have "lowerValues vals 0 < upperValues vals 0" "lowerValues vals 1 < upperValues vals 1"
      using ComputeBounds_ordered(1) [OF fr conjunct1 [OF a] conjunct2 [OF a]]
      by (simp_all add: vals_def del: ComputeBounds_def)
    then show ?thesis using o0 o1 by (auto simp: both_def TestOverlap_def)
  qed
  show "let vals = ComputeBounds s aabb;
            m0 = pass_marks s vals 0; m1 = pass_marks s vals 1;
            both = filter (\<lambda>p. p \<in> set m0) m1
        in \<exists>s1 l0 u0 s2 l1 u1 s' out count.
               Query s (lowerValues vals 0) (upperValues vals 0) (m_bounds s 0)
                 (2 * m_proxyCount s) 0 = Some (s1, l0, u0) \<and>
               mark_all s m0 = Some s1 \<and>
               Query s1 (lowerValues vals 1) (upperValues vals 1) (m_bounds s1 1)
                 (2 * m_proxyCount s1) 1 = Some (s2, l1, u1) \<and>
               mark_all s1 m1 = Some s2 \<and>
               res_ok s2 both \<and>
               QueryAABB cfg s aabb maxCount = Some (s', out, count) \<and>
               out = map (\<lambda>p. userData (the (proxyPool s p))) (take (nat maxCount) both) \<and>
               count = int (length out) \<and>
               (vx (minVertex aabb) \<le> vx (maxVertex aabb) \<and>
                vy (minVertex aabb) \<le> vy (maxVertex aabb) \<longrightarrow>
                  (\<forall>p\<in>set both. TestOverlap s vals (the (proxyPool s p)) = Some True))"
    unfolding Let_def vals_def [symmetric] m0_def [symmetric] m1_def [symmetric] both_def [symmetric]
    using r ov by blast
qed

lemma ComputeBounds_eta:
  "ComputeBounds s aabb =
     bound_values (lowerValues (ComputeBounds s aabb) 0) (upperValues (ComputeBounds s aabb) 0)
       (lowerValues (ComputeBounds s aabb) 1) (upperValues (ComputeBounds s aabb) 1)"
  by (simp add: ComputeBounds_def Let_def bound_values_def)

lemma CreateProxy_eq_vals:
  "CreateProxy cfg s aabb ud = CreateProxy_vals cfg s (ComputeBounds s aabb) ud"
proof (cases "proxyPool s (m_freeProxy s)")
  case None
  then show ?thesis by (simp add: CreateProxy_def CreateProxy_vals_def)
next
  case (Some x)
  have "ComputeBounds (s\<lparr>m_freeProxy := GetNext x,
          proxyPool := (proxyPool s)(m_freeProxy s \<mapsto> x\<lparr>overlapCount := 0, userData := ud\<rparr>)\<rparr>) aabb =
        ComputeBounds s aabb"
    by (simp add: ComputeBounds_def)
  then show ?thesis
    by (simp add: CreateProxy_def CreateProxy_vals_def Some Let_def del: ComputeBounds_def)
qed

lemma example_quantized:
  "code_quantize (5764519562104013 / 8796093022208) 0 100 10 = 13107 / 2"
  "code_quantize (5764519562104013 / 8796093022208) 0 100 20 = 13107"
  "code_quantize (5764519562104013 / 8796093022208) 0 100 15 = 39321 / 4"
  "code_quantize (5764519562104013 / 8796093022208) 0 100 30 = 39321 / 2"
  by (simp_all add: code_quantize_def d_eval)

lemma example_world_bounds:
  assumes "m_worldAABB s = example_world" and "frame_ok s"
  shows "ComputeBounds s (box 10 10 20 20) = bound_values 6552 13107 6552 13107"
    and "ComputeBounds s example_query = bound_values 9830 19661 9830 19661"
proof -
  have f: "vx (m_quantizationFactor s) = 5764519562104013 / 8796093022208"
    "vy (m_quantizationFactor s) = 5764519562104013 / 8796093022208"
    using assms by (simp_all add: frame_ok_def example_world_def box_def double_factors)
  have a: "lowerValues (ComputeBounds s (box 10 10 20 20)) 0 = 6552"
    "upperValues (ComputeBounds s (box 10 10 20 20)) 0 = 13107"
    "lowerValues (ComputeBounds s (box 10 10 20 20)) 1 = 6552"
    "upperValues (ComputeBounds s (box 10 10 20 20)) 1 = 13107"
    unfolding ComputeBounds_code_quantize assms(1) f
    by (simp_all add: example_world_def box_def example_quantized ToInt32_def)
  have b: "lowerValues (ComputeBounds s example_query) 0 = 9830"
    "upperValues (ComputeBounds s example_query) 0 = 19661"
    "lowerValues (ComputeBounds s example_query) 1 = 9830"
    "upperValues (ComputeBounds s example_query) 1 = 19661"
    unfolding ComputeBounds_code_quantize assms(1) f
    by (simp_all add: example_world_def example_query_def box_def example_quantized ToInt32_def)
  show "ComputeBounds s (box 10 10 20 20) = bound_values 6552 13107 6552 13107"
    by (subst ComputeBounds_eta) (simp only: a)
  show "ComputeBounds s example_query = bound_values 9830 19661 9830 19661"
    by (subst ComputeBounds_eta) (simp only: b)
qed

lemma example_state_vals:
  "example_state =
     fst (the (CreateProxy_vals example_cfg (new_BroadPhase example_cfg example_world)
                 (bound_values 6552 13107 6552 13107) (Some 7)))"
proof -
  have w: "m_worldAABB (new_BroadPhase example_cfg example_world) = example_world"
    by (rule new_BroadPhase_frame)
  have f: "frame_ok (new_BroadPhase example_cfg example_world)"
    by (rule frame_ok_new) (simp_all add: example_world_def box_def)
  show ?thesis
    unfolding example_state_def CreateProxy_eq_vals example_world_bounds(1) [OF w f] ..
qed

lemma example_state_world: "m_worldAABB example_state = example_world"
  unfolding example_state_vals by code_simp

lemma example_state_marks:
  "pass_marks example_state (ComputeBounds example_state example_query) 0 = [0]"
  "pass_marks example_state (ComputeBounds example_state example_query) 1 = [0]"
  "userData (the (proxyPool example_state 0)) = Some 7"
proof -
  have f: "frame_ok example_state" using example_state_inv by (simp add: broadphase_inv_def)
  note q = example_world_bounds(2) [OF example_state_world f]
  show "pass_marks example_state (ComputeBounds example_state example_query) 0 = [0]"
    unfolding q unfolding example_state_vals by code_simp
  show "pass_marks example_state (ComputeBounds example_state example_query) 1 = [0]"
    unfolding q unfolding example_state_vals by code_simp
  show "userData (the (proxyPool example_state 0)) = Some 7"
    unfolding example_state_vals by code_simp
qed

theorem QueryAABB_reports_marked_on_both_axes_witness:
  "cfg_ok example_cfg \<and> broadphase_inv example_cfg example_state [1] \<and>
   vx (minVertex example_query) \<le> vx (maxVertex example_query) \<and>
   vy (minVertex example_query) \<le> vy (maxVertex example_query) \<and>
   (\<exists>s1 s2. mark_all example_state [0] = Some s1 \<and> IncrementOverlapCount s1 0 = Some s2 \<and>
      m_queryResultCount s2 = m_queryResultCount s1 + 1 \<and>
      m_queryResults s2 (m_queryResultCount s1) = Some 0) \<and>
   (\<exists>s1 s2. mark_all example_state [0] = Some s1 \<and> IncrementOverlapCount s1 1 = Some s2 \<and>
      m_queryResultCount s2 = m_queryResultCount s1 \<and> m_queryResults s2 = m_queryResults s1) \<and>
   (\<exists>s'. QueryAABB example_cfg example_state example_query 5 = Some (s', [Some 7], 1)) \<and>
   TestOverlap example_state (ComputeBounds example_state example_query)
     (the (proxyPool example_state 0)) = Some True"
proof -
  note t = QueryAABB_reports_marked_on_both_axes [OF example_cfg_ok example_state_inv,
      of example_query 5]
  have q: "vx (minVertex example_query) \<le> vx (maxVertex example_query)"
    "vy (minVertex example_query) \<le> vy (maxVertex example_query)"
    by (simp_all add: example_query_def box_def)
  have pd: "pool_dom example_cfg example_state"
    using example_state_inv by (simp add: broadphase_inv_def)
  have d: "proxyPool example_state 0 \<noteq> None" "proxyPool example_state 1 \<noteq> None"
    using pd by (simp_all add: pool_dom_def example_cfg_def)
  obtain s1 where s1: "mark_all example_state [0] = Some s1"
    using mark_all_defined [of "[0]" example_state] d by auto
  have d1: "proxyPool s1 0 \<noteq> None" "proxyPool s1 1 \<noteq> None"
    using marks_rel_defined [OF mark_all_marks_rel [OF s1]] d by simp_all
  obtain s2 where s2: "IncrementOverlapCount s1 0 = Some s2"
    using IncrementOverlapCount_defined [of s1 0] d1 by auto
  obtain s3 where s3: "IncrementOverlapCount s1 1 = Some s3"
    using IncrementOverlapCount_defined [of s1 1] d1 by auto
  have a: "m_queryResultCount s2 = m_queryResultCount s1 + 1 \<and>
      m_queryResults s2 = (m_queryResults s1)(m_queryResultCount s1 \<mapsto> 0)"
    using conjunct1 [OF t, rule_format, of "[0]" s1 0 s2] s1 s2 by simp
  have b: "m_queryResultCount s3 = m_queryResultCount s1 \<and> m_queryResults s3 = m_queryResults s1"
    using conjunct1 [OF t, rule_format, of "[0]" s1 1 s3] s1 s3 by simp
  obtain s' out count where
    c: "QueryAABB example_cfg example_state example_query 5 = Some (s', out, count)"
       "out = map (\<lambda>p. userData (the (proxyPool example_state p))) (take (nat 5) [0])"
       "count = int (length out)"
       "\<forall>p\<in>set [0::int]. TestOverlap example_state (ComputeBounds example_state example_query)
           (the (proxyPool example_state p)) = Some True"
    using conjunct2 [OF t] q unfolding Let_def example_state_marks by auto
  have "out = [Some 7]" "count = 1" using c(2,3) example_state_marks(3) by simp_all
  then show ?thesis using example_cfg_ok example_state_inv q s1 s2 s3 a b c by auto
qed

end
